(* ===== verification/Prelude.thy ===== *)
theory Prelude
  imports Main "HOL-Library.Multiset"
begin

text \<open>
  Shared material of the development: the collections that carry the component proofs,
  C arithmetic on \<open>int\<close>, counting lemmas for arrays of thread states, and runs of
  a labelled transition system with the interface by which every concurrent component
  proves its invariants.
\<close>

named_theorems step_simps "unfolding of the step functions of the concurrent components"
named_theorems inv_defs "definitions of the invariants"

section \<open>Names of the model's types\<close>

type_synonym tid = nat    \<comment> \<open>a \<open>pthread_t\<close>; 0 is the zeroed value\<close>
type_synonym ptr = nat    \<comment> \<open>an address; 0 is \<open>NULL\<close>\<close>
type_synonym fd = int     \<comment> \<open>a file descriptor; -1 is the error value\<close>

abbreviation (input) NULL :: ptr where
  "NULL \<equiv> 0"

section \<open>C arithmetic\<close>

text \<open>The operator \<open>%\<close> of C truncates: its result has the sign of the dividend.\<close>

definition c_rem :: "int \<Rightarrow> int \<Rightarrow> int" where
  "c_rem a b = sgn a * (\<bar>a\<bar> mod \<bar>b\<bar>)"

lemma c_rem_nonneg [simp]: "0 \<le> a \<Longrightarrow> 0 \<le> b \<Longrightarrow> c_rem a b = a mod b"
  by (cases "a = 0") (simp_all add: c_rem_def sgn_if)

text \<open>The operator \<open>/\<close> of C truncates towards 0.\<close>

definition c_div :: "int \<Rightarrow> int \<Rightarrow> int" where
  "c_div a b = sgn a * sgn b * (\<bar>a\<bar> div \<bar>b\<bar>)"

lemma c_div_nonneg [simp]: "0 \<le> a \<Longrightarrow> 0 < b \<Longrightarrow> c_div a b = a div b"
  by (cases "a = 0") (simp_all add: c_div_def sgn_if)

lemma wrap_bounds: "0 < (n::int) \<Longrightarrow> 0 \<le> a mod n \<and> a mod n < n"
  by simp

lemma wrap_shift:
  fixes f :: int
  shows "((f + 1) mod n + (k - 1)) mod n = (f + k) mod n"
    and "((f + 1) mod n + k - 1) mod n = (f + k) mod n"
proof -
  show "((f + 1) mod n + (k - 1)) mod n = (f + k) mod n"
    using mod_add_left_eq [of "f + 1" n "k - 1"] by simp
  then show "((f + 1) mod n + k - 1) mod n = (f + k) mod n"
    by (simp add: add_diff_eq)
qed

lemma nat_of_length: "int (length xs) = m \<Longrightarrow> nat m = length xs"
  by auto

section \<open>Counting in arrays\<close>

definition count_if :: "('a \<Rightarrow> bool) \<Rightarrow> 'a list \<Rightarrow> int" where
  "count_if P xs = int (length (filter P xs))"

lemma count_if_Nil [simp]: "count_if P [] = 0"
  by (simp add: count_if_def)

lemma count_if_Cons [simp]:
  "count_if P (x # xs) = (if P x then 1 else 0) + count_if P xs"
  by (simp add: count_if_def)

lemma count_if_append [simp]: "count_if P (xs @ ys) = count_if P xs + count_if P ys"
  by (simp add: count_if_def)

lemma count_if_replicate [simp]:
  "count_if P (replicate n x) = (if P x then int n else 0)"
  by (induction n) auto

lemma count_if_nonneg [simp]: "0 \<le> count_if P xs"
  by (simp add: count_if_def)

lemma count_if_le_length: "count_if P xs \<le> int (length xs)"
  by (simp add: count_if_def)

lemma count_if_update:
  "i < length xs \<Longrightarrow>
    count_if P (xs[i := y]) =
      count_if P xs - (if P (xs ! i) then 1 else 0) + (if P y then 1 else 0)"
  by (induction xs arbitrary: i) (auto split: nat.splits)

lemma count_if_pos: "i < length xs \<Longrightarrow> P (xs ! i) \<Longrightarrow> 0 < count_if P xs"
  by (induction xs arbitrary: i) (auto simp: less_Suc_eq_0_disj add_pos_nonneg)

lemma count_if_pos_iff: "0 < count_if P xs \<longleftrightarrow> count_if P xs \<noteq> 0"
  by (simp add: count_if_def)

lemma count_if_eq_0: "count_if P xs = 0 \<longleftrightarrow> (\<forall>x\<in>set xs. \<not> P x)"
  by (auto simp: count_if_def filter_empty_conv)

lemma count_if_mono: "(\<And>x. P x \<Longrightarrow> Q x) \<Longrightarrow> count_if P xs \<le> count_if Q xs"
  by (induction xs) auto

lemma count_if_strict:
  "(\<And>x. P x \<Longrightarrow> Q x) \<Longrightarrow> k < length xs \<Longrightarrow> Q (xs ! k) \<Longrightarrow> \<not> P (xs ! k) \<Longrightarrow>
    count_if P xs + 1 \<le> count_if Q xs"
proof (induction xs arbitrary: k)
  case (Cons x xs)
  have "count_if P xs \<le> count_if Q xs" by (rule count_if_mono) (rule Cons.prems(1))
  then show ?case using Cons by (cases k) fastforce+
qed simp

lemma count_if_alone:
  assumes "count_if Q xs \<le> 1" "k < length xs" "Q (xs ! k)" "\<And>x. P x \<Longrightarrow> Q x"
  shows "count_if P xs = (if P (xs ! k) then 1 else 0)"
proof (cases "P (xs ! k)")
  case True
  have "0 < count_if P xs" by (rule count_if_pos [of k]) (use assms True in auto)
  moreover have "count_if P xs \<le> count_if Q xs" by (rule count_if_mono) (rule assms(4))
  ultimately show ?thesis using assms(1) True by simp
next
  case False
  have "count_if P xs + 1 \<le> count_if Q xs"
    by (rule count_if_strict [of _ _ k]) (use assms False in auto)
  then have "count_if P xs \<le> 0" using assms(1) by linarith
  then have "count_if P xs = 0" by (rule antisym [OF _ count_if_nonneg])
  then show ?thesis using False by simp
qed

lemma count_if_map: "count_if P (map f xs) = count_if (\<lambda>x. P (f x)) xs"
  by (induction xs) auto

lemma count_if_cong:
  "(\<And>x. x \<in> set xs \<Longrightarrow> P x = Q x) \<Longrightarrow> count_if P xs = count_if Q xs"
  by (induction xs) auto

section \<open>Which thread of an array is inside a critical section\<close>

text \<open>
  \<open>inside P xs h\<close>: of the threads \<open>xs\<close>, exactly \<open>h\<close> (at most one) is at a program
  counter that satisfies \<open>P\<close>.
\<close>

definition inside :: "('pc \<Rightarrow> bool) \<Rightarrow> 'pc list \<Rightarrow> nat option \<Rightarrow> bool" where
  "inside P xs h \<longleftrightarrow> (\<forall>i < length xs. P (xs ! i) \<longleftrightarrow> h = Some i)"

lemma insideD: "inside P xs h \<Longrightarrow> i < length xs \<Longrightarrow> P (xs ! i) \<Longrightarrow> h = Some i"
  by (simp add: inside_def)

lemma inside_Some: "inside P xs (Some i) \<Longrightarrow> i < length xs \<Longrightarrow> P (xs ! i)"
  by (simp add: inside_def)

lemma inside_unique:
  "inside P xs h \<Longrightarrow> i < length xs \<Longrightarrow> j < length xs \<Longrightarrow> P (xs ! i) \<Longrightarrow> P (xs ! j) \<Longrightarrow> i = j"
  by (simp add: inside_def)

lemma inside_keep [simp]:
  "inside P xs h \<Longrightarrow> (i < length xs \<Longrightarrow> P y = P (xs ! i)) \<Longrightarrow> inside P (xs[i := y]) h"
  by (cases "i < length xs") (auto simp: inside_def nth_list_update list_update_beyond)

lemma inside_enter [simp]: "inside P xs None \<Longrightarrow> P y \<Longrightarrow> inside P (xs[i := y]) (Some i)"
  by (cases "i < length xs") (auto simp: inside_def nth_list_update list_update_beyond)

lemma inside_leave [simp]: "inside P xs (Some i) \<Longrightarrow> \<not> P y \<Longrightarrow> inside P (xs[i := y]) None"
  by (cases "i < length xs") (auto simp: inside_def nth_list_update list_update_beyond)

lemma inside_map: "(\<And>x. P (f x) = P x) \<Longrightarrow> inside P (map f xs) h = inside P xs h"
  by (simp add: inside_def)

lemma inside_append:
  "inside P xs h \<Longrightarrow> (\<And>y. y \<in> set ys \<Longrightarrow> \<not> P y) \<Longrightarrow>
    (\<And>i. h = Some i \<Longrightarrow> i < length xs) \<Longrightarrow> inside P (xs @ ys) h"
  by (fastforce simp: inside_def nth_append)

lemma inside_replicate: "\<not> P y \<Longrightarrow> inside P (replicate n y) None"
  by (simp add: inside_def)

lemma in_set_list_update: "x \<in> set (xs[i := y]) \<Longrightarrow> x = y \<or> x \<in> set xs"
  using set_update_subset_insert [of xs i y] by auto

text \<open>A property of all threads of an array.\<close>

lemma list_all_update [simp]: "list_all P xs \<Longrightarrow> P y \<Longrightarrow> list_all P (xs[i := y])"
  by (auto simp: list_all_iff dest!: in_set_list_update)

lemma list_all_nth: "list_all P xs \<Longrightarrow> i < length xs \<Longrightarrow> P (xs ! i)"
  by (simp add: list_all_length)

lemma list_all_map_imp: "list_all P xs \<Longrightarrow> (\<And>x. P x \<Longrightarrow> P (f x)) \<Longrightarrow> list_all P (map f xs)"
  by (induction xs) auto

text \<open>A stack in an array keeps filler in the places above its top.\<close>

lemma filler_push:
  assumes "drop n xs = replicate (m - n) z"
  shows "drop (Suc n) (xs[n := y]) = replicate (m - Suc n) z"
proof -
  have "drop (Suc n) xs = tl (drop n xs)" by (simp add: drop_Suc tl_drop)
  then show ?thesis using assms by (simp add: tl_replicate)
qed

lemma filler_pop:
  assumes "n < length xs" "drop (Suc n) xs = replicate (length xs - Suc n) z"
  shows "drop n (xs[n := z]) = replicate (length xs - n) z"
proof -
  have "drop n (xs[n := z]) = z # drop (Suc n) xs"
    using assms(1) by (simp add: Cons_nth_drop_Suc [symmetric])
  also have "\<dots> = replicate (length xs - n) z"
    using assms by (simp flip: replicate_Suc add: Suc_diff_Suc)
  finally show ?thesis .
qed

section \<open>Bytes\<close>

text \<open>\<open>toupper\<close> of the C locale, on one byte.\<close>

definition toupper :: "char \<Rightarrow> char" where
  "toupper c = (let n = (of_char c :: nat) in if 97 \<le> n \<and> n \<le> 122 then char_of (n - 32) else c)"

lemma toupper_idem [simp]: "toupper (toupper c) = toupper c"
  by (auto simp: toupper_def Let_def)

section \<open>Runs of a labelled transition system\<close>

inductive runs :: "('s \<Rightarrow> 'l \<Rightarrow> 's \<Rightarrow> bool) \<Rightarrow> 's \<Rightarrow> 'l list \<Rightarrow> 's \<Rightarrow> bool"
  for step :: "'s \<Rightarrow> 'l \<Rightarrow> 's \<Rightarrow> bool"
where
  refl: "runs step s [] s"
| snoc: "runs step s ls t \<Longrightarrow> step t l u \<Longrightarrow> runs step s (ls @ [l]) u"

lemma runs_trans: "runs step s ls t \<Longrightarrow> runs step t ms u \<Longrightarrow> runs step s (ls @ ms) u"
proof (rotate_tac, induction rule: runs.induct)
  case (snoc t ms u l v)
  then have "runs step s ((ls @ ms) @ [l]) v" by (blast intro: runs.snoc)
  then show ?case by simp
qed simp

lemma runs_Cons: "step s l t \<Longrightarrow> runs step t ls u \<Longrightarrow> runs step s (l # ls) u"
  using runs_trans [OF runs.snoc [OF runs.refl]] by fastforce

text \<open>A schedule is followed by a partial step function: executable runs for witnesses.\<close>

fun follow :: "('c \<Rightarrow> 's \<Rightarrow> ('l \<times> 's) option) \<Rightarrow> 'c list \<Rightarrow> 's \<Rightarrow> ('l list \<times> 's) option" where
  "follow f [] s = Some ([], s)"
| "follow f (c # cs) s =
     (case f c s of
        None \<Rightarrow> None
      | Some (l, t) \<Rightarrow> map_option (\<lambda>(ls, u). (l # ls, u)) (follow f cs t))"

lemma follow_runs:
  assumes "\<And>c s l t. f c s = Some (l, t) \<Longrightarrow> step s l t"
  shows "follow f cs s = Some (ls, u) \<Longrightarrow> runs step s ls u"
  by (induction cs arbitrary: s ls)
    (auto intro: runs.refl runs_Cons assms split: option.splits)

text \<open>
  The interface of an inductive invariant: what a component shows of one step, and what
  it gets for every run.
\<close>

locale inductive_invariant =
  fixes step :: "'s \<Rightarrow> 'l \<Rightarrow> 's \<Rightarrow> bool"
    and inv :: "'s \<Rightarrow> bool"
  assumes preserved: "inv s \<Longrightarrow> step s l t \<Longrightarrow> inv t"
begin

lemma run_preserves: "runs step s ls t \<Longrightarrow> inv s \<Longrightarrow> inv t"
  by (induction rule: runs.induct) (auto intro: preserved)

lemma run_labels:
  assumes "\<And>s l t. inv s \<Longrightarrow> step s l t \<Longrightarrow> P l"
  shows "runs step s ls t \<Longrightarrow> inv s \<Longrightarrow> list_all P ls"
proof (induction rule: runs.induct)
  case (snoc s ls t l u)
  then have "inv t" by (blast intro: run_preserves)
  with snoc assms show ?case by auto
qed simp

end

text \<open>
  An invariant that relates the state to the history of labels: \<open>out\<close> and \<open>inp\<close> select
  what left and what entered a component, \<open>held\<close> is what it still holds.
\<close>

locale conserving_system = inductive_invariant step inv
  for step :: "'s \<Rightarrow> 'l \<Rightarrow> 's \<Rightarrow> bool" and inv :: "'s \<Rightarrow> bool" +
  fixes inp :: "'l \<Rightarrow> 'a list" and out :: "'l \<Rightarrow> 'a list" and held :: "'s \<Rightarrow> 'a list"
  assumes flow: "inv s \<Longrightarrow> step s l t \<Longrightarrow> out l @ held t = held s @ inp l"
begin

lemma run_conserves:
  "runs step s ls t \<Longrightarrow> inv s \<Longrightarrow>
    concat (map out ls) @ held t = held s @ concat (map inp ls)"
proof (induction rule: runs.induct)
  case (snoc s ls t l u)
  then have "inv t" by (blast intro: run_preserves)
  with snoc.hyps have fl: "out l @ held u = held t @ inp l" by (blast intro: flow)
  have "concat (map out (ls @ [l])) @ held u = concat (map out ls) @ held t @ inp l"
    using fl by simp
  also have "\<dots> = (concat (map out ls) @ held t) @ inp l" by simp
  also have "\<dots> = held s @ concat (map inp (ls @ [l]))"
    using snoc.IH [OF snoc.prems] by simp
  finally show ?case .
qed simp

end

text \<open>
  A refinement: \<open>spec\<close> says what each label does to an abstract state and when it is
  allowed; the concrete steps do just that to the abstraction of their state.
\<close>

fun replay :: "('l \<Rightarrow> 'a \<Rightarrow> 'a option) \<Rightarrow> 'l list \<Rightarrow> 'a \<Rightarrow> 'a option" where
  "replay spec [] a = Some a"
| "replay spec (l # ls) a = (case spec l a of None \<Rightarrow> None | Some b \<Rightarrow> replay spec ls b)"

lemma replay_snoc:
  "replay spec ls a = Some b \<Longrightarrow> spec l b = Some c \<Longrightarrow> replay spec (ls @ [l]) a = Some c"
  by (induction ls arbitrary: a) (auto split: option.splits)

locale refined_system = inductive_invariant step inv
  for step :: "'s \<Rightarrow> 'l \<Rightarrow> 's \<Rightarrow> bool" and inv :: "'s \<Rightarrow> bool" +
  fixes abs :: "'s \<Rightarrow> 'a" and spec :: "'l \<Rightarrow> 'a \<Rightarrow> 'a option"
  assumes simulated: "inv s \<Longrightarrow> step s l t \<Longrightarrow> spec l (abs s) = Some (abs t)"
begin

lemma run_refines:
  "runs step s ls t \<Longrightarrow> inv s \<Longrightarrow> replay spec ls (abs s) = Some (abs t)"
proof (induction rule: runs.induct)
  case (snoc s ls t l u)
  then have "inv t" by (blast intro: run_preserves)
  with snoc show ?case by (blast intro: replay_snoc simulated)
qed simp

end

end
