(* ===== verification/Ring.thy ===== *)
theory Ring
  imports Prelude
begin

text \<open>
  Circular arrays, and the interfaces of the bounded containers of the repository: the
  first-in first-out buffer that the thread pools promise, and the stack that the
  producer and consumer programs promise. The components interpret the interfaces on
  their own operations.
\<close>

section \<open>The elements of a circular array\<close>

definition ring_items :: "'a list \<Rightarrow> nat \<Rightarrow> nat \<Rightarrow> 'a list" where
  "ring_items buf f n = map (\<lambda>k. buf ! ((f + k) mod length buf)) [0..<n]"

lemma length_ring_items [simp]: "length (ring_items buf f n) = n"
  by (simp add: ring_items_def)

lemma ring_items_0 [simp]: "ring_items buf f 0 = []"
  by (simp add: ring_items_def)

lemma ring_items_eq_Nil [simp]: "ring_items buf f n = [] \<longleftrightarrow> n = 0"
  by (simp add: ring_items_def)

lemma mod_add_neq:
  fixes m :: nat
  assumes "j < k" "k < m"
  shows "(f + j) mod m \<noteq> (f + k) mod m"
proof
  assume "(f + j) mod m = (f + k) mod m"
  then have "m dvd (f + k) - (f + j)"
    using assms by (simp add: mod_eq_iff_dvd_symdiff_nat dvd_diff_nat nat_diff_distrib)
  then have "m dvd k - j" by simp
  with assms show False by (auto dest: dvd_imp_le)
qed

lemma ring_items_put:
  assumes "n < length buf"
  shows "ring_items (buf[(f + n) mod length buf := x]) f (Suc n) = ring_items buf f n @ [x]"
proof -
  have "0 < length buf" using assms by linarith
  then have "(f + n) mod length buf < length buf" by (rule mod_less_divisor)
  moreover have "(f + n) mod length buf \<noteq> (f + k) mod length buf" if "k < n" for k
    using mod_add_neq [OF that assms, of f] by simp
  ultimately show ?thesis
    by (auto simp: ring_items_def nth_list_update intro!: map_cong)
qed

lemma ring_items_get:
  assumes "0 < n" "f < length buf"
  shows "ring_items buf f n = buf ! f # ring_items buf ((f + 1) mod length buf) (n - 1)"
proof -
  have "[0..<n] = 0 # map Suc [0..<n - 1]"
    using assms by (simp add: map_Suc_upt upt_conv_Cons)
  then show ?thesis
    using assms by (simp add: ring_items_def comp_def mod_add_left_eq)
qed

section \<open>The promise of a bounded first-in first-out buffer\<close>

fun drain :: "('q \<Rightarrow> 'a \<times> 'q) \<Rightarrow> nat \<Rightarrow> 'q \<Rightarrow> 'a list \<times> 'q" where
  "drain get 0 q = ([], q)"
| "drain get (Suc n) q =
     (case get q of (x, q') \<Rightarrow> (case drain get n q' of (xs, q'') \<Rightarrow> (x # xs, q'')))"

locale fifo_buffer =
  fixes put :: "'a \<Rightarrow> 'q \<Rightarrow> 'q"
    and get :: "'q \<Rightarrow> 'a \<times> 'q"
    and items :: "'q \<Rightarrow> 'a list"
    and cap :: "'q \<Rightarrow> nat"
    and ok :: "'q \<Rightarrow> bool"
  assumes items_put: "ok q \<Longrightarrow> length (items q) < cap q \<Longrightarrow> items (put x q) = items q @ [x]"
    and ok_put: "ok q \<Longrightarrow> length (items q) < cap q \<Longrightarrow> ok (put x q)"
    and cap_put: "cap (put x q) = cap q"
    and items_get: "ok q \<Longrightarrow> items q \<noteq> [] \<Longrightarrow> items q = fst (get q) # items (snd (get q))"
    and ok_get: "ok q \<Longrightarrow> items q \<noteq> [] \<Longrightarrow> ok (snd (get q))"
begin

lemma put_all:
  "ok q \<Longrightarrow> length (items q) + length xs \<le> cap q \<Longrightarrow>
    ok (fold put xs q) \<and> items (fold put xs q) = items q @ xs"
  by (induction xs arbitrary: q) (auto simp: items_put ok_put cap_put)

lemma drain_items:
  "ok q \<Longrightarrow> n \<le> length (items q) \<Longrightarrow>
    ok (snd (drain get n q)) \<and> fst (drain get n q) @ items (snd (drain get n q)) = items q
    \<and> length (fst (drain get n q)) = n"
proof (induction n arbitrary: q)
  case (Suc n)
  then have "items q \<noteq> []" by auto
  with Suc show ?case
    using items_get [of q] ok_get [of q] Suc.IH [of "snd (get q)"]
    by (auto simp: split_beta) 
qed simp

lemma fill_and_drain:
  assumes "ok q" "items q = []" "length xs \<le> cap q"
  shows "fst (drain get (length xs) (fold put xs q)) = xs"
proof -
  have "ok (fold put xs q)" "items (fold put xs q) = xs"
    using put_all [of q xs] assms by auto
  then show ?thesis
    using drain_items [of "fold put xs q" "length xs"]
    by (metis append_eq_conv_conj order_refl take_all)
qed

end

end
