(* ===== verification/ThreadPool.thy ===== *)
theory ThreadPool
  imports Ring
begin

text \<open>
  The thread pool of \<open>thread/thread_pool/thread_pool.c\<close>: its structure, its creation
  and release as sequences of library calls, and the operations on its task queue. The
  threads that run on it are in \<open>ThreadPoolThreads\<close>.
\<close>

section \<open>Data\<close>

text \<open>\<open>threadpool_task_t\<close>: the callback is named by a number, its argument is an address.\<close>

record threadpool_task_t =
  fn :: nat
  arg :: ptr

text \<open>
  \<open>struct threadpool_t\<close>. The mutexes and condition variables are part of the state of the
  running system; the two arrays are lists, whose length is the allocated length.
\<close>

record threadpool_t =
  threads :: "tid list"
  task_queue :: "threadpool_task_t list"
  min_thr_num :: int
  max_thr_num :: int
  live_thr_num :: int
  busy_thr_num :: int
  wait_exit_thr_num :: int
  queue_front :: int
  queue_rear :: int
  queue_size :: int
  queue_max_size :: int
  shutdown :: bool

definition DEFAULT_THREAD_VARY :: int where "DEFAULT_THREAD_VARY = 10"
definition MIN_WAIT_TASK_NUM :: int where "MIN_WAIT_TASK_NUM = 10"

section \<open>The task queue\<close>

text \<open>
  The part of \<open>threadpool_add\<close> that stores a task: the argument left in the slot by an
  earlier task is freed. The result is the list of freed addresses and the new pool.
\<close>

definition enqueue_task :: "nat \<Rightarrow> ptr \<Rightarrow> threadpool_t \<Rightarrow> ptr list \<times> threadpool_t" where
  "enqueue_task f a p =
     (let r = nat (queue_rear p);
          old = arg (task_queue p ! r)
      in (if old \<noteq> NULL then [old] else [],
          p\<lparr>task_queue := (task_queue p)[r := \<lparr>fn = f, arg = a\<rparr>],
            queue_rear := c_rem (queue_rear p + 1) (queue_max_size p),
            queue_size := queue_size p + 1\<rparr>))"

text \<open>The part of \<open>threadpool_thread\<close> that takes the task at the front.\<close>

definition dequeue_task :: "threadpool_t \<Rightarrow> threadpool_task_t \<times> threadpool_t" where
  "dequeue_task p =
     (task_queue p ! nat (queue_front p),
      p\<lparr>queue_front := c_rem (queue_front p + 1) (queue_max_size p),
        queue_size := queue_size p - 1\<rparr>)"

definition queued :: "threadpool_t \<Rightarrow> threadpool_task_t list" where
  "queued p = ring_items (task_queue p) (nat (queue_front p)) (nat (queue_size p))"

text \<open>The shape of the queue: indices in range and the rear where front and size put it.\<close>

definition ring_ok :: "threadpool_t \<Rightarrow> bool" where
  "ring_ok p \<longleftrightarrow>
     0 < queue_max_size p \<and> int (length (task_queue p)) = queue_max_size p
     \<and> 0 \<le> queue_front p \<and> queue_front p < queue_max_size p
     \<and> 0 \<le> queue_size p \<and> queue_size p \<le> queue_max_size p
     \<and> queue_rear p = (queue_front p + queue_size p) mod queue_max_size p"

lemma length_queued: "ring_ok p \<Longrightarrow> int (length (queued p)) = queue_size p"
  by (simp add: queued_def ring_ok_def)

lemma ring_ok_enqueue:
  assumes "ring_ok p" "queue_size p < queue_max_size p"
  shows "ring_ok (snd (enqueue_task f a p))"
  using assms
  by (auto simp: ring_ok_def enqueue_task_def Let_def mod_simps algebra_simps)

lemma queued_enqueue:
  assumes "ring_ok p" "queue_size p < queue_max_size p"
  shows "queued (snd (enqueue_task f a p)) = queued p @ [\<lparr>fn = f, arg = a\<rparr>]"
proof -
  have r: "nat (queue_rear p) =
      (nat (queue_front p) + nat (queue_size p)) mod length (task_queue p)"
    using assms(1) by (auto simp: ring_ok_def nat_mod_distrib nat_add_distrib nat_of_length)
  have s: "nat (queue_size p + 1) = Suc (nat (queue_size p))"
    using assms(1) by (auto simp: ring_ok_def nat_add_distrib)
  have "nat (queue_size p) < length (task_queue p)"
    using assms by (auto simp: ring_ok_def)
  from ring_items_put [OF this] show ?thesis
    by (simp add: queued_def enqueue_task_def Let_def r s)
qed

lemma ring_ok_dequeue:
  assumes "ring_ok p" "0 < queue_size p"
  shows "ring_ok (snd (dequeue_task p))"
  using assms
  by (auto simp: ring_ok_def dequeue_task_def wrap_shift)

lemma queued_dequeue:
  assumes "ring_ok p" "0 < queue_size p"
  shows "queued p = fst (dequeue_task p) # queued (snd (dequeue_task p))"
proof -
  have "nat (queue_front p) < length (task_queue p)"
    using assms by (auto simp: ring_ok_def)
  moreover have "nat ((queue_front p + 1) mod queue_max_size p) =
      (nat (queue_front p) + 1) mod length (task_queue p)"
    using assms(1) by (auto simp: ring_ok_def nat_mod_distrib nat_add_distrib nat_of_length)
  moreover have "nat (queue_size p - 1) = nat (queue_size p) - 1" by simp
  ultimately show ?thesis
    using assms ring_items_get [of "nat (queue_size p)" "nat (queue_front p)" "task_queue p"]
    by (simp add: queued_def dequeue_task_def ring_ok_def)
qed

text \<open>The queue keeps the promise of a bounded first-in first-out buffer.\<close>

definition put_task :: "threadpool_task_t \<Rightarrow> threadpool_t \<Rightarrow> threadpool_t" where
  "put_task t p = snd (enqueue_task (fn t) (arg t) p)"

interpretation tq: fifo_buffer put_task dequeue_task queued "\<lambda>p. nat (queue_max_size p)" ring_ok
proof
  fix t p
  assume ok: "ring_ok p"
  assume "length (queued p) < nat (queue_max_size p)"
  with ok have room: "queue_size p < queue_max_size p"
    using length_queued [of p] by (auto simp: zless_nat_eq_int_zless)
  show "queued (put_task t p) = queued p @ [t]"
    using queued_enqueue [OF ok room] by (simp add: put_task_def)
  show "ring_ok (put_task t p)"
    using ring_ok_enqueue [OF ok room] by (simp add: put_task_def)
next
  fix t p show "nat (queue_max_size (put_task t p)) = nat (queue_max_size p)"
    by (simp add: put_task_def enqueue_task_def Let_def)
next
  fix p
  assume ok: "ring_ok p" and "queued p \<noteq> []"
  then have ne: "0 < queue_size p"
    using length_queued [OF ok] by (cases "queued p") auto
  show "queued p = fst (dequeue_task p) # queued (snd (dequeue_task p))"
    by (rule queued_dequeue [OF ok ne])
  show "ring_ok (snd (dequeue_task p))"
    by (rule ring_ok_dequeue [OF ok ne])
qed

section \<open>Creation and release\<close>

datatype pool_mutex = M_lock | M_thread_counter
datatype pool_cond = C_queue_not_full | C_queue_not_empty

text \<open>The library calls that creation and release make, in program order.\<close>

datatype pool_call =
    Free ptr
  | MutexInit pool_mutex
  | MutexLock pool_mutex
  | MutexDestroy pool_mutex
  | CondInit pool_cond
  | CondDestroy pool_cond
  | CreateWorker nat
  | CreateManager

text \<open>
  What the library answers to \<open>threadpool_create\<close>: the results of the three \<open>malloc\<close>
  calls (0 on failure), the indeterminate contents of the fresh memory that the code does
  not write before it reads it, and the success of the four initialisations.
\<close>

record create_env =
  a_pool :: ptr
  a_threads :: ptr
  a_queue :: ptr
  raw_task_queue :: ptr
  raw_wait_exit :: int
  raw_tids :: "tid list"
  raw_tasks :: "threadpool_task_t list"
  ok_lock :: bool
  ok_counter :: bool
  ok_not_empty :: bool
  ok_not_full :: bool

text \<open>\<open>threadpool_free\<close>, on the address of the pool and its two array fields.\<close>

definition threadpool_free :: "ptr \<Rightarrow> ptr \<Rightarrow> ptr \<Rightarrow> pool_call list \<times> int" where
  "threadpool_free pool tq th =
     (if pool = NULL then ([], -1)
      else ((if tq \<noteq> NULL then [Free tq] else [])
            @ (if th \<noteq> NULL
               then [Free th, MutexLock M_lock, MutexDestroy M_lock,
                     MutexLock M_thread_counter, MutexDestroy M_thread_counter,
                     CondDestroy C_queue_not_empty, CondDestroy C_queue_not_full]
               else [])
            @ [Free pool], 0))"

text \<open>The four initialisations, left to right, up to the first that fails.\<close>

definition pool_inits :: "create_env \<Rightarrow> pool_call list \<times> bool" where
  "pool_inits e =
     (if \<not> ok_lock e then ([MutexInit M_lock], False)
      else if \<not> ok_counter e then ([MutexInit M_lock, MutexInit M_thread_counter], False)
      else if \<not> ok_not_empty e
        then ([MutexInit M_lock, MutexInit M_thread_counter, CondInit C_queue_not_empty], False)
      else ([MutexInit M_lock, MutexInit M_thread_counter, CondInit C_queue_not_empty,
             CondInit C_queue_not_full], ok_not_full e))"

text \<open>
  The structure after a successful creation. \<open>memset\<close> clears \<open>sizeof(pool->threads)\<close>
  bytes, the size of a pointer: one entry of the array. The \<open>i\<close>-th \<open>pthread_create\<close>
  stores the identifier \<open>Suc i\<close>.
\<close>

definition created_pool :: "create_env \<Rightarrow> int \<Rightarrow> int \<Rightarrow> int \<Rightarrow> threadpool_t" where
  "created_pool e min_thr max_thr qmax =
     \<lparr>threads = fold (\<lambda>i ts. ts[i := Suc i]) [0..<nat min_thr] ((raw_tids e)[0 := 0]),
      task_queue = raw_tasks e,
      min_thr_num = min_thr, max_thr_num = max_thr, live_thr_num = min_thr,
      busy_thr_num = 0, wait_exit_thr_num = raw_wait_exit e,
      queue_front = 0, queue_rear = 0, queue_size = 0, queue_max_size = qmax,
      shutdown = False\<rparr>"

definition threadpool_create ::
  "create_env \<Rightarrow> int \<Rightarrow> int \<Rightarrow> int \<Rightarrow> pool_call list \<times> threadpool_t option" where
  "threadpool_create e min_thr max_thr qmax =
     (if a_pool e = NULL then (fst (threadpool_free NULL 0 0), None)
      else if a_threads e = NULL
        then (fst (threadpool_free (a_pool e) (raw_task_queue e) NULL), None)
      else if a_queue e = NULL
        then (fst (threadpool_free (a_pool e) NULL (a_threads e)), None)
      else (case pool_inits e of
          (cs, False) \<Rightarrow>
            (cs @ fst (threadpool_free (a_pool e) (a_queue e) (a_threads e)), None)
        | (cs, True) \<Rightarrow>
            (cs @ map CreateWorker [0..<nat min_thr] @ [CreateManager],
             Some (created_pool e min_thr max_thr qmax))))"

text \<open>Addresses given to \<open>free\<close>, in order.\<close>

definition freed_by :: "pool_call list \<Rightarrow> ptr list" where
  "freed_by cs = concat (map (\<lambda>c. case c of Free a \<Rightarrow> [a] | _ \<Rightarrow> []) cs)"

definition is_create :: "pool_call \<Rightarrow> bool" where
  "is_create c = (case c of CreateWorker _ \<Rightarrow> True | CreateManager \<Rightarrow> True | _ \<Rightarrow> False)"

definition is_init :: "pool_call \<Rightarrow> bool" where
  "is_init c = (case c of MutexInit _ \<Rightarrow> True | CondInit _ \<Rightarrow> True | _ \<Rightarrow> False)"

lemmas create_defs =
  threadpool_create_def threadpool_free_def pool_inits_def freed_by_def is_create_def is_init_def

lemma length_fold_set [simp]: "length (fold (\<lambda>i ts. ts[i := f i]) is xs) = length xs"
  by (induction "is" arbitrary: xs) auto

lemma nth_fold_set:
  "k < length xs \<Longrightarrow>
    fold (\<lambda>i ts. ts[i := f i]) [0..<n] xs ! k = (if k < n then f k else xs ! k)"
  by (induction n) (auto simp: nth_list_update less_Suc_eq)

lemma created_ring_ok:
  "0 < qmax \<Longrightarrow> int (length (raw_tasks e)) = qmax \<Longrightarrow>
    ring_ok (created_pool e mn mx qmax) \<and> queued (created_pool e mn mx qmax) = []"
  by (simp add: ring_ok_def created_pool_def queued_def)

end
