(* ===== verification/ThreadPoolThreads.thy ===== *)
theory ThreadPoolThreads
  imports ThreadPool
begin

text \<open>
  The threads that run on the pool of \<open>thread/thread_pool/thread_pool.c\<close>: workers
  (\<open>threadpool_thread\<close>), callers of \<open>threadpool_add\<close>, the manager
  (\<open>adjust_thread\<close>) and the caller of \<open>threadpool_destroy\<close>. Each thread has a
  program counter; one step of one thread is the code between two points at which
  another thread can interfere. Taking \<open>lock\<close>, waiting on a condition variable,
  signalling and releasing follow POSIX: a wait releases the mutex and takes it again
  when woken, a signal wakes one waiting thread if there is one, and a waiting thread may
  also wake up spuriously. A section protected by \<open>thread_counter\<close> contains no other
  library call and is one step.
\<close>

section \<open>State\<close>

text \<open>Program counters, with the source lines at which they stand.\<close>

datatype worker_pc =
    WLock                          \<comment> \<open>169: about to lock\<close>
  | WLoop                          \<comment> \<open>171: loop condition, lock held\<close>
  | WBlocked                       \<comment> \<open>174: waiting on \<open>queue_not_empty\<close>\<close>
  | WRelock                        \<comment> \<open>174: woken, about to take the lock again\<close>
  | WWoken                         \<comment> \<open>176: after the wait, lock held\<close>
  | WShut                          \<comment> \<open>191: test of \<open>shutdown\<close>, lock held\<close>
  | WFetch                         \<comment> \<open>198: takes the task, lock held\<close>
  | WStart threadpool_task_t       \<comment> \<open>210: counts itself busy\<close>
  | WRun threadpool_task_t         \<comment> \<open>213: in the callback\<close>
  | WEnd                           \<comment> \<open>218: counts itself idle\<close>
  | WExit                          \<comment> \<open>ended by \<open>pthread_exit\<close>\<close>

datatype caller_pc =
    AIdle                          \<comment> \<open>not in a call\<close>
  | ALock nat ptr                  \<comment> \<open>131\<close>
  | ALoop nat ptr                  \<comment> \<open>133, lock held\<close>
  | ABlocked nat ptr               \<comment> \<open>135: waiting on \<open>queue_not_full\<close>\<close>
  | ARelock nat ptr                \<comment> \<open>135: woken\<close>
  | AShut nat ptr                  \<comment> \<open>137\<close>
  | APut nat ptr                   \<comment> \<open>143\<close>
  | ASignal                        \<comment> \<open>154\<close>
  | AUnlock                        \<comment> \<open>155\<close>
  | AFault                         \<comment> \<open>unlocked a mutex it does not own: undefined\<close>

datatype manager_pc =
    MTest                          \<comment> \<open>232\<close>
  | MRead1                         \<comment> \<open>235, after the sleep\<close>
  | MRead2 int int                 \<comment> \<open>240: has \<open>queue_size\<close> and \<open>live_thr_num\<close>\<close>
  | MDecide int int int            \<comment> \<open>245: has also \<open>busy_thr_num\<close>\<close>
  | MGrow int int                  \<comment> \<open>247\<close>
  | MShrink int int                \<comment> \<open>263\<close>
  | MReap                          \<comment> \<open>267\<close>
  | MSignal nat                    \<comment> \<open>271: signals still to send\<close>
  | MExit

datatype destroyer_pc =
    DIdle
  | DSet                           \<comment> \<open>288\<close>
  | DJoinManager                   \<comment> \<open>290\<close>
  | DBroadcast                     \<comment> \<open>292\<close>
  | DLoop nat                      \<comment> \<open>293\<close>
  | DJoin nat                      \<comment> \<open>296\<close>
  | DFree                          \<comment> \<open>298\<close>
  | DDone
  | DFault                         \<comment> \<open>joined an identifier that names no thread: undefined\<close>

datatype holder = HW nat | HA nat

text \<open>The manager and the destroyer never hold \<open>lock\<close> between two of their steps.\<close>

record tp_sys =
  pool :: threadpool_t
  lock :: "holder option"
  workers :: "worker_pc list"
  callers :: "caller_pc list"
  manager :: manager_pc
  destroyer :: destroyer_pc
  freed_args :: "ptr list"
  released :: bool

datatype tp_event = Tau | Added threadpool_task_t | Taken threadpool_task_t | Ran threadpool_task_t

section \<open>Steps\<close>

abbreviation set_worker :: "nat \<Rightarrow> worker_pc \<Rightarrow> tp_sys \<Rightarrow> tp_sys" where
  "set_worker i pc s \<equiv> s\<lparr>workers := (workers s)[i := pc]\<rparr>"

abbreviation set_caller :: "nat \<Rightarrow> caller_pc \<Rightarrow> tp_sys \<Rightarrow> tp_sys" where
  "set_caller j pc s \<equiv> s\<lparr>callers := (callers s)[j := pc]\<rparr>"

abbreviation unlock :: "tp_sys \<Rightarrow> tp_sys" where
  "unlock s \<equiv> s\<lparr>lock := None\<rparr>"

definition wake_worker :: "worker_pc \<Rightarrow> worker_pc" where
  "wake_worker pc = (if pc = WBlocked then WRelock else pc)"

fun wake_caller :: "caller_pc \<Rightarrow> caller_pc" where
  "wake_caller (ABlocked f a) = ARelock f a"
| "wake_caller pc = pc"

text \<open>
  \<open>pthread_cond_signal\<close> on \<open>queue_not_empty\<close>, where the scheduler picks the waiter
  \<open>w\<close>: it must pick one when there is one.
\<close>

definition signal_not_empty :: "nat \<Rightarrow> tp_sys \<Rightarrow> tp_sys option" where
  "signal_not_empty w s =
     (if w < length (workers s) \<and> workers s ! w = WBlocked then Some (set_worker w WRelock s)
      else if WBlocked \<in> set (workers s) then None
      else Some s)"

text \<open>One step of the worker \<open>i\<close>; \<open>None\<close> when it is blocked or has ended.\<close>

definition threadpool_thread :: "nat \<Rightarrow> tp_sys \<Rightarrow> (tp_event \<times> tp_sys) option" where
  "threadpool_thread i s =
     (let p = pool s in
      case workers s ! i of
        WLock \<Rightarrow>
          if lock s = None then Some (Tau, (set_worker i WLoop s)\<lparr>lock := Some (HW i)\<rparr>) else None
      | WLoop \<Rightarrow>
          if queue_size p = 0 \<and> \<not> shutdown p
          then Some (Tau, unlock (set_worker i WBlocked s))
          else Some (Tau, set_worker i WShut s)
      | WBlocked \<Rightarrow> None
      | WRelock \<Rightarrow>
          if lock s = None then Some (Tau, (set_worker i WWoken s)\<lparr>lock := Some (HW i)\<rparr>) else None
      | WWoken \<Rightarrow>
          if wait_exit_thr_num p > 0
          then (let p' = p\<lparr>wait_exit_thr_num := wait_exit_thr_num p - 1\<rparr> in
                if live_thr_num p' > min_thr_num p'
                then Some (Tau, unlock ((set_worker i WExit s)
                                          \<lparr>pool := p'\<lparr>live_thr_num := live_thr_num p' - 1\<rparr>\<rparr>))
                else Some (Tau, (set_worker i WLoop s)\<lparr>pool := p'\<rparr>))
          else Some (Tau, set_worker i WLoop s)
      | WShut \<Rightarrow>
          if shutdown p then Some (Tau, unlock (set_worker i WExit s))
          else Some (Tau, set_worker i WFetch s)
      | WFetch \<Rightarrow>
          (let (t, p') = dequeue_task p in
           Some (Taken t, unlock ((set_worker i (WStart t) s)
                                    \<lparr>pool := p', callers := map wake_caller (callers s)\<rparr>)))
      | WStart t \<Rightarrow>
          Some (Tau, (set_worker i (WRun t) s)\<lparr>pool := p\<lparr>busy_thr_num := busy_thr_num p + 1\<rparr>\<rparr>)
      | WRun t \<Rightarrow> Some (Ran t, set_worker i WEnd s)
      | WEnd \<Rightarrow>
          Some (Tau, (set_worker i WLock s)\<lparr>pool := p\<lparr>busy_thr_num := busy_thr_num p - 1\<rparr>\<rparr>)
      | WExit \<Rightarrow> None)"

text \<open>
  One step of the caller \<open>j\<close> inside \<open>threadpool_add\<close>. After the unlock for
  \<open>shutdown\<close> the code goes on: it stores the task and unlocks again. That store, made without
  the lock, is one step here, which is only one of its interleavings, and the second unlock is
  undefined behaviour: it leads to \<open>AFault\<close> (unless the caller happens to own the mutex). Only
  counterexamples use the system after \<open>shutdown\<close>; its properties are stated before it.
\<close>

definition threadpool_add :: "nat \<Rightarrow> nat \<Rightarrow> tp_sys \<Rightarrow> (tp_event \<times> tp_sys) option" where
  "threadpool_add j w s =
     (let p = pool s in
      case callers s ! j of
        AIdle \<Rightarrow> None
      | ALock f a \<Rightarrow>
          if lock s = None then Some (Tau, (set_caller j (ALoop f a) s)\<lparr>lock := Some (HA j)\<rparr>)
          else None
      | ALoop f a \<Rightarrow>
          if queue_size p = queue_max_size p \<and> \<not> shutdown p
          then Some (Tau, unlock (set_caller j (ABlocked f a) s))
          else Some (Tau, set_caller j (AShut f a) s)
      | ABlocked f a \<Rightarrow> None
      | ARelock f a \<Rightarrow>
          if lock s = None then Some (Tau, (set_caller j (ALoop f a) s)\<lparr>lock := Some (HA j)\<rparr>)
          else None
      | AShut f a \<Rightarrow>
          if shutdown p then Some (Tau, unlock (set_caller j (APut f a) s))
          else Some (Tau, set_caller j (APut f a) s)
      | APut f a \<Rightarrow>
          (let (fr, p') = enqueue_task f a p in
           Some (Added \<lparr>fn = f, arg = a\<rparr>,
                 (set_caller j ASignal s)\<lparr>pool := p', freed_args := freed_args s @ fr\<rparr>))
      | ASignal \<Rightarrow>
          map_option (\<lambda>s'. (Tau, set_caller j AUnlock s')) (signal_not_empty w s)
      | AUnlock \<Rightarrow>
          if lock s = Some (HA j) then Some (Tau, unlock (set_caller j AIdle s))
          else Some (Tau, set_caller j AFault s)
      | AFault \<Rightarrow> None)"

text \<open>
  The loop of \<open>adjust_thread\<close> that adds threads, over the slots \<open>i\<close> still to visit.
  \<open>alive\<close> is \<open>is_thread_alive\<close>, the answer of \<open>pthread_kill\<close>; \<open>n\<close> is the number
  of threads created so far, which gives the next identifier.
\<close>

definition is_thread_alive :: "(tid \<Rightarrow> bool) \<Rightarrow> tid \<Rightarrow> bool" where
  "is_thread_alive no_such_thread t = (if no_such_thread t then False else True)"

fun grow_loop :: "(tid \<Rightarrow> bool) \<Rightarrow> nat list \<Rightarrow> int \<Rightarrow> threadpool_t \<Rightarrow> nat \<Rightarrow> threadpool_t \<times> nat" where
  "grow_loop esrch [] add p n = (p, n)"
| "grow_loop esrch (i # is) add p n =
     (if add < DEFAULT_THREAD_VARY \<and> live_thr_num p < max_thr_num p
      then if threads p ! i = 0 \<or> \<not> is_thread_alive esrch (threads p ! i)
           then grow_loop esrch is (add + 1)
                  (p\<lparr>threads := (threads p)[i := Suc n], live_thr_num := live_thr_num p + 1\<rparr>)
                  (Suc n)
           else grow_loop esrch is add p n
      else (p, n))"

text \<open>One step of \<open>adjust_thread\<close>.\<close>

definition adjust_thread :: "(tid \<Rightarrow> bool) \<Rightarrow> nat \<Rightarrow> tp_sys \<Rightarrow> tp_sys option" where
  "adjust_thread esrch w s =
     (let p = pool s in
      case manager s of
        MTest \<Rightarrow> Some (s\<lparr>manager := if \<not> shutdown p then MRead1 else MExit\<rparr>)
      | MRead1 \<Rightarrow>
          if lock s = None then Some (s\<lparr>manager := MRead2 (queue_size p) (live_thr_num p)\<rparr>)
          else None
      | MRead2 qs lv \<Rightarrow> Some (s\<lparr>manager := MDecide qs lv (busy_thr_num p)\<rparr>)
      | MDecide qs lv b \<Rightarrow>
          Some (s\<lparr>manager := if qs \<ge> MIN_WAIT_TASK_NUM \<and> lv < max_thr_num p
                            then MGrow lv b else MShrink lv b\<rparr>)
      | MGrow lv b \<Rightarrow>
          if lock s = None
          then (let n = length (workers s);
                    (p', n') = grow_loop esrch [0..<nat (max_thr_num p)] 0 p n
                in Some (s\<lparr>pool := p', workers := workers s @ replicate (n' - n) WLock,
                           manager := MShrink lv b\<rparr>))
          else None
      | MShrink lv b \<Rightarrow>
          Some (s\<lparr>manager := if b * 2 < lv \<and> lv > min_thr_num p then MReap else MTest\<rparr>)
      | MReap \<Rightarrow>
          if lock s = None
          then Some (s\<lparr>pool := p\<lparr>wait_exit_thr_num := DEFAULT_THREAD_VARY\<rparr>,
                       manager := MSignal (nat DEFAULT_THREAD_VARY)\<rparr>)
          else None
      | MSignal 0 \<Rightarrow> Some (s\<lparr>manager := MTest\<rparr>)
      | MSignal (Suc k) \<Rightarrow>
          map_option (\<lambda>s'. s'\<lparr>manager := MSignal k\<rparr>) (signal_not_empty w s)
      | MExit \<Rightarrow> None)"

text \<open>
  One step of \<open>threadpool_destroy\<close>. Line 291 (\<open>pthread_join(pool_)\<close>, an undeclared
  name and a missing argument) is not C and has no counterpart.
\<close>

definition threadpool_destroy :: "tp_sys \<Rightarrow> tp_sys option" where
  "threadpool_destroy s =
     (let p = pool s in
      case destroyer s of
        DIdle \<Rightarrow> None
      | DSet \<Rightarrow> Some (s\<lparr>pool := p\<lparr>shutdown := True\<rparr>, destroyer := DJoinManager\<rparr>)
      | DJoinManager \<Rightarrow> if manager s = MExit then Some (s\<lparr>destroyer := DBroadcast\<rparr>) else None
      | DBroadcast \<Rightarrow>
          Some (s\<lparr>workers := map wake_worker (workers s), destroyer := DLoop 0\<rparr>)
      | DLoop i \<Rightarrow>
          Some (s\<lparr>destroyer := if int i < live_thr_num p then DJoin i else DFree\<rparr>)
      | DJoin i \<Rightarrow>
          (let t = threads p ! i in
           if 0 < t \<and> t \<le> length (workers s)
           then if workers s ! (t - 1) = WExit then Some (s\<lparr>destroyer := DLoop (Suc i)\<rparr>) else None
           else Some (s\<lparr>destroyer := DFault\<rparr>))
      | DFree \<Rightarrow> Some (s\<lparr>released := True, destroyer := DDone\<rparr>)
      | DDone \<Rightarrow> None
      | DFault \<Rightarrow> None)"

section \<open>The system\<close>

inductive tp_step :: "tp_sys \<Rightarrow> tp_event \<Rightarrow> tp_sys \<Rightarrow> bool" where
  worker: "i < length (workers s) \<Longrightarrow> threadpool_thread i s = Some (e, t) \<Longrightarrow> tp_step s e t"
| call_add: "j < length (callers s) \<Longrightarrow> callers s ! j = AIdle \<Longrightarrow>
     tp_step s Tau (set_caller j (ALock f a) s)"
| caller: "j < length (callers s) \<Longrightarrow> threadpool_add j w s = Some (e, t) \<Longrightarrow> tp_step s e t"
| manage: "adjust_thread esrch w s = Some t \<Longrightarrow> tp_step s Tau t"
| call_destroy: "destroyer s = DIdle \<Longrightarrow> tp_step s Tau (s\<lparr>destroyer := DSet\<rparr>)"
| destroy: "threadpool_destroy s = Some t \<Longrightarrow> tp_step s Tau t"
| spurious_worker: "i < length (workers s) \<Longrightarrow> workers s ! i = WBlocked \<Longrightarrow>
     tp_step s Tau (set_worker i WRelock s)"
| spurious_caller: "j < length (callers s) \<Longrightarrow> callers s ! j = ABlocked f a \<Longrightarrow>
     tp_step s Tau (set_caller j (ARelock f a) s)"

text \<open>The system that \<open>threadpool_create\<close> starts, with \<open>nc\<close> threads that may call it.\<close>

definition start_system :: "threadpool_t \<Rightarrow> nat \<Rightarrow> tp_sys" where
  "start_system p nc =
     \<lparr>pool = p, lock = None, workers = replicate (nat (live_thr_num p)) WLock,
      callers = replicate nc AIdle, manager = MTest, destroyer = DIdle,
      freed_args = [], released = False\<rparr>"

end
