(* ===== verification/ThreadPoolSafety.thy ===== *)
theory ThreadPoolSafety
  imports ThreadPoolThreads
begin

text \<open>
  Invariants of the running pool: the ones that hold in every reachable state (indices,
  number of live threads, number of busy threads) and the ones that hold until
  \<open>threadpool_destroy\<close> sets \<open>shutdown\<close> (mutual exclusion, shape of the queue, the
  live count), and their consequences for the tasks.
\<close>

section \<open>Invariants\<close>

fun worker_locked :: "worker_pc \<Rightarrow> bool" where
  "worker_locked WLoop = True"
| "worker_locked WWoken = True"
| "worker_locked WShut = True"
| "worker_locked WFetch = True"
| "worker_locked _ = False"

fun worker_busy :: "worker_pc \<Rightarrow> bool" where
  "worker_busy (WRun t) = True"
| "worker_busy WEnd = True"
| "worker_busy _ = False"

fun caller_locked :: "caller_pc \<Rightarrow> bool" where
  "caller_locked (ALoop f a) = True"
| "caller_locked (AShut f a) = True"
| "caller_locked (APut f a) = True"
| "caller_locked ASignal = True"
| "caller_locked AUnlock = True"
| "caller_locked _ = False"

fun caller_storing :: "caller_pc \<Rightarrow> bool" where
  "caller_storing (AShut f a) = True"
| "caller_storing (APut f a) = True"
| "caller_storing _ = False"

text \<open>What every reachable state satisfies.\<close>

definition base_inv :: "tp_sys \<Rightarrow> bool" where
  "base_inv s \<longleftrightarrow>
     (let p = pool s in
      int (length (task_queue p)) = queue_max_size p \<and> 0 < queue_max_size p
      \<and> 0 \<le> queue_front p \<and> queue_front p < queue_max_size p
      \<and> 0 \<le> queue_rear p \<and> queue_rear p < queue_max_size p
      \<and> min_thr_num p \<le> live_thr_num p \<and> live_thr_num p \<le> max_thr_num p
      \<and> busy_thr_num p = count_if worker_busy (workers s))"

text \<open>Who holds \<open>lock\<close>.\<close>

fun worker_of :: "holder option \<Rightarrow> nat option" where
  "worker_of (Some (HW i)) = Some i"
| "worker_of _ = None"

fun caller_of :: "holder option \<Rightarrow> nat option" where
  "caller_of (Some (HA j)) = Some j"
| "caller_of _ = None"

definition lock_inv :: "tp_sys \<Rightarrow> bool" where
  "lock_inv s \<longleftrightarrow>
     inside worker_locked (workers s) (worker_of (lock s))
     \<and> inside caller_locked (callers s) (caller_of (lock s))
     \<and> (\<forall>i. lock s = Some (HW i) \<longrightarrow> i < length (workers s))
     \<and> AFault \<notin> set (callers s)"

text \<open>What a thread inside the critical section knows of the queue.\<close>

definition queue_inv :: "tp_sys \<Rightarrow> bool" where
  "queue_inv s \<longleftrightarrow>
     ring_ok (pool s)
     \<and> (\<forall>i < length (workers s).
          workers s ! i = WShut \<or> workers s ! i = WFetch \<longrightarrow> 0 < queue_size (pool s))
     \<and> (\<forall>j < length (callers s).
          caller_storing (callers s ! j) \<longrightarrow> queue_size (pool s) < queue_max_size (pool s))"

definition live_inv :: "tp_sys \<Rightarrow> bool" where
  "live_inv s \<longleftrightarrow> live_thr_num (pool s) = count_if (\<lambda>pc. pc \<noteq> WExit) (workers s)"

text \<open>What every state satisfies before the pool is shut down.\<close>

definition open_inv :: "tp_sys \<Rightarrow> bool" where
  "open_inv s \<longleftrightarrow>
     base_inv s \<and> lock_inv s \<and> queue_inv s \<and> live_inv s \<and> \<not> shutdown (pool s)"

section \<open>Every step keeps the base invariant\<close>

lemmas worker_step_defs =
  threadpool_thread_def Let_def dequeue_task_def
lemmas caller_step_defs =
  threadpool_add_def Let_def enqueue_task_def signal_not_empty_def
lemmas manager_step_defs =
  adjust_thread_def Let_def signal_not_empty_def

lemmas pc_splits =
  worker_pc.splits caller_pc.splits manager_pc.splits destroyer_pc.splits

lemma count_wake_worker:
  "count_if worker_busy (map wake_worker ws) = count_if worker_busy ws"
  "count_if (\<lambda>pc. pc \<noteq> WExit) (map wake_worker ws) = count_if (\<lambda>pc. pc \<noteq> WExit) ws"
  by (auto simp: count_if_map wake_worker_def intro!: count_if_cong)

lemma caller_locked_wake [simp]: "caller_locked (wake_caller pc) = caller_locked pc"
  and caller_storing_wake [simp]: "caller_storing (wake_caller pc) = caller_storing pc"
  and wake_caller_AFault [simp]: "AFault = wake_caller pc \<longleftrightarrow> pc = AFault"
  by (cases pc; simp)+

lemma worker_locked_wake [simp]: "worker_locked (wake_worker pc) = worker_locked pc"
  by (cases pc) (simp_all add: wake_worker_def)

lemma base_worker:
  assumes "base_inv s" "i < length (workers s)" "threadpool_thread i s = Some (e, t)"
  shows "base_inv t"
  using assms
  by (cases "workers s ! i")
    (auto simp: base_inv_def worker_step_defs count_if_update split: if_splits)

lemma base_caller:
  assumes "base_inv s" "threadpool_add j w s = Some (e, t)"
  shows "base_inv t"
  using assms
  by (cases "callers s ! j")
    (auto simp: base_inv_def caller_step_defs count_if_update split: if_splits)

text \<open>The growth loop.\<close>

lemma grow_loop_props:
  assumes "grow_loop esrch is add p n = (p', n')" "live_thr_num p \<le> max_thr_num p"
  shows "n \<le> n' \<and> live_thr_num p' = live_thr_num p + int (n' - n)
    \<and> live_thr_num p' \<le> max_thr_num p
    \<and> task_queue p' = task_queue p \<and> min_thr_num p' = min_thr_num p
    \<and> max_thr_num p' = max_thr_num p \<and> busy_thr_num p' = busy_thr_num p
    \<and> queue_front p' = queue_front p \<and> queue_rear p' = queue_rear p
    \<and> queue_size p' = queue_size p \<and> queue_max_size p' = queue_max_size p
    \<and> shutdown p' = shutdown p \<and> length (threads p') = length (threads p)"
  using assms
proof (induction esrch "is" add p n rule: grow_loop.induct)
  case (2 esrch i "is" add p n)
  then show ?case by (auto split: if_splits)
qed simp

lemma base_manager:
  assumes "base_inv s" "adjust_thread esrch w s = Some t"
  shows "base_inv t"
proof (cases "manager s")
  case (MGrow lv b)
  obtain p' n' where g: "grow_loop esrch [0..<nat (max_thr_num (pool s))] 0 (pool s)
      (length (workers s)) = (p', n')" by fastforce
  have "live_thr_num (pool s) \<le> max_thr_num (pool s)"
    using assms(1) by (simp add: base_inv_def Let_def)
  from grow_loop_props [OF g this] show ?thesis
    using assms MGrow g by (auto simp: base_inv_def manager_step_defs split: if_splits)
next
  case (MSignal k)
  then show ?thesis using assms
    by (cases k) (auto simp: base_inv_def manager_step_defs count_if_update split: if_splits)
qed (use assms in \<open>auto simp: base_inv_def manager_step_defs split: if_splits\<close>)

lemma base_destroyer:
  assumes "base_inv s" "threadpool_destroy s = Some t"
  shows "base_inv t"
  using assms
  by (cases "destroyer s")
    (auto simp: base_inv_def threadpool_destroy_def Let_def count_wake_worker split: if_splits)

lemma base_step: "tp_step s e t \<Longrightarrow> base_inv s \<Longrightarrow> base_inv t"
proof (induction rule: tp_step.induct)
  case (worker i s e t)
  then show ?case by (blast intro: base_worker)
next
  case (caller j s w e t)
  then show ?case by (blast intro: base_caller)
next
  case (manage esrch w s t)
  then show ?case by (blast intro: base_manager)
next
  case (destroy s t)
  then show ?case by (blast intro: base_destroyer)
qed (simp_all add: base_inv_def Let_def count_if_update)

interpretation tp_base: inductive_invariant tp_step base_inv
  by unfold_locales (blast intro: base_step)

section \<open>Every step before the shutdown keeps the lock and queue invariants\<close>

lemma worker_of_Some [simp]: "worker_of h = Some i \<longleftrightarrow> h = Some (HW i)"
  by (cases h rule: worker_of.cases) auto

lemma caller_of_Some [simp]: "caller_of h = Some j \<longleftrightarrow> h = Some (HA j)"
  by (cases h rule: caller_of.cases) auto

lemma lock_workerD:
  "lock_inv s \<Longrightarrow> i < length (workers s) \<Longrightarrow> worker_locked (workers s ! i) \<Longrightarrow>
    lock s = Some (HW i)"
  unfolding lock_inv_def using insideD by fastforce

lemma lock_callerD:
  "lock_inv s \<Longrightarrow> j < length (callers s) \<Longrightarrow> caller_locked (callers s ! j) \<Longrightarrow>
    lock s = Some (HA j)"
  unfolding lock_inv_def using insideD by fastforce

lemma lock_worker:
  assumes "lock_inv s" "i < length (workers s)" "threadpool_thread i s = Some (e, t)"
  shows "lock_inv t"
  using assms lock_workerD [OF assms(1,2)]
  by (cases "workers s ! i")
    (auto simp: lock_inv_def worker_step_defs inside_map image_iff split: if_splits)

lemma lock_signal:
  "lock_inv s \<Longrightarrow> signal_not_empty w s = Some t \<Longrightarrow> lock_inv t"
  by (auto simp: lock_inv_def signal_not_empty_def split: if_splits)

lemma signal_frame:
  "signal_not_empty w s = Some t \<Longrightarrow>
    pool t = pool s \<and> lock t = lock s \<and> callers t = callers s \<and> manager t = manager s
    \<and> length (workers t) = length (workers s)
    \<and> (workers t = workers s \<or> workers s ! w = WBlocked \<and> workers t = (workers s)[w := WRelock])"
  by (auto simp: signal_not_empty_def split: if_splits)

lemma lock_caller:
  assumes "lock_inv s" "\<not> shutdown (pool s)" "j < length (callers s)"
    "threadpool_add j w s = Some (e, t)"
  shows "lock_inv t"
proof (cases "callers s ! j")
  case ASignal
  with assms obtain s' where s': "signal_not_empty w s = Some s'" and t: "t = set_caller j AUnlock s'"
    by (auto simp: threadpool_add_def Let_def)
  have "lock_inv s'" using assms(1) s' by (rule lock_signal)
  moreover have "callers s' = callers s" using signal_frame [OF s'] by simp
  ultimately show ?thesis using t ASignal assms(3)
    by (auto simp: lock_inv_def dest!: in_set_list_update)
qed (use assms lock_callerD [OF assms(1,3)] in \<open>auto simp: lock_inv_def caller_step_defs
      dest!: in_set_list_update split: if_splits\<close>)

lemma lock_manager:
  assumes "lock_inv s" "adjust_thread esrch w s = Some t"
  shows "lock_inv t"
proof (cases "manager s")
  case (MSignal k)
  show ?thesis
  proof (cases k)
    case 0
    with assms MSignal show ?thesis by (auto simp: lock_inv_def adjust_thread_def Let_def)
  next
    case (Suc m)
    with assms MSignal obtain s' where "signal_not_empty w s = Some s'" "t = s'\<lparr>manager := MSignal m\<rparr>"
      by (auto simp: adjust_thread_def Let_def)
    then show ?thesis using lock_signal [OF assms(1)] by (simp add: lock_inv_def)
  qed
qed (use assms in \<open>auto simp: lock_inv_def adjust_thread_def Let_def intro!: inside_append
      split: if_splits prod.splits\<close>)

lemma lock_destroyer:
  assumes "lock_inv s" "threadpool_destroy s = Some t"
  shows "lock_inv t"
  using assms
  by (cases "destroyer s")
    (auto simp: lock_inv_def threadpool_destroy_def Let_def inside_map split: if_splits)

lemma lock_step:
  "tp_step s e t \<Longrightarrow> lock_inv s \<Longrightarrow> \<not> shutdown (pool s) \<Longrightarrow> lock_inv t"
proof (induction rule: tp_step.induct)
  case (worker i s e t)
  then show ?case by (blast intro: lock_worker)
next
  case (call_add j s f a)
  then show ?case by (auto simp: lock_inv_def dest!: in_set_list_update)
next
  case (caller j s w e t)
  then show ?case by (blast intro: lock_caller)
next
  case (manage esrch w s t)
  then show ?case by (blast intro: lock_manager)
next
  case (destroy s t)
  then show ?case by (blast intro: lock_destroyer)
next
  case (spurious_caller j s f a)
  then show ?case by (auto simp: lock_inv_def dest!: in_set_list_update)
qed (simp_all add: lock_inv_def)

text \<open>
  The queue changes only in the hands of the lock holder, so what a thread in the critical
  section knows of it stays true. Away from the holder's own step the counters of the other
  threads are outside the critical section.
\<close>

lemma others_outside:
  assumes "lock_inv s" "lock s = Some (HW i)"
  shows "\<And>k. k < length (workers s) \<Longrightarrow> k \<noteq> i \<Longrightarrow> \<not> worker_locked (workers s ! k)"
    and "\<And>j. j < length (callers s) \<Longrightarrow> \<not> caller_locked (callers s ! j)"
  using assms by (auto simp: lock_inv_def inside_def)

lemma others_outside_caller:
  assumes "lock_inv s" "lock s = Some (HA j)"
  shows "\<And>i. i < length (workers s) \<Longrightarrow> \<not> worker_locked (workers s ! i)"
    and "\<And>k. k < length (callers s) \<Longrightarrow> k \<noteq> j \<Longrightarrow> \<not> caller_locked (callers s ! k)"
  using assms by (auto simp: lock_inv_def inside_def)

lemma storing_locked: "caller_storing pc \<Longrightarrow> caller_locked pc"
  by (cases pc) auto

lemma queue_inv_upd_worker:
  "queue_inv s \<Longrightarrow> pc \<noteq> WShut \<Longrightarrow> pc \<noteq> WFetch \<Longrightarrow> queue_inv (set_worker i pc s)"
  by (cases "i < length (workers s)")
    (auto simp: queue_inv_def nth_list_update list_update_beyond)

lemma queue_inv_upd_caller:
  "queue_inv s \<Longrightarrow> \<not> caller_storing pc \<Longrightarrow> queue_inv (set_caller j pc s)"
  by (cases "j < length (callers s)")
    (auto simp: queue_inv_def nth_list_update list_update_beyond)

lemma queue_worker:
  assumes inv: "queue_inv s" "lock_inv s" and op: "\<not> shutdown (pool s)"
    and i: "i < length (workers s)" and st: "threadpool_thread i s = Some (e, t)"
  shows "queue_inv t"
proof (cases "workers s ! i")
  case WFetch
  have l: "lock s = Some (HW i)" using lock_workerD [OF inv(2) i] WFetch by simp
  have ne: "0 < queue_size (pool s)" "ring_ok (pool s)"
    using inv(1) i WFetch by (auto simp: queue_inv_def)
  have "\<not> caller_storing (callers s ! j)" if "j < length (callers s)" for j
    using others_outside(2) [OF inv(2) l that] storing_locked by blast
  moreover have "workers s ! k \<noteq> WShut \<and> workers s ! k \<noteq> WFetch"
    if "k < length (workers s)" "k \<noteq> i" for k
    using others_outside(1) [OF inv(2) l that] by auto
  ultimately show ?thesis
    using st WFetch i ring_ok_dequeue [OF ne(2,1)]
    by (auto simp: threadpool_thread_def Let_def queue_inv_def nth_list_update
        split: prod.splits if_splits)
next
  case WLoop
  then show ?thesis using assms
    by (auto simp: threadpool_thread_def Let_def queue_inv_def nth_list_update ring_ok_def
        split: if_splits)
qed (use assms in \<open>auto simp: threadpool_thread_def Let_def queue_inv_def nth_list_update
      ring_ok_def split: if_splits\<close>)

lemma queue_caller:
  assumes inv: "queue_inv s" "lock_inv s" and op: "\<not> shutdown (pool s)"
    and j: "j < length (callers s)" and st: "threadpool_add j w s = Some (e, t)"
  shows "queue_inv t"
proof (cases "callers s ! j")
  case (APut f a)
  have l: "lock s = Some (HA j)" using lock_callerD [OF inv(2) j] APut by simp
  have room: "ring_ok (pool s)" "queue_size (pool s) < queue_max_size (pool s)"
    using inv(1) j APut by (auto simp: queue_inv_def)
  have "\<not> caller_storing (callers s ! k)" if "k < length (callers s)" "k \<noteq> j" for k
    using others_outside_caller(2) [OF inv(2) l that] storing_locked by blast
  moreover have "workers s ! i \<noteq> WShut \<and> workers s ! i \<noteq> WFetch"
    if "i < length (workers s)" for i
    using others_outside_caller(1) [OF inv(2) l that] by auto
  ultimately show ?thesis
    using st APut j ring_ok_enqueue [OF room, of f a]
    by (auto simp: threadpool_add_def Let_def queue_inv_def nth_list_update
        split: prod.splits if_splits)
next
  case ASignal
  with st obtain s' where s': "signal_not_empty w s = Some s'" and t: "t = set_caller j AUnlock s'"
    by (auto simp: threadpool_add_def Let_def)
  have "queue_inv s'"
    using s' inv(1) queue_inv_upd_worker by (auto simp: signal_not_empty_def split: if_splits)
  then show ?thesis using t by (simp add: queue_inv_upd_caller)
qed (use assms in \<open>auto simp: threadpool_add_def Let_def queue_inv_def nth_list_update
      ring_ok_def split: if_splits\<close>)

lemma ring_ok_frame:
  "task_queue q = task_queue p \<Longrightarrow> queue_front q = queue_front p \<Longrightarrow>
    queue_rear q = queue_rear p \<Longrightarrow> queue_size q = queue_size p \<Longrightarrow>
    queue_max_size q = queue_max_size p \<Longrightarrow> ring_ok q = ring_ok p \<and> queued q = queued p"
  by (simp add: ring_ok_def queued_def)

lemma queue_manager:
  assumes "queue_inv s" "base_inv s" "adjust_thread esrch w s = Some t"
  shows "queue_inv t \<and> queued (pool t) = queued (pool s)"
proof (cases "manager s")
  case (MGrow lv b)
  obtain p' n' where g: "grow_loop esrch [0..<nat (max_thr_num (pool s))] 0 (pool s)
      (length (workers s)) = (p', n')" by fastforce
  have "live_thr_num (pool s) \<le> max_thr_num (pool s)"
    using assms(2) by (simp add: base_inv_def Let_def)
  from grow_loop_props [OF g this] show ?thesis
    using assms MGrow g ring_ok_frame [of p' "pool s"]
    by (auto simp: queue_inv_def adjust_thread_def Let_def nth_append split: if_splits)
next
  case (MSignal k)
  show ?thesis
  proof (cases k)
    case 0
    with assms MSignal show ?thesis by (auto simp: queue_inv_def adjust_thread_def Let_def)
  next
    case (Suc m)
    with assms MSignal obtain s' where s': "signal_not_empty w s = Some s'"
      and t: "t = s'\<lparr>manager := MSignal m\<rparr>"
      by (auto simp: adjust_thread_def Let_def)
    have "queue_inv s'"
      using s' assms(1) queue_inv_upd_worker by (auto simp: signal_not_empty_def split: if_splits)
    then show ?thesis using t signal_frame [OF s'] by (simp add: queue_inv_def)
  qed
next
  case MReap
  then show ?thesis using assms ring_ok_frame [of "pool t" "pool s"]
    by (auto simp: queue_inv_def adjust_thread_def Let_def split: if_splits)
qed (use assms in \<open>auto simp: queue_inv_def adjust_thread_def Let_def split: if_splits\<close>)

lemma queue_destroyer:
  assumes "queue_inv s" "threadpool_destroy s = Some t"
  shows "queue_inv t \<and> queued (pool t) = queued (pool s)"
  using assms
  by (cases "destroyer s")
    (auto simp: queue_inv_def threadpool_destroy_def Let_def wake_worker_def ring_ok_def
      queued_def split: if_splits)

lemma live_worker:
  assumes "live_inv s" "\<not> shutdown (pool s)" "i < length (workers s)"
    "threadpool_thread i s = Some (e, t)"
  shows "live_inv t"
  using assms
  by (cases "workers s ! i")
    (auto simp: live_inv_def worker_step_defs count_if_update split: if_splits)

lemma live_caller:
  assumes "live_inv s" "threadpool_add j w s = Some (e, t)"
  shows "live_inv t"
  using assms
  by (cases "callers s ! j")
    (auto simp: live_inv_def caller_step_defs count_if_update split: if_splits)

lemma live_manager:
  assumes "live_inv s" "base_inv s" "adjust_thread esrch w s = Some t"
  shows "live_inv t"
proof (cases "manager s")
  case (MGrow lv b)
  obtain p' n' where g: "grow_loop esrch [0..<nat (max_thr_num (pool s))] 0 (pool s)
      (length (workers s)) = (p', n')" by fastforce
  have "live_thr_num (pool s) \<le> max_thr_num (pool s)"
    using assms(2) by (simp add: base_inv_def Let_def)
  from grow_loop_props [OF g this] show ?thesis
    using assms MGrow g by (auto simp: live_inv_def adjust_thread_def Let_def split: if_splits)
next
  case (MSignal k)
  then show ?thesis using assms
    by (cases k) (auto simp: live_inv_def manager_step_defs count_if_update split: if_splits)
qed (use assms in \<open>auto simp: live_inv_def adjust_thread_def Let_def split: if_splits\<close>)

lemma live_destroyer:
  assumes "live_inv s" "threadpool_destroy s = Some t"
  shows "live_inv t"
  using assms
  by (cases "destroyer s")
    (auto simp: live_inv_def threadpool_destroy_def Let_def count_wake_worker split: if_splits)

text \<open>\<open>shutdown\<close> is set once and never cleared.\<close>

lemma shutdown_stays: "tp_step s e t \<Longrightarrow> shutdown (pool s) \<Longrightarrow> shutdown (pool t)"
proof (induction rule: tp_step.induct)
  case (worker i s e t)
  then show ?case
    by (cases "workers s ! i") (auto simp: worker_step_defs split: if_splits)
next
  case (caller j s w e t)
  then show ?case
    by (cases "callers s ! j") (auto simp: caller_step_defs split: if_splits)
next
  case (manage esrch w s t)
  obtain p' n' where g: "grow_loop esrch [0..<nat (max_thr_num (pool s))] 0 (pool s)
      (length (workers s)) = (p', n')" by fastforce
  have sh: "shutdown p' = shutdown p" if "grow_loop esrch is a p n = (p', n')" for "is" a p n
    using that by (induction esrch "is" a p n rule: grow_loop.induct) (auto split: if_splits)
  show ?case
  proof (cases "manager s")
    case (MSignal k)
    with manage show ?thesis by (cases k) (auto simp: manager_step_defs split: if_splits)
  qed (use manage g sh [OF g] in \<open>auto simp: adjust_thread_def Let_def split: if_splits\<close>)
next
  case (destroy s t)
  then show ?case
    by (cases "destroyer s") (auto simp: threadpool_destroy_def Let_def split: if_splits)
qed simp_all

lemma queue_step:
  "tp_step s e t \<Longrightarrow> queue_inv s \<Longrightarrow> lock_inv s \<Longrightarrow> base_inv s \<Longrightarrow> \<not> shutdown (pool s) \<Longrightarrow>
    queue_inv t"
proof (induction rule: tp_step.induct)
  case (worker i s e t)
  then show ?case by (blast intro: queue_worker)
next
  case (caller j s w e t)
  then show ?case by (blast intro: queue_caller)
next
  case (manage esrch w s t)
  then show ?case by (blast dest: queue_manager)
next
  case (destroy s t)
  then show ?case by (blast dest: queue_destroyer)
next
  case (call_destroy s)
  then show ?case by (simp add: queue_inv_def)
qed (simp_all add: queue_inv_upd_worker queue_inv_upd_caller)

lemma live_step:
  "tp_step s e t \<Longrightarrow> live_inv s \<Longrightarrow> base_inv s \<Longrightarrow> \<not> shutdown (pool s) \<Longrightarrow> live_inv t"
proof (induction rule: tp_step.induct)
  case (worker i s e t)
  then show ?case by (blast intro: live_worker)
next
  case (caller j s w e t)
  then show ?case by (blast intro: live_caller)
next
  case (manage esrch w s t)
  then show ?case by (blast intro: live_manager)
next
  case (destroy s t)
  then show ?case by (blast intro: live_destroyer)
qed (simp_all add: live_inv_def count_if_update)

lemma open_step:
  "open_inv s \<Longrightarrow> tp_step s e t \<Longrightarrow> \<not> shutdown (pool t) \<Longrightarrow> open_inv t"
  unfolding open_inv_def using base_step lock_step queue_step live_step by blast

section \<open>Conservation of tasks\<close>

fun added_by :: "tp_event \<Rightarrow> threadpool_task_t list" where
  "added_by (Added t) = [t]"
| "added_by _ = []"

fun taken_by :: "tp_event \<Rightarrow> threadpool_task_t list" where
  "taken_by (Taken t) = [t]"
| "taken_by _ = []"

definition tasks_added :: "tp_event list \<Rightarrow> threadpool_task_t list" where
  "tasks_added es = concat (map added_by es)"

definition tasks_taken :: "tp_event list \<Rightarrow> threadpool_task_t list" where
  "tasks_taken es = concat (map taken_by es)"

lemma flow_worker:
  assumes "queue_inv s" "i < length (workers s)" "threadpool_thread i s = Some (e, t)"
  shows "taken_by e @ queued (pool t) = queued (pool s) @ added_by e"
proof (cases "workers s ! i")
  case WFetch
  then have "0 < queue_size (pool s)" "ring_ok (pool s)"
    using assms(1,2) by (auto simp: queue_inv_def)
  then show ?thesis
    using assms(3) WFetch queued_dequeue [of "pool s"]
    by (auto simp: threadpool_thread_def Let_def split: prod.splits)
qed (use assms in \<open>auto simp: threadpool_thread_def Let_def queued_def split: if_splits\<close>)

lemma flow_caller:
  assumes "queue_inv s" "j < length (callers s)" "threadpool_add j w s = Some (e, t)"
  shows "taken_by e @ queued (pool t) = queued (pool s) @ added_by e"
proof (cases "callers s ! j")
  case (APut f a)
  then have "ring_ok (pool s)" "queue_size (pool s) < queue_max_size (pool s)"
    using assms(1,2) by (auto simp: queue_inv_def)
  then show ?thesis
    using assms(3) APut queued_enqueue [of "pool s" f a]
    by (auto simp: threadpool_add_def Let_def split: prod.splits)
next
  case ASignal
  then show ?thesis using assms signal_frame
    by (auto simp: threadpool_add_def Let_def)
qed (use assms in \<open>auto simp: threadpool_add_def Let_def split: if_splits\<close>)

lemma flow_step:
  "tp_step s e t \<Longrightarrow> queue_inv s \<Longrightarrow> base_inv s \<Longrightarrow>
    taken_by e @ queued (pool t) = queued (pool s) @ added_by e"
proof (induction rule: tp_step.induct)
  case (worker i s e t)
  then show ?case by (blast intro: flow_worker)
next
  case (caller j s w e t)
  then show ?case by (blast intro: flow_caller)
next
  case (manage esrch w s t)
  then show ?case using queue_manager by force
next
  case (destroy s t)
  then show ?case using queue_destroyer by force
qed simp_all

definition open_tp_step :: "tp_sys \<Rightarrow> tp_event \<Rightarrow> tp_sys \<Rightarrow> bool" where
  "open_tp_step s e t \<longleftrightarrow> tp_step s e t \<and> \<not> shutdown (pool t)"

interpretation tp_open: conserving_system open_tp_step open_inv added_by taken_by
    "\<lambda>s. queued (pool s)"
proof
  fix s e t
  assume inv: "open_inv s" and st: "open_tp_step s e t"
  then show "open_inv t" by (auto simp: open_tp_step_def intro: open_step)
  from inv st show "taken_by e @ queued (pool t) = queued (pool s) @ added_by e"
    by (auto simp: open_tp_step_def open_inv_def intro: flow_step)
qed

lemma runs_open:
  "runs tp_step s es t \<Longrightarrow> \<not> shutdown (pool t) \<Longrightarrow> runs open_tp_step s es t"
proof (induction rule: runs.induct)
  case (snoc s es t e u)
  then have "\<not> shutdown (pool t)" using shutdown_stays by blast
  with snoc show ?case by (auto simp: open_tp_step_def intro: runs.snoc)
qed (rule runs.refl)

section \<open>The states the pool can reach\<close>

definition pool_config :: "create_env \<Rightarrow> int \<Rightarrow> int \<Rightarrow> int \<Rightarrow> bool" where
  "pool_config e mn mx q \<longleftrightarrow> 0 \<le> mn \<and> mn \<le> mx \<and> 0 < q \<and> int (length (raw_tasks e)) = q"

definition tp_start :: "create_env \<Rightarrow> int \<Rightarrow> int \<Rightarrow> int \<Rightarrow> nat \<Rightarrow> tp_sys" where
  "tp_start e mn mx q nc = start_system (created_pool e mn mx q) nc"

lemma start_base: "pool_config e mn mx q \<Longrightarrow> base_inv (tp_start e mn mx q nc)"
  by (simp add: pool_config_def tp_start_def start_system_def base_inv_def created_pool_def)

lemma start_open: "pool_config e mn mx q \<Longrightarrow> open_inv (tp_start e mn mx q nc)"
  using start_base [of e mn mx q nc]
  by (auto simp: open_inv_def pool_config_def tp_start_def start_system_def created_pool_def
      lock_inv_def queue_inv_def live_inv_def ring_ok_def inside_replicate)

lemma reach_base:
  "pool_config e mn mx q \<Longrightarrow> runs tp_step (tp_start e mn mx q nc) es s \<Longrightarrow> base_inv s"
  using tp_base.run_preserves start_base by blast

lemma reach_open:
  "pool_config e mn mx q \<Longrightarrow> runs tp_step (tp_start e mn mx q nc) es s \<Longrightarrow>
    \<not> shutdown (pool s) \<Longrightarrow> open_inv s"
  using tp_open.run_preserves start_open runs_open by blast

end
