(* ===== verification/ThreadPoolRuns.thy ===== *)
theory ThreadPoolRuns
  imports ThreadPoolSafety
begin

text \<open>
  Concrete runs of the pool: schedules that an executable scheduler follows, so that the
  kernel can evaluate the state they lead to.
\<close>

datatype tp_move =
    Wk nat                    \<comment> \<open>a worker\<close>
  | Call nat nat ptr          \<comment> \<open>a caller enters \<open>threadpool_add\<close>\<close>
  | Cl nat nat                \<comment> \<open>a caller, with the waiter its signal wakes\<close>
  | Mg nat                    \<comment> \<open>the manager, with the waiter its signal wakes\<close>
  | CallD                     \<comment> \<open>\<open>threadpool_destroy\<close> is called\<close>
  | Ds                        \<comment> \<open>the destroyer\<close>

text \<open>Here \<open>pthread_kill\<close> answers \<open>ESRCH\<close> for identifiers of ended or unknown threads.\<close>

definition ended_tid :: "tp_sys \<Rightarrow> tid \<Rightarrow> bool" where
  "ended_tid s t = (t = 0 \<or> length (workers s) < t \<or> workers s ! (t - 1) = WExit)"

fun tp_exec :: "tp_move \<Rightarrow> tp_sys \<Rightarrow> (tp_event \<times> tp_sys) option" where
  "tp_exec (Wk i) s = (if i < length (workers s) then threadpool_thread i s else None)"
| "tp_exec (Call j f a) s =
     (if j < length (callers s) \<and> callers s ! j = AIdle
      then Some (Tau, set_caller j (ALock f a) s) else None)"
| "tp_exec (Cl j w) s = (if j < length (callers s) then threadpool_add j w s else None)"
| "tp_exec (Mg w) s = map_option (\<lambda>t. (Tau, t)) (adjust_thread (ended_tid s) w s)"
| "tp_exec CallD s =
     (if destroyer s = DIdle then Some (Tau, s\<lparr>destroyer := DSet\<rparr>) else None)"
| "tp_exec Ds s = map_option (\<lambda>t. (Tau, t)) (threadpool_destroy s)"

lemma tp_exec_step: "tp_exec m s = Some (e, t) \<Longrightarrow> tp_step s e t"
  by (cases m) (auto intro: tp_step.intros split: if_splits)

text \<open>A predicate on the outcome of a schedule, and what it says of the runs.\<close>

definition outcome :: "tp_move list \<Rightarrow> tp_sys \<Rightarrow> (tp_event list \<Rightarrow> tp_sys \<Rightarrow> bool) \<Rightarrow> bool" where
  "outcome ms s P = (case follow tp_exec ms s of None \<Rightarrow> False | Some (es, t) \<Rightarrow> P es t)"

lemma outcome_runs: "outcome ms s P \<Longrightarrow> \<exists>es t. runs tp_step s es t \<and> P es t"
  unfolding outcome_def
  by (auto split: option.splits intro: follow_runs tp_exec_step)

text \<open>An environment in which every allocation succeeds and returns zeroed memory.\<close>

definition zeroed_env :: "int \<Rightarrow> int \<Rightarrow> create_env" where
  "zeroed_env mx q =
     \<lparr>a_pool = 100, a_threads = 200, a_queue = 300, raw_task_queue = 0, raw_wait_exit = 0,
      raw_tids = replicate (nat mx) 0, raw_tasks = replicate (nat q) \<lparr>fn = 0, arg = 0\<rparr>,
      ok_lock = True, ok_counter = True, ok_not_empty = True, ok_not_full = True\<rparr>"

definition add_call :: "nat \<Rightarrow> ptr \<Rightarrow> nat \<Rightarrow> tp_move list" where
  "add_call f a w = [Call 0 f a, Cl 0 0, Cl 0 0, Cl 0 0, Cl 0 0, Cl 0 w, Cl 0 0]"

definition serve_call :: "nat \<Rightarrow> tp_move list" where
  "serve_call i = [Wk i, Wk i, Wk i, Wk i, Wk i, Wk i, Wk i]"

text \<open>Two tasks are added and one is served.\<close>

definition demo_moves :: "tp_move list" where
  "demo_moves = add_call 1 11 0 @ add_call 2 12 0 @ serve_call 0"

lemma demo_outcome:
  "outcome demo_moves (tp_start (zeroed_env 2 2) 1 2 2 1)
     (\<lambda>es s. \<not> shutdown (pool s) \<and> tasks_taken es = [\<lparr>fn = 1, arg = 11\<rparr>]
        \<and> queued (pool s) = [\<lparr>fn = 2, arg = 12\<rparr>] \<and> lock s = None)"
  by code_simp

text \<open>
  The pool grows to two workers, the manager asks for ten exits while no worker waits,
  and one more task is added once both workers wait.
\<close>

definition lost_moves :: "tp_move list" where
  "lost_moves =
     concat (map (\<lambda>k. add_call 1 k 0) [1..<11])
     @ replicate 6 (Mg 0)
     @ concat (replicate 10 (serve_call 0))
     @ replicate 17 (Mg 0)
     @ [Wk 0, Wk 0, Wk 1, Wk 1]
     @ add_call 1 11 0
     @ [Wk 0, Wk 0]"

lemma lost_outcome:
  "outcome lost_moves (tp_start (zeroed_env 2 10) 1 2 10 1)
     (\<lambda>es s. \<not> shutdown (pool s) \<and> queued (pool s) = [\<lparr>fn = 1, arg = 11\<rparr>]
        \<and> workers s = [WExit, WBlocked] \<and> callers s = [AIdle] \<and> manager s = MTest
        \<and> lock s = None \<and> live_thr_num (pool s) = 1 \<and> min_thr_num (pool s) = 1)"
  by code_simp

end
