(* ===== verification/ThreadPoolProps.thy ===== *)
theory ThreadPoolProps
  imports ThreadPoolRuns
begin

text \<open>
  What the thread pool of \<open>thread/thread_pool/thread_pool.c\<close> guarantees, and where it
  fails: theorems over every run of the system that \<open>threadpool_create\<close> starts, each with
  a concrete run as its witness.
\<close>

section \<open>Tasks are served in order, none lost and none twice\<close>

text \<open>C1: until the pool is shut down, in every run with any number of callers and workers
  and any interleaving, the tasks the workers have taken, followed by the tasks still in
  the queue, are exactly the tasks that were added, in the order in which they were
  added.\<close>

theorem tp_fifo:
  assumes "pool_config e mn mx q"
    and "runs tp_step (tp_start e mn mx q nc) es s"
    and "\<not> shutdown (pool s)"
  shows "tasks_taken es @ queued (pool s) = tasks_added es"
proof -
  have "queued (pool (tp_start e mn mx q nc)) = []"
    by (simp add: tp_start_def start_system_def created_pool_def queued_def)
  with tp_open.run_conserves [OF runs_open [OF assms(2,3)] start_open [OF assms(1)]]
  show ?thesis by (simp add: tasks_taken_def tasks_added_def)
qed

lemma demo_config: "pool_config (zeroed_env 2 2) 1 2 2"
  by (simp add: pool_config_def zeroed_env_def)

theorem tp_fifo_witness:
  "\<exists>es s. runs tp_step (tp_start (zeroed_env 2 2) 1 2 2 1) es s
     \<and> tasks_added es = [\<lparr>fn = 1, arg = 11\<rparr>, \<lparr>fn = 2, arg = 12\<rparr>]"
proof -
  obtain es s where r: "runs tp_step (tp_start (zeroed_env 2 2) 1 2 2 1) es s"
    and ns: "\<not> shutdown (pool s)" and t: "tasks_taken es = [\<lparr>fn = 1, arg = 11\<rparr>]"
    and q: "queued (pool s) = [\<lparr>fn = 2, arg = 12\<rparr>]"
    using outcome_runs [OF demo_outcome] by blast
  from tp_fifo [OF demo_config r ns] t q show ?thesis using r by auto
qed

section \<open>Mutual exclusion\<close>

text \<open>C2: until the pool is shut down, at most one thread is inside the critical section of
  \<open>lock\<close>, whether a worker or a caller of \<open>threadpool_add\<close>, and it is the one that
  holds the mutex; no caller ever unlocks a mutex it does not own.\<close>

theorem tp_mutual_exclusion:
  assumes "pool_config e mn mx q"
    and "runs tp_step (tp_start e mn mx q nc) es s"
    and "\<not> shutdown (pool s)"
  shows "(\<forall>i < length (workers s). worker_locked (workers s ! i) \<longleftrightarrow> lock s = Some (HW i))
    \<and> (\<forall>j < length (callers s). caller_locked (callers s ! j) \<longleftrightarrow> lock s = Some (HA j))
    \<and> AFault \<notin> set (callers s)"
  using reach_open [OF assms] by (auto simp: open_inv_def lock_inv_def inside_def)

theorem tp_mutual_exclusion_witness:
  "\<exists>es s. runs tp_step (tp_start (zeroed_env 2 2) 1 2 2 1) es s
     \<and> tasks_taken es = [\<lparr>fn = 1, arg = 11\<rparr>] \<and> AFault \<notin> set (callers s)"
proof -
  obtain es s where r: "runs tp_step (tp_start (zeroed_env 2 2) 1 2 2 1) es s"
    and ns: "\<not> shutdown (pool s)" and t: "tasks_taken es = [\<lparr>fn = 1, arg = 11\<rparr>]"
    using outcome_runs [OF demo_outcome] by blast
  from tp_mutual_exclusion [OF demo_config r ns] r t show ?thesis by blast
qed

section \<open>Counters and indices\<close>



text \<open>Until the pool is shut down \<open>live_thr_num\<close> is exactly the number of workers that
  have not ended, so at least the configured minimum of workers is running; the number of
  queued tasks stays within the capacity; a worker takes a task only from a non-empty
  queue and a caller stores one only into a queue with room.\<close>

theorem tp_sizes:
  assumes "pool_config e mn mx q"
    and "runs tp_step (tp_start e mn mx q nc) es s"
    and "\<not> shutdown (pool s)"
  shows "live_thr_num (pool s) = count_if (\<lambda>pc. pc \<noteq> WExit) (workers s)
    \<and> min_thr_num (pool s) \<le> count_if (\<lambda>pc. pc \<noteq> WExit) (workers s)
    \<and> 0 \<le> queue_size (pool s) \<and> queue_size (pool s) \<le> queue_max_size (pool s)
    \<and> (\<forall>i < length (workers s). workers s ! i = WFetch \<longrightarrow> 0 < queue_size (pool s))
    \<and> (\<forall>j < length (callers s). \<forall>f a. callers s ! j = APut f a \<longrightarrow>
          queue_size (pool s) < queue_max_size (pool s))"
  using reach_open [OF assms] reach_base [OF assms(1,2)]
  by (auto simp: open_inv_def base_inv_def live_inv_def queue_inv_def ring_ok_def Let_def)

theorem tp_sizes_witness:
  "\<exists>es s. runs tp_step (tp_start (zeroed_env 2 2) 1 2 2 1) es s
     \<and> length (queued (pool s)) = 1 \<and> queue_size (pool s) \<le> queue_max_size (pool s)"
proof -
  obtain es s where r: "runs tp_step (tp_start (zeroed_env 2 2) 1 2 2 1) es s"
    and ns: "\<not> shutdown (pool s)" and q: "queued (pool s) = [\<lparr>fn = 2, arg = 12\<rparr>]"
    using outcome_runs [OF demo_outcome] by blast
  from tp_sizes [OF demo_config r ns] r q show ?thesis
    by (intro exI [of _ es] exI [of _ s]) simp
qed

section \<open>The queue alone\<close>

text \<open>A queue with free slots accepts any list of tasks that fits and gives it back in
  the same order, wherever its front stands in the circular array.\<close>

theorem queue_roundtrip:
  assumes "ring_ok p" "queued p = []" "int (length ts) \<le> queue_max_size p"
  shows "fst (drain dequeue_task (length ts) (fold put_task ts p)) = ts"
  using tq.fill_and_drain [of p ts] assms by linarith

theorem queue_roundtrip_witness:
  "fst (drain dequeue_task (length [\<lparr>fn = 1, arg = 11\<rparr>, \<lparr>fn = 2, arg = 12\<rparr>])
      (fold put_task [\<lparr>fn = 1, arg = 11\<rparr>, \<lparr>fn = 2, arg = 12\<rparr>]
        ((created_pool (zeroed_env 2 2) 1 2 2)\<lparr>queue_front := 1, queue_rear := 1\<rparr>)))
    = [\<lparr>fn = 1, arg = 11\<rparr>, \<lparr>fn = 2, arg = 12\<rparr>]"
proof -
  let ?p = "(created_pool (zeroed_env 2 2) 1 2 2)\<lparr>queue_front := 1, queue_rear := 1\<rparr>"
  have "ring_ok ?p" "queued ?p = []" "queue_max_size ?p = 2"
    by (simp_all add: ring_ok_def created_pool_def zeroed_env_def queued_def)
  then show ?thesis
    by (intro queue_roundtrip) simp_all
qed

section \<open>Creation and release\<close>

text \<open>A successful \<open>threadpool_create\<close> initialises both mutexes and both condition
  variables before it starts the first thread, starts exactly \<open>min_thr_num\<close> workers and
  then one manager, and returns an empty queue of the requested capacity.\<close>

theorem create_order:
  assumes "threadpool_create env mn mx q = (cs, Some p)" "0 < q" "int (length (raw_tasks env)) = q"
  shows "\<exists>inits. cs = inits @ map CreateWorker [0..<nat mn] @ [CreateManager]
     \<and> set inits = {MutexInit M_lock, MutexInit M_thread_counter,
                    CondInit C_queue_not_empty, CondInit C_queue_not_full}
     \<and> distinct inits \<and> ring_ok p \<and> queued p = [] \<and> live_thr_num p = mn
     \<and> queue_max_size p = q \<and> \<not> shutdown p"
proof -
  have "p = created_pool env mn mx q"
    using assms(1) by (auto simp: create_defs split: if_splits bool.splits)
  moreover have "ring_ok (created_pool env mn mx q)" "queued (created_pool env mn mx q) = []"
    using created_ring_ok assms(2,3) by blast+
  moreover have "cs = fst (pool_inits env) @ map CreateWorker [0..<nat mn] @ [CreateManager]"
    and "snd (pool_inits env)"
    using assms(1) by (auto simp: threadpool_create_def split: if_splits prod.splits bool.splits)
  ultimately show ?thesis
    by (intro exI [of _ "fst (pool_inits env)"])
      (auto simp: pool_inits_def created_pool_def split: if_splits)
qed

theorem create_order_witness:
  "\<exists>cs p. threadpool_create (zeroed_env 100 100) 3 100 100 = (cs, Some p) \<and> queued p = []
     \<and> live_thr_num p = 3"
proof -
  define r where "r = threadpool_create (zeroed_env 100 100) 3 100 100"
  have "snd r \<noteq> None"
    by (simp add: r_def threadpool_create_def pool_inits_def zeroed_env_def)
  then obtain cs p where c: "threadpool_create (zeroed_env 100 100) 3 100 100 = (cs, Some p)"
    by (metis option.exhaust prod.collapse r_def)
  have "queued p = [] \<and> live_thr_num p = 3"
    using create_order [OF c] by (auto simp: zeroed_env_def)
  with c show ?thesis by blast
qed

text \<open>A failing \<open>threadpool_create\<close> frees exactly the blocks that were allocated, each
  once, provided the field \<open>task_queue\<close> of the fresh structure happens to be \<open>NULL\<close>.\<close>

theorem create_failure_frees:
  assumes "threadpool_create env mn mx q = (cs, None)"
    and "raw_task_queue env = NULL"
  shows "freed_by cs =
    (if a_pool env = NULL then []
     else if a_threads env = NULL then [a_pool env]
     else if a_queue env = NULL then [a_threads env, a_pool env]
     else [a_queue env, a_threads env, a_pool env])"
  using assms by (auto simp: create_defs split: if_splits bool.splits)

theorem create_failure_frees_witness:
  "freed_by (fst (threadpool_create ((zeroed_env 2 2)\<lparr>a_queue := 0\<rparr>) 1 2 2)) = [200, 100]"
proof -
  let ?e = "(zeroed_env 2 2)\<lparr>a_queue := 0\<rparr>"
  obtain cs where c: "threadpool_create ?e 1 2 2 = (cs, None)"
    by (simp add: threadpool_create_def zeroed_env_def)
  have "raw_task_queue ?e = NULL" by (simp add: zeroed_env_def)
  from create_failure_frees [OF c this] c show ?thesis by (simp add: zeroed_env_def)
qed

text \<open>Without that proviso it does not hold: when the allocation of the thread array
  fails, \<open>threadpool_free\<close> passes the indeterminate field \<open>task_queue\<close> to \<open>free\<close>.\<close>

theorem create_failure_frees_garbage:
  "freed_by (fst (threadpool_create
      ((zeroed_env 2 2)\<lparr>a_threads := 0, raw_task_queue := 77\<rparr>) 1 2 2)) = [77, 100]"
  by (simp add: create_defs zeroed_env_def)

section \<open>Where the pool fails\<close>

text \<open>A task argument can be freed while the task runs: \<open>threadpool_add\<close> frees the
  argument left in the slot it reuses, and a worker that took that task may still be in its
  callback. No shutdown is involved.\<close>

theorem argument_freed_while_running:
  "\<exists>es s. runs tp_step (tp_start (zeroed_env 1 1) 1 1 1 1) es s \<and> \<not> shutdown (pool s)
     \<and> workers s ! 0 = WRun \<lparr>fn = 1, arg = 11\<rparr> \<and> 11 \<in> set (freed_args s)"
proof -
  have "outcome (add_call 1 11 0 @ [Wk 0, Wk 0, Wk 0, Wk 0, Wk 0]
        @ [Call 0 1 12, Cl 0 0, Cl 0 0, Cl 0 0, Cl 0 0]) (tp_start (zeroed_env 1 1) 1 1 1 1)
      (\<lambda>es s. \<not> shutdown (pool s) \<and> workers s ! 0 = WRun \<lparr>fn = 1, arg = 11\<rparr>
        \<and> 11 \<in> set (freed_args s))"
    by code_simp
  from outcome_runs [OF this] show ?thesis by simp
qed

text \<open>A caller that finds the pool shut down unlocks the mutex but goes on: it stores
  the task without the lock, so a full queue overflows (two tasks in a queue of capacity
  one, the first one overwritten and its argument freed), and then it unlocks a mutex it
  does not own.\<close>

theorem add_after_shutdown_overflows:
  "\<exists>es s. runs tp_step (tp_start (zeroed_env 1 1) 1 1 1 1) es s
     \<and> queue_size (pool s) = 2 \<and> queue_max_size (pool s) = 1
     \<and> tasks_added es = [\<lparr>fn = 1, arg = 11\<rparr>, \<lparr>fn = 1, arg = 12\<rparr>] \<and> tasks_taken es = []
     \<and> freed_args s = [11] \<and> callers s = [AFault]"
proof -
  have "outcome (add_call 1 11 0 @ [CallD, Ds] @ add_call 1 12 0)
      (tp_start (zeroed_env 1 1) 1 1 1 1)
      (\<lambda>es s. queue_size (pool s) = 2 \<and> queue_max_size (pool s) = 1
        \<and> tasks_added es = [\<lparr>fn = 1, arg = 11\<rparr>, \<lparr>fn = 1, arg = 12\<rparr>] \<and> tasks_taken es = []
        \<and> freed_args s = [11] \<and> callers s = [AFault])"
    by code_simp
  from outcome_runs [OF this] show ?thesis by auto
qed

text \<open>A wake-up can be lost: \<open>wait_exit_thr_num\<close> left over from an earlier request of
  the manager makes the worker that a new task wakes end itself instead of serving the
  task, so the task stays queued while every live worker waits, no thread is on its way to
  signal, and the manager sees no reason to act.\<close>

theorem wakeup_lost:
  "\<exists>es s. runs tp_step (tp_start (zeroed_env 2 10) 1 2 10 1) es s \<and> \<not> shutdown (pool s)
     \<and> queued (pool s) = [\<lparr>fn = 1, arg = 11\<rparr>] \<and> workers s = [WExit, WBlocked]
     \<and> callers s = [AIdle] \<and> lock s = None \<and> manager s = MTest
     \<and> live_thr_num (pool s) = min_thr_num (pool s)"
proof -
  obtain es s where r: "runs tp_step (tp_start (zeroed_env 2 10) 1 2 10 1) es s"
    and f: "\<not> shutdown (pool s)" "queued (pool s) = [\<lparr>fn = 1, arg = 11\<rparr>]"
      "workers s = [WExit, WBlocked]" "callers s = [AIdle]" "manager s = MTest"
      "lock s = None" "live_thr_num (pool s) = 1" "min_thr_num (pool s) = 1"
    using outcome_runs [OF lost_outcome] by blast
  from r f show ?thesis by (intro exI [of _ es] exI [of _ s]) simp
qed

text \<open>\<open>threadpool_destroy\<close> can free the pool while a worker still runs on it: it joins
  the first \<open>live_thr_num\<close> entries of the thread array, and these need not be the live
  workers.\<close>

theorem destroy_frees_under_live_worker:
  "\<exists>es s. runs tp_step (tp_start (zeroed_env 2 10) 1 2 10 1) es s
     \<and> released s \<and> workers s = [WExit, WRelock]"
proof -
  have "outcome (lost_moves @ [CallD, Ds, Mg 0, Ds, Ds, Ds, Ds, Ds, Ds])
      (tp_start (zeroed_env 2 10) 1 2 10 1)
      (\<lambda>es s. released s \<and> workers s = [WExit, WRelock])"
    by code_simp
  from outcome_runs [OF this] show ?thesis by auto
qed

end
