(* ===== verification/MyThreadPool.thy ===== *)
theory MyThreadPool
  imports Ring
begin

text \<open>
  The thread pool of \<open>thread/mythreadpool/thread_pool.c\<close> and \<open>thread_pool.h\<close>: structure,
  creation, workers (\<open>threadpool_runtask\<close>), callers (\<open>threadpool_addtask\<close>), manager
  (\<open>threadpool_manage\<close>) and destroyer. The thread that creates the pool is part of the
  system, because it starts the other threads before it initialises the mutexes they use.
\<close>

section \<open>Data\<close>

record threadpool_task =
  func :: nat
  arg :: ptr

text \<open>\<open>shutdown\<close> is an \<open>int\<close>: the code compares it with 0 and with 1.\<close>

record threadpool =
  taskqueue :: "threadpool_task list"
  threads_ID :: "tid list"
  min_thread_num :: int
  max_thread_num :: int
  cur_thread_num :: int
  cur_work_num :: int
  wait_exit_thread_num :: int
  taskqueue_front :: int
  taskqueue_tail :: int
  taskqueue_cur_size :: int
  taskqueue_max_size :: int
  shutdown :: int

definition DERAULT_ADD_DEL_THREAD :: nat where "DERAULT_ADD_DEL_THREAD = 4"

text \<open>
  The structure as \<open>threadpool_create\<close> fills it before it starts threads; the fields it
  has not written yet (\<open>shutdown\<close>) or never writes (\<open>wait_exit_thread_num\<close>) hold what
  \<open>malloc\<close> left there.
\<close>

definition fresh_pool :: "int \<Rightarrow> int \<Rightarrow> int \<Rightarrow> int \<Rightarrow> int \<Rightarrow> threadpool" where
  "fresh_pool raw_shutdown raw_wait mn mx q =
     \<lparr>taskqueue = replicate (nat q) \<lparr>func = 0, arg = NULL\<rparr>,
      threads_ID = replicate (nat mx) 0,
      min_thread_num = mn, max_thread_num = mx, cur_thread_num = mn, cur_work_num = 0,
      wait_exit_thread_num = raw_wait, taskqueue_front = 0, taskqueue_tail = 0,
      taskqueue_cur_size = 0, taskqueue_max_size = q, shutdown = raw_shutdown\<rparr>"

text \<open>
  Storing and fetching a task. The code writes \<open>x = ++x % n\<close> for both indices, two
  unsequenced writes of one object in C; the model is the value every compiler the
  repository targets gives it. Storing does not change \<open>taskqueue_cur_size\<close>.
\<close>

definition store_task :: "threadpool_task \<Rightarrow> threadpool \<Rightarrow> threadpool" where
  "store_task t p =
     p\<lparr>taskqueue := (taskqueue p)[nat (taskqueue_tail p) := t],
       taskqueue_tail := c_rem (taskqueue_tail p + 1) (taskqueue_max_size p)\<rparr>"

definition fetch_task :: "threadpool \<Rightarrow> threadpool_task \<times> threadpool" where
  "fetch_task p =
     (taskqueue p ! nat (taskqueue_front p),
      p\<lparr>taskqueue_front := c_rem (taskqueue_front p + 1) (taskqueue_max_size p),
        taskqueue_cur_size := taskqueue_cur_size p - 1\<rparr>)"

section \<open>Threads\<close>

datatype creator_pc =
    KWork nat                      \<comment> \<open>46: starts worker \<open>i\<close>\<close>
  | KManager                       \<comment> \<open>50\<close>
  | KInitLock                      \<comment> \<open>53\<close>
  | KInitWork                      \<comment> \<open>54\<close>
  | KInitEmpty                     \<comment> \<open>56\<close>
  | KInitFull                      \<comment> \<open>57\<close>
  | KShutdown                      \<comment> \<open>59\<close>
  | KDone

datatype worker_pc =
    WLock                          \<comment> \<open>93\<close>
  | WTest                          \<comment> \<open>94, lock held\<close>
  | WLoop                          \<comment> \<open>95, lock held\<close>
  | WBlocked                       \<comment> \<open>96: waiting on \<open>taskqueue_full\<close>\<close>
  | WRelock                        \<comment> \<open>96: woken\<close>
  | WWoken                         \<comment> \<open>98, lock held\<close>
  | WFetch                         \<comment> \<open>112, lock held\<close>
  | WSignal threadpool_task        \<comment> \<open>116\<close>
  | WStart threadpool_task         \<comment> \<open>122\<close>
  | WRun threadpool_task           \<comment> \<open>126\<close>
  | WEnd                           \<comment> \<open>128\<close>
  | WExit
  | WFault                         \<comment> \<open>used a mutex before its initialisation: undefined\<close>

datatype caller_pc =
    AIdle
  | ALock threadpool_task          \<comment> \<open>69\<close>
  | ALoop threadpool_task          \<comment> \<open>70, lock held\<close>
  | ABlocked threadpool_task       \<comment> \<open>71: waiting on \<open>taskqueue_empty\<close>\<close>
  | ARelock threadpool_task        \<comment> \<open>71: woken\<close>
  | APut threadpool_task           \<comment> \<open>73, lock held\<close>
  | ASignal                        \<comment> \<open>84\<close>

datatype manager_pc =
    MNone                          \<comment> \<open>not started yet\<close>
  | MLock                          \<comment> \<open>140\<close>
  | MTest                          \<comment> \<open>141, lock held\<close>
  | MDecide                        \<comment> \<open>147, lock held\<close>
  | MGrow int nat nat              \<comment> \<open>153: \<open>cur_num\<close>, \<open>accumulate\<close>, \<open>i\<close>; lock released\<close>
  | MRelock int nat                \<comment> \<open>161\<close>
  | MSignal nat                    \<comment> \<open>169: signals still to send\<close>
  | MExit
  | MFault                         \<comment> \<open>mutex not initialised, or array index out of range\<close>

datatype destroyer_pc =
    DIdle
  | DLock                          \<comment> \<open>179\<close>
  | DSet                           \<comment> \<open>180, lock held\<close>
  | DJoinManager int               \<comment> \<open>184\<close>
  | DLoop int nat                  \<comment> \<open>185\<close>
  | DJoin int nat                  \<comment> \<open>187\<close>
  | DDone

datatype holder = HW nat | HA nat | HM | HD

record mtp_sys =
  pool :: threadpool
  lock :: "holder option"
  lock_ready :: bool
  creator :: creator_pc
  workers :: "worker_pc list"
  callers :: "caller_pc list"
  manager :: manager_pc
  destroyer :: destroyer_pc

datatype mtp_event = Tau | Added threadpool_task | Taken threadpool_task | Ran threadpool_task

abbreviation set_worker :: "nat \<Rightarrow> worker_pc \<Rightarrow> mtp_sys \<Rightarrow> mtp_sys" where
  "set_worker i pc s \<equiv> s\<lparr>workers := (workers s)[i := pc]\<rparr>"

abbreviation set_caller :: "nat \<Rightarrow> caller_pc \<Rightarrow> mtp_sys \<Rightarrow> mtp_sys" where
  "set_caller j pc s \<equiv> s\<lparr>callers := (callers s)[j := pc]\<rparr>"

abbreviation unlock :: "mtp_sys \<Rightarrow> mtp_sys" where
  "unlock s \<equiv> s\<lparr>lock := None\<rparr>"

text \<open>\<open>pthread_cond_signal\<close> on \<open>taskqueue_full\<close>, waking the worker \<open>w\<close> if it waits.\<close>

definition signal_full :: "nat \<Rightarrow> mtp_sys \<Rightarrow> mtp_sys option" where
  "signal_full w s =
     (if w < length (workers s) \<and> workers s ! w = WBlocked then Some (set_worker w WRelock s)
      else if WBlocked \<in> set (workers s) then None
      else Some s)"

fun is_waiting :: "caller_pc \<Rightarrow> bool" where
  "is_waiting (ABlocked t) = True"
| "is_waiting _ = False"

fun wake_caller :: "caller_pc \<Rightarrow> caller_pc" where
  "wake_caller (ABlocked t) = ARelock t"
| "wake_caller pc = pc"

text \<open>\<open>pthread_cond_signal\<close> on \<open>taskqueue_empty\<close>, waking the caller \<open>w\<close> if it waits.\<close>

definition signal_empty :: "nat \<Rightarrow> mtp_sys \<Rightarrow> mtp_sys option" where
  "signal_empty w s =
     (if w < length (callers s) \<and> is_waiting (callers s ! w)
      then Some (set_caller w (wake_caller (callers s ! w)) s)
      else if list_ex is_waiting (callers s) then None
      else Some s)"

definition wake_worker :: "worker_pc \<Rightarrow> worker_pc" where
  "wake_worker pc = (if pc = WBlocked then WRelock else pc)"

text \<open>The thread inside \<open>threadpool_create\<close>, from the first \<open>pthread_create\<close> on.\<close>

definition threadpool_create :: "mtp_sys \<Rightarrow> mtp_sys option" where
  "threadpool_create s =
     (let p = pool s in
      case creator s of
        KWork i \<Rightarrow>
          if int i < min_thread_num p
          then Some (s\<lparr>pool := p\<lparr>threads_ID := (threads_ID p)[i := Suc (length (workers s))]\<rparr>,
                       workers := workers s @ [WLock], creator := KWork (Suc i)\<rparr>)
          else Some (s\<lparr>creator := KManager\<rparr>)
      | KManager \<Rightarrow> Some (s\<lparr>manager := MLock, creator := KInitLock\<rparr>)
      | KInitLock \<Rightarrow> Some (s\<lparr>lock_ready := True, lock := None, creator := KInitWork\<rparr>)
      | KInitWork \<Rightarrow> Some (s\<lparr>creator := KInitEmpty\<rparr>)
      | KInitEmpty \<Rightarrow> Some (s\<lparr>creator := KInitFull\<rparr>)
      | KInitFull \<Rightarrow> Some (s\<lparr>creator := KShutdown\<rparr>)
      | KShutdown \<Rightarrow> Some (s\<lparr>pool := p\<lparr>shutdown := 0\<rparr>, creator := KDone\<rparr>)
      | KDone \<Rightarrow> None)"

definition threadpool_runtask :: "nat \<Rightarrow> nat \<Rightarrow> mtp_sys \<Rightarrow> (mtp_event \<times> mtp_sys) option" where
  "threadpool_runtask i w s =
     (let p = pool s in
      case workers s ! i of
        WLock \<Rightarrow>
          if \<not> lock_ready s then Some (Tau, set_worker i WFault s)
          else if lock s = None then Some (Tau, (set_worker i WTest s)\<lparr>lock := Some (HW i)\<rparr>)
          else None
      | WTest \<Rightarrow>
          if shutdown p = 0 then Some (Tau, set_worker i WLoop s)
          else Some (Tau, unlock (set_worker i WExit s))
      | WLoop \<Rightarrow>
          if taskqueue_cur_size p = 0 then Some (Tau, unlock (set_worker i WBlocked s))
          else Some (Tau, set_worker i WFetch s)
      | WBlocked \<Rightarrow> None
      | WRelock \<Rightarrow>
          if lock s = None then Some (Tau, (set_worker i WWoken s)\<lparr>lock := Some (HW i)\<rparr>) else None
      | WWoken \<Rightarrow>
          if shutdown p = 1 then Some (Tau, unlock (set_worker i WExit s))
          else if wait_exit_thread_num p > 0
          then Some (Tau, unlock ((set_worker i WExit s)
                 \<lparr>pool := p\<lparr>wait_exit_thread_num := wait_exit_thread_num p - 1\<rparr>\<rparr>))
          else Some (Tau, set_worker i WLoop s)
      | WFetch \<Rightarrow>
          (let (t, p') = fetch_task p in
           Some (Taken t, unlock ((set_worker i (WSignal t) s)\<lparr>pool := p'\<rparr>)))
      | WSignal t \<Rightarrow> map_option (\<lambda>s'. (Tau, set_worker i (WStart t) s')) (signal_empty w s)
      | WStart t \<Rightarrow>
          Some (Tau, (set_worker i (WRun t) s)\<lparr>pool := p\<lparr>cur_work_num := cur_work_num p + 1\<rparr>\<rparr>)
      | WRun t \<Rightarrow> Some (Ran t, set_worker i WEnd s)
      | WEnd \<Rightarrow>
          Some (Tau, (set_worker i WLock s)\<lparr>pool := p\<lparr>cur_work_num := cur_work_num p - 1\<rparr>\<rparr>)
      | WExit \<Rightarrow> None
      | WFault \<Rightarrow> None)"

definition threadpool_addtask :: "nat \<Rightarrow> nat \<Rightarrow> mtp_sys \<Rightarrow> (mtp_event \<times> mtp_sys) option" where
  "threadpool_addtask j w s =
     (let p = pool s in
      case callers s ! j of
        AIdle \<Rightarrow> None
      | ALock t \<Rightarrow>
          if lock s = None then Some (Tau, (set_caller j (ALoop t) s)\<lparr>lock := Some (HA j)\<rparr>)
          else None
      | ALoop t \<Rightarrow>
          if taskqueue_cur_size p = taskqueue_max_size p \<and> shutdown p = 0
          then Some (Tau, unlock (set_caller j (ABlocked t) s))
          else Some (Tau, set_caller j (APut t) s)
      | ABlocked t \<Rightarrow> None
      | ARelock t \<Rightarrow>
          if lock s = None then Some (Tau, (set_caller j (ALoop t) s)\<lparr>lock := Some (HA j)\<rparr>)
          else None
      | APut t \<Rightarrow>
          if shutdown p = 1 then Some (Tau, unlock (set_caller j AIdle s))
          else Some (Added t, unlock ((set_caller j ASignal s)\<lparr>pool := store_task t p\<rparr>))
      | ASignal \<Rightarrow> map_option (\<lambda>s'. (Tau, set_caller j AIdle s')) (signal_full w s))"

text \<open>
  The manager. When it finds nothing to do, the code returns to the top of the loop
  without unlocking. The growth loop runs its index up to the size of the task queue, not
  of the thread array.
\<close>

definition threadpool_manage :: "nat \<Rightarrow> mtp_sys \<Rightarrow> mtp_sys option" where
  "threadpool_manage w s =
     (let p = pool s in
      case manager s of
        MNone \<Rightarrow> None
      | MLock \<Rightarrow>
          if \<not> lock_ready s then Some (s\<lparr>manager := MFault\<rparr>)
          else if lock s = None then Some (s\<lparr>manager := MTest, lock := Some HM\<rparr>)
          else None
      | MTest \<Rightarrow>
          if shutdown p = 1 then Some (unlock (s\<lparr>manager := MExit\<rparr>))
          else Some (s\<lparr>manager := MDecide\<rparr>)
      | MDecide \<Rightarrow>
          if cur_work_num p = cur_thread_num p \<and> taskqueue_cur_size p > 0
             \<and> cur_thread_num p < max_thread_num p
          then Some (unlock (s\<lparr>manager := MGrow (cur_thread_num p) 0 0\<rparr>))
          else if cur_work_num p * 2 < cur_thread_num p \<and> cur_thread_num p > min_thread_num p
          then Some (unlock (s\<lparr>pool := p\<lparr>wait_exit_thread_num := int DERAULT_ADD_DEL_THREAD\<rparr>,
                               manager := MSignal DERAULT_ADD_DEL_THREAD\<rparr>))
          else Some (s\<lparr>manager := MLock\<rparr>)
      | MGrow cur acc i \<Rightarrow>
          if int i < taskqueue_max_size p \<and> acc < DERAULT_ADD_DEL_THREAD
             \<and> cur + int acc < max_thread_num p
          then if i < length (threads_ID p)
               then if threads_ID p ! i = 0
                    then Some (s\<lparr>pool := p\<lparr>threads_ID :=
                                   (threads_ID p)[i := Suc (length (workers s))]\<rparr>,
                                 workers := workers s @ [WLock],
                                 manager := MGrow cur (Suc acc) (Suc i)\<rparr>)
                    else Some (s\<lparr>manager := MGrow cur acc (Suc i)\<rparr>)
               else Some (s\<lparr>manager := MFault\<rparr>)
          else Some (s\<lparr>manager := MRelock cur acc\<rparr>)
      | MRelock cur acc \<Rightarrow>
          if lock s = None
          then Some (s\<lparr>pool := p\<lparr>cur_thread_num := cur + int acc\<rparr>, manager := MLock\<rparr>)
          else None
      | MSignal 0 \<Rightarrow> Some (s\<lparr>manager := MLock\<rparr>)
      | MSignal (Suc k) \<Rightarrow> map_option (\<lambda>s'. s'\<lparr>manager := MSignal k\<rparr>) (signal_full w s)
      | MExit \<Rightarrow> None
      | MFault \<Rightarrow> None)"

definition threadpool_destroy :: "mtp_sys \<Rightarrow> mtp_sys option" where
  "threadpool_destroy s =
     (let p = pool s in
      case destroyer s of
        DIdle \<Rightarrow> None
      | DLock \<Rightarrow>
          if lock s = None then Some (s\<lparr>destroyer := DSet, lock := Some HD\<rparr>) else None
      | DSet \<Rightarrow>
          Some (unlock (s\<lparr>pool := p\<lparr>shutdown := 1\<rparr>,
                          destroyer := DJoinManager (cur_thread_num p)\<rparr>))
      | DJoinManager n \<Rightarrow> if manager s = MExit then Some (s\<lparr>destroyer := DLoop n 0\<rparr>) else None
      | DLoop n i \<Rightarrow>
          if int i < n
          then Some (s\<lparr>workers := map wake_worker (workers s), destroyer := DJoin n i\<rparr>)
          else Some (s\<lparr>destroyer := DDone\<rparr>)
      | DJoin n i \<Rightarrow>
          if 0 < threads_ID p ! i \<and> threads_ID p ! i \<le> length (workers s)
             \<and> workers s ! (threads_ID p ! i - 1) = WExit
          then Some (s\<lparr>destroyer := DLoop n (Suc i)\<rparr>) else None
      | DDone \<Rightarrow> None)"

section \<open>The system\<close>

text \<open>
  The pool is handed to callers and to the destroyer when \<open>threadpool_create\<close> has
  returned. \<open>threadpool_free\<close> has an empty body.
\<close>

inductive mtp_step :: "mtp_sys \<Rightarrow> mtp_event \<Rightarrow> mtp_sys \<Rightarrow> bool" where
  create: "threadpool_create s = Some t \<Longrightarrow> mtp_step s Tau t"
| worker: "i < length (workers s) \<Longrightarrow> threadpool_runtask i w s = Some (e, t) \<Longrightarrow> mtp_step s e t"
| call_add: "creator s = KDone \<Longrightarrow> j < length (callers s) \<Longrightarrow> callers s ! j = AIdle \<Longrightarrow>
     mtp_step s Tau (set_caller j (ALock t) s)"
| caller: "j < length (callers s) \<Longrightarrow> threadpool_addtask j w s = Some (e, t) \<Longrightarrow> mtp_step s e t"
| manage: "threadpool_manage w s = Some t \<Longrightarrow> mtp_step s Tau t"
| call_destroy: "creator s = KDone \<Longrightarrow> destroyer s = DIdle \<Longrightarrow>
     mtp_step s Tau (s\<lparr>destroyer := DLock\<rparr>)"
| destroy: "threadpool_destroy s = Some t \<Longrightarrow> mtp_step s Tau t"
| spurious_worker: "i < length (workers s) \<Longrightarrow> workers s ! i = WBlocked \<Longrightarrow>
     mtp_step s Tau (set_worker i WRelock s)"
| spurious_caller: "j < length (callers s) \<Longrightarrow> callers s ! j = ABlocked t \<Longrightarrow>
     mtp_step s Tau (set_caller j (ARelock t) s)"

definition mtp_start :: "int \<Rightarrow> int \<Rightarrow> int \<Rightarrow> int \<Rightarrow> int \<Rightarrow> nat \<Rightarrow> mtp_sys" where
  "mtp_start raw_shutdown raw_wait mn mx q nc =
     \<lparr>pool = fresh_pool raw_shutdown raw_wait mn mx q, lock = None, lock_ready = False,
      creator = KWork 0, workers = [], callers = replicate nc AIdle, manager = MNone,
      destroyer = DIdle\<rparr>"

end
