(* ===== verification/MyThreadPoolProps.thy ===== *)
theory MyThreadPoolProps
  imports MyThreadPool
begin

text \<open>
  Invariants of the pool of \<open>thread/mythreadpool\<close> and what they show of it: its lock
  discipline holds, but its queue never counts a task, so no task is ever served, and its
  manager keeps the mutex for ever once it finds nothing to do.
\<close>

section \<open>Invariants\<close>

fun worker_locked :: "worker_pc \<Rightarrow> bool" where
  "worker_locked WTest = True"
| "worker_locked WLoop = True"
| "worker_locked WWoken = True"
| "worker_locked WFetch = True"
| "worker_locked _ = False"

fun worker_idle :: "worker_pc \<Rightarrow> bool" where
  "worker_idle WFetch = False"
| "worker_idle (WSignal t) = False"
| "worker_idle (WStart t) = False"
| "worker_idle (WRun t) = False"
| "worker_idle WEnd = False"
| "worker_idle _ = True"

fun caller_locked :: "caller_pc \<Rightarrow> bool" where
  "caller_locked (ALoop t) = True"
| "caller_locked (APut t) = True"
| "caller_locked _ = False"

definition initialised :: "creator_pc \<Rightarrow> bool" where
  "initialised k = (case k of KWork _ \<Rightarrow> False | KManager \<Rightarrow> False | KInitLock \<Rightarrow> False | _ \<Rightarrow> True)"

fun manager_idle :: "manager_pc \<Rightarrow> bool" where
  "manager_idle (MGrow c a i) = False"
| "manager_idle (MRelock c a) = False"
| "manager_idle (MSignal k) = False"
| "manager_idle _ = True"

fun manager_locked :: "manager_pc \<Rightarrow> bool" where
  "manager_locked MTest = True"
| "manager_locked MDecide = True"
| "manager_locked _ = False"

fun manager_early :: "manager_pc \<Rightarrow> bool" where
  "manager_early MNone = True"
| "manager_early MLock = True"
| "manager_early MFault = True"
| "manager_early _ = False"

fun worker_of :: "holder option \<Rightarrow> nat option" where
  "worker_of (Some (HW i)) = Some i"
| "worker_of _ = None"

fun caller_of :: "holder option \<Rightarrow> nat option" where
  "caller_of (Some (HA j)) = Some j"
| "caller_of _ = None"

lemma mtp_worker_of_Some [simp]: "worker_of h = Some i \<longleftrightarrow> h = Some (HW i)"
  by (cases h rule: worker_of.cases) auto

lemma mtp_caller_of_Some [simp]: "caller_of h = Some j \<longleftrightarrow> h = Some (HA j)"
  by (cases h rule: caller_of.cases) auto

text \<open>Before the mutex is initialised nobody has got past it.\<close>

definition init_inv :: "mtp_sys \<Rightarrow> bool" where
  "init_inv s \<longleftrightarrow>
     (lock_ready s \<longleftrightarrow> initialised (creator s))
     \<and> (\<not> lock_ready s \<longrightarrow> lock s = None
          \<and> list_all (\<lambda>pc. pc = WLock \<or> pc = WFault) (workers s)
          \<and> list_all (\<lambda>pc. pc = AIdle) (callers s)
          \<and> manager_early (manager s) \<and> destroyer s = DIdle)"

text \<open>The lock: who holds it is where the code says.\<close>

definition lock_inv :: "mtp_sys \<Rightarrow> bool" where
  "lock_inv s \<longleftrightarrow>
     inside worker_locked (workers s) (worker_of (lock s))
     \<and> inside caller_locked (callers s) (caller_of (lock s))
     \<and> (\<forall>i. lock s = Some (HW i) \<longrightarrow> i < length (workers s))
     \<and> (manager_locked (manager s) \<longrightarrow> lock s = Some HM)
     \<and> (lock s = Some HM \<longrightarrow> manager_locked (manager s) \<or> manager s = MLock)
     \<and> (destroyer s = DSet \<longleftrightarrow> lock s = Some HD)"

text \<open>The queue: its size is never raised, so nobody ever fetches, grows or shrinks.\<close>

definition idle_inv :: "mtp_sys \<Rightarrow> bool" where
  "idle_inv s \<longleftrightarrow>
     taskqueue_cur_size (pool s) = 0 \<and> cur_work_num (pool s) = 0
     \<and> cur_thread_num (pool s) = min_thread_num (pool s)
     \<and> list_all worker_idle (workers s)
     \<and> manager_idle (manager s)
     \<and> (0 < taskqueue_max_size (pool s) \<longrightarrow> list_all (\<lambda>pc. \<not> is_waiting pc) (callers s))"

lemmas step_defs =
  threadpool_create_def threadpool_runtask_def threadpool_addtask_def threadpool_manage_def
  threadpool_destroy_def signal_full_def signal_empty_def store_task_def fetch_task_def Let_def

lemma mtp_worker_locked_wake [simp]: "worker_locked (wake_worker pc) = worker_locked pc"
  and worker_idle_wake [simp]: "worker_idle (wake_worker pc) = worker_idle pc"
  by (cases pc; simp add: wake_worker_def)+

lemma idle_pcs:
  "worker_idle pc \<longleftrightarrow> pc \<in> {WLock, WTest, WLoop, WBlocked, WRelock, WWoken, WExit, WFault}"
  by (cases pc) auto

section \<open>The idle invariant\<close>

lemma idle_signal: "idle_inv s \<Longrightarrow> signal_full w s = Some t \<Longrightarrow> idle_inv t"
  by (auto simp: idle_inv_def signal_full_def split: if_splits)

lemma idle_worker:
  assumes "idle_inv s" "i < length (workers s)" "threadpool_runtask i w s = Some (e, t)"
  shows "idle_inv t \<and> e = Tau"
proof -
  have "worker_idle (workers s ! i)" using assms by (simp add: idle_inv_def list_all_nth)
  then show ?thesis using assms
    by (cases "workers s ! i")
      (auto simp: idle_inv_def threadpool_runtask_def Let_def split: if_splits)
qed

lemma idle_caller:
  assumes "idle_inv s" "j < length (callers s)" "threadpool_addtask j w s = Some (e, t)"
  shows "idle_inv t"
proof (cases "callers s ! j")
  case ASignal
  then obtain s' where "signal_full w s = Some s'" "t = set_caller j AIdle s'"
    using assms(3) by (auto simp: threadpool_addtask_def Let_def)
  then show ?thesis using idle_signal [OF assms(1)] by (simp add: idle_inv_def)
qed (use assms in \<open>auto simp: idle_inv_def threadpool_addtask_def store_task_def Let_def
      split: if_splits\<close>)

lemma idle_manager:
  assumes "idle_inv s" "threadpool_manage w s = Some t"
  shows "idle_inv t"
  using assms
  by (cases "manager s") (auto simp: idle_inv_def threadpool_manage_def Let_def split: if_splits)

lemma idle_create:
  assumes "idle_inv s" "threadpool_create s = Some t"
  shows "idle_inv t"
  using assms
  by (cases "creator s") (auto simp: idle_inv_def threadpool_create_def Let_def split: if_splits)

lemma idle_destroy:
  assumes "idle_inv s" "threadpool_destroy s = Some t"
  shows "idle_inv t"
  using assms
  by (cases "destroyer s")
    (auto simp: idle_inv_def threadpool_destroy_def Let_def intro!: list_all_map_imp
      split: if_splits)

lemma idle_step: "mtp_step s e t \<Longrightarrow> idle_inv s \<Longrightarrow> idle_inv t"
proof (induction rule: mtp_step.induct)
  case (create s t)
  then show ?case by (blast intro: idle_create)
next
  case (worker i s w e t)
  then show ?case using idle_worker by blast
next
  case (caller j s w e t)
  then show ?case by (blast intro: idle_caller)
next
  case (manage w s t)
  then show ?case by (blast intro: idle_manager)
next
  case (destroy s t)
  then show ?case by (blast intro: idle_destroy)
qed (simp_all add: idle_inv_def)

interpretation mtp_idle: inductive_invariant mtp_step idle_inv
  by unfold_locales (blast intro: idle_step)

lemma idle_not_taken:
  "mtp_step s e t \<Longrightarrow> idle_inv s \<Longrightarrow> (case e of Taken x \<Rightarrow> False | Ran x \<Rightarrow> False | _ \<Rightarrow> True)"
proof (induction rule: mtp_step.induct)
  case (worker i s w e t)
  then show ?case using idle_worker by fastforce
next
  case (caller j s w e t)
  then show ?case
    by (cases "callers s ! j") (auto simp: threadpool_addtask_def Let_def split: if_splits)
qed simp_all

lemma start_idle: "idle_inv (mtp_start rs rw mn mx q nc)"
  by (simp add: idle_inv_def mtp_start_def fresh_pool_def list_all_length)

section \<open>The lock invariant\<close>

lemma signal_full_frame:
  "signal_full w s = Some t \<Longrightarrow>
    t = s \<or> (w < length (workers s) \<and> workers s ! w = WBlocked \<and> t = set_worker w WRelock s)"
  by (auto simp: signal_full_def split: if_splits)

lemma init_worker:
  assumes "init_inv s" "i < length (workers s)" "threadpool_runtask i w s = Some (e, t)"
    "idle_inv s"
  shows "init_inv t"
proof -
  have "worker_idle (workers s ! i)" using assms by (simp add: idle_inv_def list_all_nth)
  moreover have "\<not> lock_ready s \<longrightarrow> workers s ! i = WLock \<or> workers s ! i = WFault"
    using assms(1,2) list_all_nth by (fastforce simp: init_inv_def)
  ultimately show ?thesis using assms(1,3)
    by (cases "workers s ! i")
      (auto simp: init_inv_def threadpool_runtask_def Let_def split: if_splits)
qed

lemma init_caller:
  assumes "init_inv s" "j < length (callers s)" "threadpool_addtask j w s = Some (e, t)"
  shows "init_inv t"
proof -
  have "\<not> lock_ready s \<longrightarrow> callers s ! j = AIdle"
    using assms(1,2) list_all_nth by (fastforce simp: init_inv_def)
  then have "lock_ready s"
    using assms(3) by (auto simp: threadpool_addtask_def Let_def)
  then show ?thesis using assms(1,3)
    by (cases "callers s ! j")
      (auto simp: init_inv_def threadpool_addtask_def signal_full_def Let_def split: if_splits)
qed

lemma init_manager:
  assumes "init_inv s" "threadpool_manage w s = Some t" "idle_inv s"
  shows "init_inv t"
  using assms
  by (cases "manager s")
    (auto simp: init_inv_def idle_inv_def threadpool_manage_def Let_def split: if_splits)

lemma init_create:
  assumes "init_inv s" "threadpool_create s = Some t"
  shows "init_inv t"
  using assms
  by (cases "creator s")
    (auto simp: init_inv_def initialised_def threadpool_create_def Let_def split: if_splits)

lemma init_destroy:
  assumes "init_inv s" "threadpool_destroy s = Some t"
  shows "init_inv t"
  using assms
  by (cases "destroyer s")
    (auto simp: init_inv_def threadpool_destroy_def Let_def split: if_splits)

lemma init_step: "mtp_step s e t \<Longrightarrow> init_inv s \<Longrightarrow> idle_inv s \<Longrightarrow> init_inv t"
proof (induction rule: mtp_step.induct)
  case (create s t)
  then show ?case by (blast intro: init_create)
next
  case (worker i s w e t)
  then show ?case by (blast intro: init_worker)
next
  case (caller j s w e t)
  then show ?case by (blast intro: init_caller)
next
  case (manage w s t)
  then show ?case by (blast intro: init_manager)
next
  case (destroy s t)
  then show ?case by (blast intro: init_destroy)
next
  case (spurious_worker i s)
  then have "lock_ready s" using list_all_nth by (fastforce simp: init_inv_def)
  with spurious_worker show ?case by (simp add: init_inv_def)
next
  case (spurious_caller j s t)
  then have "lock_ready s" using list_all_nth by (fastforce simp: init_inv_def)
  with spurious_caller show ?case by (simp add: init_inv_def)
qed (auto simp: init_inv_def initialised_def)

definition mtp_inv :: "mtp_sys \<Rightarrow> bool" where
  "mtp_inv s \<longleftrightarrow> idle_inv s \<and> init_inv s \<and> lock_inv s"

lemma mtp_lock_workerD:
  "lock_inv s \<Longrightarrow> i < length (workers s) \<Longrightarrow> worker_locked (workers s ! i) \<Longrightarrow>
    lock s = Some (HW i)"
  unfolding lock_inv_def using insideD by fastforce

lemma mtp_lock_callerD:
  "lock_inv s \<Longrightarrow> j < length (callers s) \<Longrightarrow> caller_locked (callers s ! j) \<Longrightarrow>
    lock s = Some (HA j)"
  unfolding lock_inv_def using insideD by fastforce

lemma mtp_lock_worker:
  assumes "lock_inv s" "idle_inv s" "i < length (workers s)"
    "threadpool_runtask i w s = Some (e, t)"
  shows "lock_inv t"
proof -
  have "worker_idle (workers s ! i)" using assms by (simp add: idle_inv_def list_all_nth)
  then show ?thesis using assms(1,3,4) mtp_lock_workerD [OF assms(1,3)]
    by (cases "workers s ! i")
      (auto simp: lock_inv_def threadpool_runtask_def Let_def split: if_splits)
qed

lemma mtp_lock_caller:
  assumes "lock_inv s" "j < length (callers s)" "threadpool_addtask j w s = Some (e, t)"
  shows "lock_inv t"
proof (cases "callers s ! j")
  case ASignal
  then obtain s' where s': "signal_full w s = Some s'" "t = set_caller j AIdle s'"
    using assms(3) by (auto simp: threadpool_addtask_def Let_def)
  from signal_full_frame [OF s'(1)] s'(2) ASignal assms(1,2) show ?thesis
    by (auto simp: lock_inv_def)
qed (use assms mtp_lock_callerD [OF assms(1,2)] in
    \<open>auto simp: lock_inv_def threadpool_addtask_def Let_def split: if_splits\<close>)

lemma mtp_lock_manager:
  assumes "lock_inv s" "idle_inv s" "init_inv s" "threadpool_manage w s = Some t"
  shows "lock_inv t"
proof (cases "manager s")
  case MDecide
  have "lock s = Some HM" using assms(1) MDecide by (simp add: lock_inv_def)
  then show ?thesis using MDecide assms
    by (auto simp: lock_inv_def idle_inv_def threadpool_manage_def Let_def split: if_splits)
qed (use assms in \<open>auto simp: lock_inv_def idle_inv_def init_inv_def threadpool_manage_def
      Let_def split: if_splits\<close>)

lemma lock_inv_frame [simp]:
  "lock_inv (s\<lparr>creator := k\<rparr>) = lock_inv s"
  "lock_inv (s\<lparr>pool := p\<rparr>) = lock_inv s"
  by (simp_all add: lock_inv_def)

lemma lock_create:
  assumes "lock_inv s" "init_inv s" "threadpool_create s = Some t"
  shows "lock_inv t"
proof (cases "creator s")
  case (KWork i)
  have "\<not> lock_ready s" using assms(2) KWork by (simp add: init_inv_def initialised_def)
  then have "lock s = None" using assms(2) by (simp add: init_inv_def)
  then show ?thesis using assms(1,3) KWork
    by (auto simp: lock_inv_def threadpool_create_def Let_def intro!: inside_append
        split: if_splits)
next
  case KManager
  have "\<not> lock_ready s" using assms(2) KManager by (simp add: init_inv_def initialised_def)
  then have "lock s = None" using assms(2) by (simp add: init_inv_def)
  then show ?thesis using assms(1,3) KManager
    by (auto simp: lock_inv_def threadpool_create_def Let_def)
next
  case KInitLock
  have "\<not> lock_ready s" using assms(2) KInitLock by (simp add: init_inv_def initialised_def)
  then have "lock s = None" using assms(2) by (simp add: init_inv_def)
  then show ?thesis using assms(1,3) KInitLock
    by (auto simp: lock_inv_def threadpool_create_def Let_def)
qed (use assms(1,3) in \<open>auto simp: threadpool_create_def Let_def\<close>)

lemma lock_destroy:
  assumes "lock_inv s" "threadpool_destroy s = Some t"
  shows "lock_inv t"
  using assms
  by (cases "destroyer s")
    (auto simp: lock_inv_def threadpool_destroy_def Let_def inside_map split: if_splits)

lemma mtp_lock_step:
  "mtp_step s e t \<Longrightarrow> lock_inv s \<Longrightarrow> idle_inv s \<Longrightarrow> init_inv s \<Longrightarrow> lock_inv t"
proof (induction rule: mtp_step.induct)
  case (create s t)
  then show ?case by (blast intro: lock_create)
next
  case (worker i s w e t)
  then show ?case by (blast intro: mtp_lock_worker)
next
  case (caller j s w e t)
  then show ?case by (blast intro: mtp_lock_caller)
next
  case (manage w s t)
  then show ?case by (blast intro: mtp_lock_manager)
next
  case (destroy s t)
  then show ?case by (blast intro: lock_destroy)
next
  case (call_destroy s)
  then show ?case by (auto simp: lock_inv_def)
qed (simp_all add: lock_inv_def)

interpretation mtp: inductive_invariant mtp_step mtp_inv
  by unfold_locales (auto simp: mtp_inv_def intro: idle_step init_step mtp_lock_step)

lemma start_mtp: "mtp_inv (mtp_start rs rw mn mx q nc)"
  using start_idle [of rs rw mn mx q nc]
  by (auto simp: mtp_inv_def init_inv_def lock_inv_def mtp_start_def initialised_def inside_def
      list_all_length)

lemma reach_mtp: "runs mtp_step (mtp_start rs rw mn mx q nc) es s \<Longrightarrow> mtp_inv s"
  using mtp.run_preserves start_mtp by blast

section \<open>The stuck manager\<close>

text \<open>The manager is about to lock the mutex that it holds itself.\<close>

definition stuck :: "mtp_sys \<Rightarrow> bool" where
  "stuck s \<longleftrightarrow> mtp_inv s \<and> manager s = MLock \<and> lock s = Some HM"

fun added_by :: "mtp_event \<Rightarrow> threadpool_task list" where
  "added_by (Added t) = [t]"
| "added_by _ = []"

fun taken_by :: "mtp_event \<Rightarrow> threadpool_task list" where
  "taken_by (Taken t) = [t]"
| "taken_by _ = []"

definition tasks_added :: "mtp_event list \<Rightarrow> threadpool_task list" where
  "tasks_added es = concat (map added_by es)"

definition tasks_taken :: "mtp_event list \<Rightarrow> threadpool_task list" where
  "tasks_taken es = concat (map taken_by es)"

interpretation mtp_taken: conserving_system mtp_step idle_inv "\<lambda>_. []" taken_by "\<lambda>_. []"
proof
  fix s e t
  assume "idle_inv s" "mtp_step s e t"
  from idle_not_taken [OF this(2,1)] show "taken_by e @ [] = [] @ []" by (cases e) auto
qed

lemma stuck_facts:
  assumes "stuck s"
  shows "lock_ready s" "initialised (creator s)" "destroyer s \<noteq> DSet"
    and "i < length (workers s) \<Longrightarrow> \<not> worker_locked (workers s ! i)"
    and "j < length (callers s) \<Longrightarrow> \<not> caller_locked (callers s ! j)"
  using assms by (auto simp: stuck_def mtp_inv_def init_inv_def lock_inv_def inside_def)

lemma stuck_step: "mtp_step s e t \<Longrightarrow> stuck s \<Longrightarrow> manager t = MLock \<and> lock t = Some HM \<and> added_by e = []"
proof (induction rule: mtp_step.induct)
  case (create s t)
  then show ?case using stuck_facts(2) [OF create.prems]
    by (cases "creator s")
      (auto simp: stuck_def threadpool_create_def Let_def initialised_def split: if_splits)
next
  case (worker i s w e t)
  have "worker_idle (workers s ! i)"
    using worker by (simp add: stuck_def mtp_inv_def idle_inv_def list_all_nth)
  moreover have "\<not> worker_locked (workers s ! i)"
    using stuck_facts(4) [OF worker.prems worker.hyps(1)] .
  ultimately show ?case using worker stuck_facts(1) [OF worker.prems]
    by (cases "workers s ! i") (auto simp: stuck_def threadpool_runtask_def Let_def split: if_splits)
next
  case (caller j s w e t)
  show ?case
  proof (cases "callers s ! j")
    case ASignal
    with caller obtain s' where s': "signal_full w s = Some s'" "t = set_caller j AIdle s'" "e = Tau"
      by (auto simp: threadpool_addtask_def Let_def)
    from signal_full_frame [OF s'(1)] s'(2,3) caller.prems show ?thesis
      by (auto simp: stuck_def)
  qed (use caller stuck_facts(5) [OF caller.prems caller.hyps(1)] in
      \<open>auto simp: stuck_def threadpool_addtask_def Let_def split: if_splits\<close>)
next
  case (manage w s t)
  then show ?case using stuck_facts(1) by (auto simp: stuck_def threadpool_manage_def Let_def)
next
  case (destroy s t)
  then show ?case using stuck_facts(3) [OF destroy.prems]
    by (cases "destroyer s")
      (auto simp: stuck_def threadpool_destroy_def Let_def split: if_splits)
qed (simp_all add: stuck_def)

lemma stuck_preserved: "stuck s \<Longrightarrow> mtp_step s e t \<Longrightarrow> stuck t"
  using stuck_step mtp.preserved by (auto simp: stuck_def)

interpretation mtp_stuck: conserving_system mtp_step stuck added_by "\<lambda>_. []" "\<lambda>_. []"
  by unfold_locales (use stuck_preserved stuck_step in auto)

lemma stuck_for_ever:
  assumes "stuck s" "runs mtp_step s es t"
  shows "stuck t \<and> tasks_added es = []"
proof -
  have none: "concat (map (\<lambda>_. []) es) = ([] :: threadpool_task list)" by simp
  have "tasks_added es = []"
    using mtp_stuck.run_conserves [OF assms(2,1)]
    by (simp only: tasks_added_def none append_Nil append_Nil2)
  with mtp_stuck.run_preserves [OF assms(2,1)] show ?thesis by simp
qed

section \<open>Schedules\<close>

datatype mtp_move =
    Kr                        \<comment> \<open>the creator\<close>
  | Wk nat                    \<comment> \<open>a worker\<close>
  | Call nat threadpool_task  \<comment> \<open>a caller enters \<open>threadpool_addtask\<close>\<close>
  | Cl nat nat                \<comment> \<open>a caller, with the waiter its signal wakes\<close>
  | Mg                        \<comment> \<open>the manager\<close>

fun mtp_exec :: "mtp_move \<Rightarrow> mtp_sys \<Rightarrow> (mtp_event \<times> mtp_sys) option" where
  "mtp_exec Kr s = map_option (\<lambda>t. (Tau, t)) (threadpool_create s)"
| "mtp_exec (Wk i) s = (if i < length (workers s) then threadpool_runtask i 0 s else None)"
| "mtp_exec (Call j k) s =
     (if creator s = KDone \<and> j < length (callers s) \<and> callers s ! j = AIdle
      then Some (Tau, set_caller j (ALock k) s) else None)"
| "mtp_exec (Cl j w) s = (if j < length (callers s) then threadpool_addtask j w s else None)"
| "mtp_exec Mg s = map_option (\<lambda>t. (Tau, t)) (threadpool_manage 0 s)"

lemma mtp_exec_step: "mtp_exec m s = Some (e, t) \<Longrightarrow> mtp_step s e t"
  by (cases m) (auto intro: mtp_step.intros split: if_splits)

definition outcome :: "mtp_move list \<Rightarrow> mtp_sys \<Rightarrow> (mtp_event list \<Rightarrow> mtp_sys \<Rightarrow> bool) \<Rightarrow> bool" where
  "outcome ms s P = (case follow mtp_exec ms s of None \<Rightarrow> False | Some (es, t) \<Rightarrow> P es t)"

lemma mtp_outcome_runs: "outcome ms s P \<Longrightarrow> \<exists>es t. runs mtp_step s es t \<and> P es t"
  unfolding outcome_def
  by (auto split: option.splits intro: follow_runs mtp_exec_step)

text \<open>Creation of two workers, then one task is added, then the manager looks at the pool.\<close>

lemma mtp_demo_outcome:
  "outcome (replicate 9 Kr @ [Call 0 \<lparr>func = 1, arg = 11\<rparr>] @ replicate 4 (Cl 0 0) @ [Mg, Mg])
     (mtp_start 0 0 2 4 3 1)
     (\<lambda>es s. creator s = KDone \<and> manager s = MDecide
        \<and> tasks_added es = [\<lparr>func = 1, arg = 11\<rparr>] \<and> callers s = [AIdle])"
  by code_simp

section \<open>Repeated storing\<close>

lemma store_all:
  fixes q rs rw mn mx :: int
  assumes "0 < q"
  defines "p \<equiv> \<lambda>ts. fold store_task ts (fresh_pool rs rw mn mx q)"
  shows "taskqueue_tail (p ts) = int (length ts) mod q \<and> taskqueue_max_size (p ts) = q
    \<and> taskqueue_cur_size (p ts) = 0 \<and> length (taskqueue (p ts)) = nat q
    \<and> (\<forall>k < length ts. length ts \<le> k + nat q \<longrightarrow> taskqueue (p ts) ! (k mod nat q) = ts ! k)"
proof (induction ts rule: rev_induct)
  case Nil
  then show ?case by (simp add: p_def fresh_pool_def)
next
  case (snoc t ts)
  have pt: "p (ts @ [t]) = store_task t (p ts)" by (simp add: p_def)
  have tail: "nat (taskqueue_tail (p ts)) = length ts mod nat q"
    using snoc assms(1) by (simp add: nat_mod_as_int)
  have "length ts mod nat q < nat q" using assms(1) by simp
  have slot: "taskqueue (store_task t (p ts)) ! (k mod nat q) = (ts @ [t]) ! k"
    if k: "k < Suc (length ts)" "Suc (length ts) \<le> k + nat q" for k
  proof (cases "k = length ts")
    case True
    then show ?thesis using snoc tail assms(1) by (simp add: store_task_def)
  next
    case False
    then have "k mod nat q \<noteq> length ts mod nat q"
      using k mod_add_neq [of 0 "length ts - k" "nat q" k] by auto
    then show ?thesis using k False snoc tail by (simp add: store_task_def nth_append)
  qed
  have "c_rem (int (length ts) mod q + 1) q = int (length (ts @ [t])) mod q"
    using assms(1) by (simp add: mod_simps add.commute)
  then show ?case using snoc slot by (simp add: pt) (simp add: store_task_def)
qed

section \<open>Properties\<close>

text \<open>C21: in every run of this pool, whatever the callers add, the queue counts no task, no
  worker ever takes or runs one, and (with a queue of positive capacity) no caller ever
  waits for room: \<open>threadpool_addtask\<close> does not raise \<open>taskqueue_cur_size\<close>.\<close>

theorem no_task_is_served:
  assumes "runs mtp_step (mtp_start rs rw mn mx q nc) es s"
  shows "taskqueue_cur_size (pool s) = 0 \<and> cur_work_num (pool s) = 0 \<and> tasks_taken es = []
    \<and> (\<forall>t. WRun t \<notin> set (workers s))
    \<and> (0 < taskqueue_max_size (pool s) \<longrightarrow> (\<forall>t. ABlocked t \<notin> set (callers s)))"
proof -
  have idle: "idle_inv s" using reach_mtp [OF assms] by (simp add: mtp_inv_def)
  have "tasks_taken es = []"
    using mtp_taken.run_conserves [OF assms start_idle] by (simp add: tasks_taken_def)
  moreover have "\<forall>t. WRun t \<notin> set (workers s)"
    using idle by (auto simp: idle_inv_def list_all_iff)
  moreover have "0 < taskqueue_max_size (pool s) \<longrightarrow> (\<forall>t. ABlocked t \<notin> set (callers s))"
    using idle by (fastforce simp: idle_inv_def list_all_iff)
  ultimately show ?thesis using idle by (simp add: idle_inv_def)
qed

theorem no_task_is_served_witness:
  "\<exists>es s. runs mtp_step (mtp_start 0 0 2 4 3 1) es s
     \<and> tasks_added es = [\<lparr>func = 1, arg = 11\<rparr>] \<and> taskqueue_cur_size (pool s) = 0"
proof -
  obtain es s where r: "runs mtp_step (mtp_start 0 0 2 4 3 1) es s"
    and a: "tasks_added es = [\<lparr>func = 1, arg = 11\<rparr>]"
    using mtp_outcome_runs [OF mtp_demo_outcome] by blast
  from no_task_is_served [OF r] r a show ?thesis by blast
qed

text \<open>The mutex \<open>lock\<close> does its work in this pool: in every run at most one thread is in
  a section it protects, namely its holder, and nobody holds it before it is
  initialised.\<close>

theorem mtp_mutual_exclusion:
  assumes "runs mtp_step (mtp_start rs rw mn mx q nc) es s"
  shows "(\<forall>i < length (workers s). worker_locked (workers s ! i) \<longleftrightarrow> lock s = Some (HW i))
    \<and> (\<forall>j < length (callers s). caller_locked (callers s ! j) \<longleftrightarrow> lock s = Some (HA j))
    \<and> (manager s = MTest \<or> manager s = MDecide \<longrightarrow> lock s = Some HM)
    \<and> (destroyer s = DSet \<longleftrightarrow> lock s = Some HD)
    \<and> (lock s \<noteq> None \<longrightarrow> lock_ready s)"
  using reach_mtp [OF assms] by (auto simp: mtp_inv_def lock_inv_def init_inv_def inside_def)

theorem mtp_mutual_exclusion_witness:
  "\<exists>es s. runs mtp_step (mtp_start 0 0 2 4 3 1) es s \<and> lock s = Some HM \<and> lock_ready s"
proof -
  obtain es s where r: "runs mtp_step (mtp_start 0 0 2 4 3 1) es s" and m: "manager s = MDecide"
    using mtp_outcome_runs [OF mtp_demo_outcome] by blast
  from mtp_mutual_exclusion [OF r] m have "lock s = Some HM \<and> lock_ready s" by auto
  with r show ?thesis by blast
qed

text \<open>C22: the first time the manager decides, it keeps the mutex for ever: from then on, in
  every continuation, it stands before a lock of the mutex it holds, so no caller can add
  a task, no worker can enter the queue and \<open>threadpool_destroy\<close> cannot set
  \<open>shutdown\<close>.\<close>

theorem manager_deadlocks:
  assumes "runs mtp_step (mtp_start rs rw mn mx q nc) es s"
    and "manager s = MDecide" "threadpool_manage w s = Some t"
    and "runs mtp_step t es' u"
  shows "manager u = MLock \<and> lock u = Some HM \<and> tasks_added es' = []
    \<and> (\<forall>i < length (workers u). \<not> worker_locked (workers u ! i)) \<and> destroyer u \<noteq> DSet"
proof -
  have inv: "mtp_inv s" using assms(1) by (rule reach_mtp)
  have "manager t = MLock \<and> lock t = Some HM"
    using inv assms(2,3)
    by (auto simp: mtp_inv_def idle_inv_def lock_inv_def threadpool_manage_def Let_def
        split: if_splits)
  moreover have "mtp_inv t" using mtp.preserved [OF inv mtp_step.manage [OF assms(3)]] .
  ultimately have "stuck t" by (simp add: stuck_def)
  from stuck_for_ever [OF this assms(4)] have u: "stuck u" "tasks_added es' = []" by auto
  then show ?thesis using stuck_facts(3,4) [OF u(1)] by (auto simp: stuck_def)
qed

theorem manager_deadlocks_witness:
  "\<exists>es s t. runs mtp_step (mtp_start 0 0 2 4 3 1) es s \<and> threadpool_manage 0 s = Some t
     \<and> lock t = Some HM \<and> manager t = MLock"
proof -
  obtain es s where r: "runs mtp_step (mtp_start 0 0 2 4 3 1) es s" and m: "manager s = MDecide"
    using mtp_outcome_runs [OF mtp_demo_outcome] by blast
  obtain t where t: "threadpool_manage 0 s = Some t"
    using m by (fastforce simp: threadpool_manage_def Let_def)
  from manager_deadlocks [OF r m t runs.refl] r t show ?thesis by blast
qed

text \<open>A worker can use the mutex before \<open>threadpool_create\<close> initialises it, because the
  threads are started first.\<close>

theorem mutex_used_before_init:
  "\<exists>es s. runs mtp_step (mtp_start 0 0 2 4 3 1) es s \<and> workers s ! 0 = WFault"
proof -
  have "outcome [Kr, Wk 0] (mtp_start 0 0 2 4 3 1) (\<lambda>es s. workers s ! 0 = WFault)"
    by code_simp
  from mtp_outcome_runs [OF this] show ?thesis by simp
qed

text \<open>Storing tasks one after the other overwrites the oldest ones: after any list of
  tasks, each slot holds the last task whose index has that remainder, so of more tasks
  than the capacity only the last \<open>q\<close> are kept, while the recorded size stays 0.\<close>

theorem store_overwrites:
  assumes "0 < q" "k < length ts" "length ts \<le> k + nat q"
  shows "taskqueue (fold store_task ts (fresh_pool rs rw mn mx q)) ! (k mod nat q) = ts ! k
    \<and> taskqueue_cur_size (fold store_task ts (fresh_pool rs rw mn mx q)) = 0"
  using assms store_all [OF assms(1), where rs = rs and rw = rw and mn = mn and mx = mx and ts = ts]
  by blast

theorem store_overwrites_witness:
  "taskqueue (fold store_task (map (\<lambda>k. \<lparr>func = k, arg = 0\<rparr>) [0..<4]) (fresh_pool 0 0 1 1 3)) ! 0
     = \<lparr>func = 3, arg = 0\<rparr>"
proof -
  let ?ts = "map (\<lambda>k. \<lparr>func = k, arg = 0\<rparr>) [0..<4]"
  have "(0::int) < 3" "3 < length ?ts" "length ?ts \<le> 3 + nat 3" by simp_all
  from store_overwrites [OF this] show ?thesis by simp
qed

end
