(* ===== verification/StackSpec.thy ===== *)
theory StackSpec
  imports Ring
begin

text \<open>
  What the producer and consumer programs promise of their buffer: a bounded stack, stated
  as an interface on the operations and as a specification of the events of a run.
\<close>

section \<open>The promise of a bounded stack\<close>

locale bounded_stack =
  fixes push :: "'a \<Rightarrow> 'q \<Rightarrow> 'q"
    and pop :: "'q \<Rightarrow> 'a \<times> 'q"
    and elems :: "'q \<Rightarrow> 'a list"
    and cap :: nat
    and ok :: "'q \<Rightarrow> bool"
    and valid :: "'a \<Rightarrow> bool"
  assumes elems_push: "ok q \<Longrightarrow> valid x \<Longrightarrow> length (elems q) < cap \<Longrightarrow> elems (push x q) = elems q @ [x]"
    and ok_push: "ok q \<Longrightarrow> valid x \<Longrightarrow> length (elems q) < cap \<Longrightarrow> ok (push x q)"
    and elems_pop: "ok q \<Longrightarrow> elems q \<noteq> [] \<Longrightarrow>
          fst (pop q) = last (elems q) \<and> elems (snd (pop q)) = butlast (elems q)"
    and ok_pop: "ok q \<Longrightarrow> elems q \<noteq> [] \<Longrightarrow> ok (snd (pop q))"
begin

lemma pop_push:
  "ok q \<Longrightarrow> valid x \<Longrightarrow> length (elems q) < cap \<Longrightarrow>
    fst (pop (push x q)) = x \<and> elems (snd (pop (push x q))) = elems q"
  using elems_pop [of "push x q"] by (simp add: elems_push ok_push)

lemma push_all:
  "ok q \<Longrightarrow> list_all valid xs \<Longrightarrow> length (elems q) + length xs \<le> cap \<Longrightarrow>
    ok (fold push xs q) \<and> elems (fold push xs q) = elems q @ xs"
  by (induction xs arbitrary: q) (auto simp: elems_push ok_push)

lemma drain_elems:
  "ok q \<Longrightarrow> n \<le> length (elems q) \<Longrightarrow>
    ok (snd (drain pop n q)) \<and> elems q = elems (snd (drain pop n q)) @ rev (fst (drain pop n q))
    \<and> length (fst (drain pop n q)) = n"
proof (induction n arbitrary: q)
  case (Suc n)
  then have ne: "elems q \<noteq> []" by auto
  let ?r = "drain pop n (snd (pop q))"
  have "ok (snd ?r) \<and> butlast (elems q) = elems (snd ?r) @ rev (fst ?r) \<and> length (fst ?r) = n"
    using Suc elems_pop [of q] ok_pop [of q] ne Suc.IH [of "snd (pop q)"] by simp
  moreover have "elems q = butlast (elems q) @ [fst (pop q)]"
    using Suc.prems elems_pop [of q] ne by simp
  ultimately show ?case by (simp add: split_beta)
qed simp

lemma fill_and_drain:
  assumes "ok q" "list_all valid xs" "length (elems q) + length xs \<le> cap"
  shows "fst (drain pop (length xs) (fold push xs q)) = rev xs"
proof -
  have "ok (fold push xs q)" "elems (fold push xs q) = elems q @ xs"
    using push_all [of q xs] assms by auto
  then show ?thesis
    using drain_elems [of "fold push xs q" "length xs"]
    by (metis append_eq_append_conv length_append length_rev le_add2 rev_rev_ident)
qed

end

section \<open>Events of a shared stack\<close>

text \<open>A value was put, a value was taken and printed, or something else happened.\<close>

datatype buf_event = Tau | Produced int | Consumed int

fun stack_spec :: "nat \<Rightarrow> buf_event \<Rightarrow> int list \<Rightarrow> int list option" where
  "stack_spec cap Tau xs = Some xs"
| "stack_spec cap (Produced v) xs = (if length xs < cap then Some (xs @ [v]) else None)"
| "stack_spec cap (Consumed v) xs = (if xs \<noteq> [] \<and> last xs = v then Some (butlast xs) else None)"

lemma replay_stack_bound:
  "replay (stack_spec cap) es xs = Some ys \<Longrightarrow> length xs \<le> cap \<Longrightarrow> length ys \<le> cap"
proof (induction es arbitrary: xs)
  case (Cons e es)
  then show ?case by (cases e) (auto split: if_splits)
qed simp

end
