(* ===== verification/CondBuffer.thy ===== *)
theory CondBuffer
  imports StackSpec
begin

text \<open>
  The producers and consumers of \<open>thread/synchronization/condition_val/producer_consumer.c\<close>:
  an array of five places guarded by a mutex and two condition variables. Any number of
  producers and consumers; \<open>main\<close> starts three and one.
\<close>

section \<open>The buffer\<close>

definition MAX_SLOTS :: nat where "MAX_SLOTS = 5"

text \<open>The three globals.\<close>

record buffer =
  queue :: "int list"
  count :: int
  index_i :: int

definition empty_buffer :: buffer where
  "empty_buffer = \<lparr>queue = replicate MAX_SLOTS 0, count = 0, index_i = 0\<rparr>"

text \<open>The body of \<open>producer\<close> under the lock, with the random value \<open>v\<close>.\<close>

definition produce :: "int \<Rightarrow> buffer \<Rightarrow> buffer" where
  "produce v b =
     (let k = c_rem (index_i b) (int MAX_SLOTS)
      in b\<lparr>queue := (queue b)[nat k := v], count := count b + 1, index_i := k + 1\<rparr>)"

text \<open>
  The body of \<open>consumer\<close> under the lock: it prints \<open>queue[i - 1]\<close> before it tests whether
  \<open>i\<close> is 0, so the result is \<open>None\<close> (a read out of bounds) when \<open>i\<close> is 0 or beyond the
  array; otherwise the printed value and the new buffer.
\<close>

definition consume :: "buffer \<Rightarrow> (int \<times> buffer) option" where
  "consume b =
     (if 0 \<le> index_i b - 1 \<and> index_i b - 1 < int (length (queue b))
      then (let printed = queue b ! nat (index_i b - 1);
                k = (if index_i b = 0 then int MAX_SLOTS else index_i b) - 1
            in Some (printed, b\<lparr>queue := (queue b)[nat k := 0], index_i := k, count := count b - 1\<rparr>))
      else None)"

section \<open>The threads\<close>

datatype producer_pc =
    PLock                \<comment> \<open>26\<close>
  | PLoop                \<comment> \<open>27, mutex held\<close>
  | PBlocked             \<comment> \<open>28: waiting on \<open>empty_cond\<close>\<close>
  | PRelock              \<comment> \<open>28: woken\<close>
  | PPut                 \<comment> \<open>29, mutex held\<close>
  | PSignal              \<comment> \<open>34, mutex held\<close>
  | PUnlock              \<comment> \<open>35, mutex held\<close>

datatype consumer_pc =
    CLock                \<comment> \<open>44\<close>
  | CLoop                \<comment> \<open>45, mutex held\<close>
  | CBlocked             \<comment> \<open>46: waiting on \<open>full_cond\<close>\<close>
  | CRelock              \<comment> \<open>46: woken\<close>
  | CTake                \<comment> \<open>47, mutex held\<close>
  | CSignal              \<comment> \<open>55, mutex held\<close>
  | CUnlock              \<comment> \<open>56, mutex held\<close>
  | CFault               \<comment> \<open>read out of bounds\<close>

datatype holder = HP nat | HC nat

record pc_sys =
  buf :: buffer
  mutex :: "holder option"
  producers :: "producer_pc list"
  consumers :: "consumer_pc list"

abbreviation set_producer :: "nat \<Rightarrow> producer_pc \<Rightarrow> pc_sys \<Rightarrow> pc_sys" where
  "set_producer k pc s \<equiv> s\<lparr>producers := (producers s)[k := pc]\<rparr>"

abbreviation set_consumer :: "nat \<Rightarrow> consumer_pc \<Rightarrow> pc_sys \<Rightarrow> pc_sys" where
  "set_consumer k pc s \<equiv> s\<lparr>consumers := (consumers s)[k := pc]\<rparr>"

text \<open>\<open>pthread_cond_signal\<close>: the waiter \<open>w\<close> is woken; it must be one when there is one.\<close>

definition signal_full :: "nat \<Rightarrow> pc_sys \<Rightarrow> pc_sys option" where
  "signal_full w s =
     (if w < length (consumers s) \<and> consumers s ! w = CBlocked then Some (set_consumer w CRelock s)
      else if CBlocked \<in> set (consumers s) then None
      else Some s)"

definition signal_empty :: "nat \<Rightarrow> pc_sys \<Rightarrow> pc_sys option" where
  "signal_empty w s =
     (if w < length (producers s) \<and> producers s ! w = PBlocked then Some (set_producer w PRelock s)
      else if PBlocked \<in> set (producers s) then None
      else Some s)"

definition producer :: "nat \<Rightarrow> int \<Rightarrow> nat \<Rightarrow> pc_sys \<Rightarrow> (buf_event \<times> pc_sys) option" where
  "producer k v w s =
     (case producers s ! k of
        PLock \<Rightarrow>
          if mutex s = None then Some (Tau, (set_producer k PLoop s)\<lparr>mutex := Some (HP k)\<rparr>)
          else None
      | PLoop \<Rightarrow>
          if count (buf s) = int MAX_SLOTS then Some (Tau, (set_producer k PBlocked s)\<lparr>mutex := None\<rparr>)
          else Some (Tau, set_producer k PPut s)
      | PBlocked \<Rightarrow> None
      | PRelock \<Rightarrow>
          if mutex s = None then Some (Tau, (set_producer k PLoop s)\<lparr>mutex := Some (HP k)\<rparr>)
          else None
      | PPut \<Rightarrow> Some (Produced v, (set_producer k PSignal s)\<lparr>buf := produce v (buf s)\<rparr>)
      | PSignal \<Rightarrow> map_option (\<lambda>s'. (Tau, set_producer k PUnlock s')) (signal_full w s)
      | PUnlock \<Rightarrow> Some (Tau, (set_producer k PLock s)\<lparr>mutex := None\<rparr>))"

definition consumer :: "nat \<Rightarrow> nat \<Rightarrow> pc_sys \<Rightarrow> (buf_event \<times> pc_sys) option" where
  "consumer k w s =
     (case consumers s ! k of
        CLock \<Rightarrow>
          if mutex s = None then Some (Tau, (set_consumer k CLoop s)\<lparr>mutex := Some (HC k)\<rparr>)
          else None
      | CLoop \<Rightarrow>
          if count (buf s) = 0 then Some (Tau, (set_consumer k CBlocked s)\<lparr>mutex := None\<rparr>)
          else Some (Tau, set_consumer k CTake s)
      | CBlocked \<Rightarrow> None
      | CRelock \<Rightarrow>
          if mutex s = None then Some (Tau, (set_consumer k CLoop s)\<lparr>mutex := Some (HC k)\<rparr>)
          else None
      | CTake \<Rightarrow>
          (case consume (buf s) of
             None \<Rightarrow> Some (Tau, set_consumer k CFault s)
           | Some (v, b) \<Rightarrow> Some (Consumed v, (set_consumer k CSignal s)\<lparr>buf := b\<rparr>))
      | CSignal \<Rightarrow> map_option (\<lambda>s'. (Tau, set_consumer k CUnlock s')) (signal_empty w s)
      | CUnlock \<Rightarrow> Some (Tau, (set_consumer k CLock s)\<lparr>mutex := None\<rparr>)
      | CFault \<Rightarrow> None)"

text \<open>One step of one thread, \<open>rand() % 100 + 1\<close> being a value from 1 to 100.\<close>

inductive pc_thread_step :: "pc_sys \<Rightarrow> buf_event \<Rightarrow> pc_sys \<Rightarrow> bool" where
  produce: "k < length (producers s) \<Longrightarrow> 1 \<le> v \<Longrightarrow> v \<le> 100 \<Longrightarrow>
     producer k v w s = Some (e, t) \<Longrightarrow> pc_thread_step s e t"
| consume: "k < length (consumers s) \<Longrightarrow> consumer k w s = Some (e, t) \<Longrightarrow> pc_thread_step s e t"

text \<open>Waiting threads may also wake up spuriously.\<close>

inductive pc_step :: "pc_sys \<Rightarrow> buf_event \<Rightarrow> pc_sys \<Rightarrow> bool" where
  thread: "pc_thread_step s e t \<Longrightarrow> pc_step s e t"
| spurious_producer: "k < length (producers s) \<Longrightarrow> producers s ! k = PBlocked \<Longrightarrow>
     pc_step s Tau (set_producer k PRelock s)"
| spurious_consumer: "k < length (consumers s) \<Longrightarrow> consumers s ! k = CBlocked \<Longrightarrow>
     pc_step s Tau (set_consumer k CRelock s)"

inductive_cases pc_stepE: "pc_step s e t"

definition pc_start :: "nat \<Rightarrow> nat \<Rightarrow> pc_sys" where
  "pc_start np nc =
     \<lparr>buf = empty_buffer, mutex = None, producers = replicate np PLock,
      consumers = replicate nc CLock\<rparr>"

section \<open>The buffer is a stack\<close>

definition stored :: "buffer \<Rightarrow> int list" where
  "stored b = take (nat (count b)) (queue b)"

text \<open>The index is the number of stored values, and the places above it are 0.\<close>

definition buf_ok :: "buffer \<Rightarrow> bool" where
  "buf_ok b \<longleftrightarrow>
     length (queue b) = MAX_SLOTS \<and> index_i b = count b \<and> 0 \<le> count b \<and> count b \<le> int MAX_SLOTS
     \<and> drop (nat (count b)) (queue b) = replicate (MAX_SLOTS - nat (count b)) 0"

lemma length_stored: "buf_ok b \<Longrightarrow> int (length (stored b)) = count b"
  by (auto simp: stored_def buf_ok_def min_def)

lemma queue_split: "buf_ok b \<Longrightarrow> queue b = stored b @ replicate (MAX_SLOTS - nat (count b)) 0"
  by (metis append_take_drop_id buf_ok_def stored_def)

lemma cb_produce_stored:
  assumes "buf_ok b" "count b < int MAX_SLOTS"
  shows "buf_ok (produce v b) \<and> stored (produce v b) = stored b @ [v]
    \<and> count (produce v b) = count b + 1"
proof -
  obtain n where n: "count b = int n" "n < MAX_SLOTS" and q: "length (queue b) = MAX_SLOTS" "index_i b = int n"
    using assms by (auto simp: buf_ok_def elim: nonneg_int_cases)
  have "drop n (queue b) = replicate (MAX_SLOTS - n) 0" using assms(1) n by (simp add: buf_ok_def)
  then have d: "drop (Suc n) ((queue b)[n := v]) = replicate (MAX_SLOTS - Suc n) 0"
    by (rule filler_push)
  have m: "c_rem (int n) (int MAX_SLOTS) = int n" using n by simp
  have s: "nat (int n + 1) = Suc n" by simp
  show ?thesis using n q d
    by (simp add: produce_def buf_ok_def stored_def Let_def m s take_Suc_conv_app_nth)
qed

lemma cb_consume_stored:
  assumes "buf_ok b" "0 < count b"
  shows "\<exists>b'. consume b = Some (last (stored b), b') \<and> buf_ok b'
    \<and> stored b' = butlast (stored b) \<and> count b' = count b - 1"
proof -
  have c: "0 < count b" "count b \<le> int MAX_SLOTS" "index_i b = count b"
    and q: "length (queue b) = MAX_SLOTS" using assms by (simp_all add: buf_ok_def)
  define n where "n = nat (count b - 1)"
  have n: "count b = int n + 1" "n < MAX_SLOTS" "nat (int n + 1) = Suc n" "index_i b = int n + 1"
    using c by (simp_all add: n_def)
  have d: "drop (Suc n) (queue b) = replicate (MAX_SLOTS - Suc n) 0"
    using assms(1) n by (simp add: buf_ok_def)
  have s: "stored b = take n (queue b) @ [queue b ! n]"
    using n q by (simp add: stored_def take_Suc_conv_app_nth)
  have e: "drop n ((queue b)[n := 0]) = replicate (MAX_SLOTS - n) 0"
    using filler_pop [of n "queue b" 0] d n(2) q by simp
  have l: "last (stored b) = queue b ! n" "butlast (stored b) = take n (queue b)"
    using s by simp_all
  show ?thesis using n q e
    by (simp add: consume_def l Let_def) (simp add: buf_ok_def stored_def)
qed

definition pop_item :: "buffer \<Rightarrow> int \<times> buffer" where
  "pop_item b = (case consume b of None \<Rightarrow> (0, b) | Some r \<Rightarrow> r)"

interpretation cond_stack: bounded_stack produce pop_item stored MAX_SLOTS buf_ok "\<lambda>_. True"
proof
  fix b v
  assume ok: "buf_ok b"
  assume "length (stored b) < MAX_SLOTS"
  then have "count b < int MAX_SLOTS" using length_stored [OF ok] by linarith
  from cb_produce_stored [OF ok this]
  show "stored (produce v b) = stored b @ [v]" "buf_ok (produce v b)" by auto
next
  fix b
  assume ok: "buf_ok b" and "stored b \<noteq> []"
  then have "0 < count b" using length_stored [OF ok] by (cases "stored b") auto
  from cb_consume_stored [OF ok this] obtain b' where
    "consume b = Some (last (stored b), b')" "buf_ok b'" "stored b' = butlast (stored b)" by blast
  then show "fst (pop_item b) = last (stored b) \<and> stored (snd (pop_item b)) = butlast (stored b)"
    "buf_ok (snd (pop_item b))" by (simp_all add: pop_item_def)
qed

end
