(* ===== verification/CondBufferProps.thy ===== *)
theory CondBufferProps
  imports CondBuffer
begin

text \<open>
  Every run of the producers and consumers of
  \<open>thread/synchronization/condition_val/producer_consumer.c\<close>: mutual exclusion, the stack
  discipline of the buffer, and freedom from deadlock with its bound on waiting threads.
\<close>

section \<open>Invariants\<close>

fun p_locked :: "producer_pc \<Rightarrow> bool" where
  "p_locked PLoop = True" | "p_locked PPut = True" | "p_locked PSignal = True"
| "p_locked PUnlock = True" | "p_locked _ = False"

fun c_locked :: "consumer_pc \<Rightarrow> bool" where
  "c_locked CLoop = True" | "c_locked CTake = True" | "c_locked CSignal = True"
| "c_locked CUnlock = True" | "c_locked _ = False"

fun producer_of :: "holder option \<Rightarrow> nat option" where
  "producer_of (Some (HP k)) = Some k" | "producer_of _ = None"

fun consumer_of :: "holder option \<Rightarrow> nat option" where
  "consumer_of (Some (HC k)) = Some k" | "consumer_of _ = None"

lemma cb_producer_of_Some [simp]: "producer_of h = Some k \<longleftrightarrow> h = Some (HP k)"
  by (cases h rule: producer_of.cases) auto

lemma cb_consumer_of_Some [simp]: "consumer_of h = Some k \<longleftrightarrow> h = Some (HC k)"
  by (cases h rule: consumer_of.cases) auto

text \<open>The thread that holds the mutex is one of the program's and has tested the count.\<close>

fun holder_ok :: "holder option \<Rightarrow> pc_sys \<Rightarrow> bool" where
  "holder_ok None s = True"
| "holder_ok (Some (HP k)) s =
     (k < length (producers s) \<and> (producers s ! k = PPut \<longrightarrow> count (buf s) < int MAX_SLOTS))"
| "holder_ok (Some (HC k)) s =
     (k < length (consumers s) \<and> (consumers s ! k = CTake \<longrightarrow> 0 < count (buf s)))"

definition pc_inv :: "pc_sys \<Rightarrow> bool" where
  "pc_inv s \<longleftrightarrow>
     buf_ok (buf s)
     \<and> inside p_locked (producers s) (producer_of (mutex s))
     \<and> inside c_locked (consumers s) (consumer_of (mutex s))
     \<and> holder_ok (mutex s) s
     \<and> list_all (\<lambda>pc. pc \<noteq> CFault) (consumers s)"

text \<open>
  No wake-up is lost: while a consumer waits there are at most as many values as consumers
  that do not wait and producers about to signal, and likewise for the free places.
\<close>

definition wake_inv :: "pc_sys \<Rightarrow> bool" where
  "wake_inv s \<longleftrightarrow>
     (0 < count_if (\<lambda>pc. pc = CBlocked) (consumers s) \<longrightarrow>
        count (buf s) \<le> count_if (\<lambda>pc. pc \<noteq> CBlocked) (consumers s)
          + count_if (\<lambda>pc. pc = PSignal) (producers s))
     \<and> (0 < count_if (\<lambda>pc. pc = PBlocked) (producers s) \<longrightarrow>
        int MAX_SLOTS - count (buf s) \<le> count_if (\<lambda>pc. pc \<noteq> PBlocked) (producers s)
          + count_if (\<lambda>pc. pc = CSignal) (consumers s))"

definition full_inv :: "pc_sys \<Rightarrow> bool" where
  "full_inv s \<longleftrightarrow> pc_inv s \<and> wake_inv s"

section \<open>Preservation\<close>

lemma signal_fullD:
  "signal_full w s = Some t \<Longrightarrow>
    (t = s \<and> count_if (\<lambda>pc. pc = CBlocked) (consumers s) = 0)
    \<or> (w < length (consumers s) \<and> consumers s ! w = CBlocked \<and> t = set_consumer w CRelock s)"
  by (auto simp: signal_full_def count_if_eq_0 split: if_splits)

lemma signal_emptyD:
  "signal_empty w s = Some t \<Longrightarrow>
    (t = s \<and> count_if (\<lambda>pc. pc = PBlocked) (producers s) = 0)
    \<or> (w < length (producers s) \<and> producers s ! w = PBlocked \<and> t = set_producer w PRelock s)"
  by (auto simp: signal_empty_def count_if_eq_0 split: if_splits)

lemma cb_producer_holds:
  "pc_inv s \<Longrightarrow> k < length (producers s) \<Longrightarrow> p_locked (producers s ! k) \<Longrightarrow> mutex s = Some (HP k)"
  unfolding pc_inv_def using insideD by fastforce

lemma cb_consumer_holds:
  "pc_inv s \<Longrightarrow> k < length (consumers s) \<Longrightarrow> c_locked (consumers s ! k) \<Longrightarrow> mutex s = Some (HC k)"
  unfolding pc_inv_def using insideD by fastforce

text \<open>What a step of a producer does to the invariants and to the stack.\<close>

lemma pc_producer:
  assumes "pc_inv s" "k < length (producers s)" "producer k v w s = Some (e, t)"
  shows "pc_inv t \<and> stack_spec MAX_SLOTS e (stored (buf s)) = Some (stored (buf t))"
proof (cases "producers s ! k")
  case PPut
  have m: "mutex s = Some (HP k)" using cb_producer_holds [OF assms(1,2)] PPut by simp
  have c: "buf_ok (buf s)" "count (buf s) < int MAX_SLOTS"
    using assms(1) m PPut by (simp_all add: pc_inv_def)
  have "length (stored (buf s)) < MAX_SLOTS" using length_stored [OF c(1)] c(2) by linarith
  then show ?thesis using assms PPut m cb_produce_stored [OF c, of v]
    by (auto simp: producer_def pc_inv_def)
next
  case PSignal
  have m: "mutex s = Some (HP k)" using cb_producer_holds [OF assms(1,2)] PSignal by simp
  obtain s' where s': "signal_full w s = Some s'" "t = set_producer k PUnlock s'" "e = Tau"
    using assms(3) PSignal by (auto simp: producer_def)
  show ?thesis using signal_fullD [OF s'(1)] s'(2,3) assms(1,2) PSignal m
    by (auto simp: pc_inv_def)
qed (use assms cb_producer_holds [OF assms(1,2)] in \<open>auto simp: producer_def pc_inv_def buf_ok_def
       split: if_splits\<close>)

lemma pc_consumer:
  assumes "pc_inv s" "k < length (consumers s)" "consumer k w s = Some (e, t)"
  shows "pc_inv t \<and> stack_spec MAX_SLOTS e (stored (buf s)) = Some (stored (buf t))"
proof (cases "consumers s ! k")
  case CTake
  have m: "mutex s = Some (HC k)" using cb_consumer_holds [OF assms(1,2)] CTake by simp
  have c: "buf_ok (buf s)" "0 < count (buf s)"
    using assms(1) m CTake by (simp_all add: pc_inv_def)
  have "stored (buf s) \<noteq> []" using length_stored [OF c(1)] c(2) by auto
  then show ?thesis using assms CTake m cb_consume_stored [OF c]
    by (auto simp: consumer_def pc_inv_def)
next
  case CSignal
  have m: "mutex s = Some (HC k)" using cb_consumer_holds [OF assms(1,2)] CSignal by simp
  obtain s' where s': "signal_empty w s = Some s'" "t = set_consumer k CUnlock s'" "e = Tau"
    using assms(3) CSignal by (auto simp: consumer_def)
  show ?thesis using signal_emptyD [OF s'(1)] s'(2,3) assms(1,2) CSignal m
    by (auto simp: pc_inv_def)
qed (use assms cb_consumer_holds [OF assms(1,2)] in \<open>auto simp: consumer_def pc_inv_def buf_ok_def
       split: if_splits\<close>)

lemma wake_producer:
  assumes "pc_inv s" "wake_inv s" "k < length (producers s)" "producer k v w s = Some (e, t)"
  shows "wake_inv t"
proof (cases "producers s ! k")
  case PLoop
  have "0 < count_if (\<lambda>pc. pc \<noteq> PBlocked) (producers s)"
    using count_if_pos [OF assms(3), of "\<lambda>pc. pc \<noteq> PBlocked"] PLoop by simp
  then show ?thesis using assms PLoop
    by (auto simp: producer_def wake_inv_def count_if_update split: if_splits)
next
  case PSignal
  obtain s' where s': "signal_full w s = Some s'" "t = set_producer k PUnlock s'" "e = Tau"
    using assms(4) PSignal by (auto simp: producer_def)
  show ?thesis using signal_fullD [OF s'(1)] s'(2,3) assms(2,3) PSignal
    by (auto simp: wake_inv_def count_if_update)
next
  case PPut
  have m: "mutex s = Some (HP k)" using cb_producer_holds [OF assms(1,3)] PPut by simp
  have c: "buf_ok (buf s)" "count (buf s) < int MAX_SLOTS"
    using assms(1) m PPut by (simp_all add: pc_inv_def)
  show ?thesis using assms PPut cb_produce_stored [OF c, of v]
    by (auto simp: producer_def wake_inv_def count_if_update)
qed (use assms in \<open>auto simp: producer_def wake_inv_def count_if_update
       split: if_splits\<close>)

lemma wake_consumer:
  assumes "pc_inv s" "wake_inv s" "k < length (consumers s)" "consumer k w s = Some (e, t)"
  shows "wake_inv t"
proof (cases "consumers s ! k")
  case CLoop
  have "0 < count_if (\<lambda>pc. pc \<noteq> CBlocked) (consumers s)"
    using count_if_pos [OF assms(3), of "\<lambda>pc. pc \<noteq> CBlocked"] CLoop by simp
  then show ?thesis using assms CLoop
    by (auto simp: consumer_def wake_inv_def count_if_update split: if_splits)
next
  case CSignal
  obtain s' where s': "signal_empty w s = Some s'" "t = set_consumer k CUnlock s'" "e = Tau"
    using assms(4) CSignal by (auto simp: consumer_def)
  show ?thesis using signal_emptyD [OF s'(1)] s'(2,3) assms(2,3) CSignal
    by (auto simp: wake_inv_def count_if_update)
next
  case CTake
  have m: "mutex s = Some (HC k)" using cb_consumer_holds [OF assms(1,3)] CTake by simp
  have c: "buf_ok (buf s)" "0 < count (buf s)"
    using assms(1) m CTake by (simp_all add: pc_inv_def)
  show ?thesis using assms CTake cb_consume_stored [OF c]
    by (auto simp: consumer_def wake_inv_def count_if_update)
qed (use assms in \<open>auto simp: consumer_def wake_inv_def count_if_update
       split: if_splits\<close>)

lemma pc_spurious_producer:
  "full_inv s \<Longrightarrow> k < length (producers s) \<Longrightarrow> producers s ! k = PBlocked \<Longrightarrow>
    full_inv (set_producer k PRelock s)"
  by (cases "mutex s" rule: producer_of.cases)
    (auto simp: full_inv_def pc_inv_def wake_inv_def count_if_update nth_list_update)

lemma pc_spurious_consumer:
  "full_inv s \<Longrightarrow> k < length (consumers s) \<Longrightarrow> consumers s ! k = CBlocked \<Longrightarrow>
    full_inv (set_consumer k CRelock s)"
  by (cases "mutex s" rule: producer_of.cases)
    (auto simp: full_inv_def pc_inv_def wake_inv_def count_if_update nth_list_update)

lemma pc_thread_step_inv:
  "pc_thread_step s e t \<Longrightarrow> full_inv s \<Longrightarrow>
    full_inv t \<and> stack_spec MAX_SLOTS e (stored (buf s)) = Some (stored (buf t))"
proof (induction rule: pc_thread_step.induct)
  case (produce k s v w e t)
  then show ?case using pc_producer wake_producer unfolding full_inv_def by blast
next
  case (consume k s w e t)
  then show ?case using pc_consumer wake_consumer unfolding full_inv_def by blast
qed

lemma pc_step_inv:
  "pc_step s e t \<Longrightarrow> full_inv s \<Longrightarrow>
    full_inv t \<and> stack_spec MAX_SLOTS e (stored (buf s)) = Some (stored (buf t))"
  by (induction rule: pc_step.induct)
    (auto dest: pc_thread_step_inv intro: pc_spurious_producer pc_spurious_consumer)

interpretation pc: refined_system pc_step full_inv "\<lambda>s. stored (buf s)" "stack_spec MAX_SLOTS"
  by unfold_locales (auto dest: pc_step_inv)

lemma cb_start_inv: "full_inv (pc_start np nc)"
  by (auto simp: full_inv_def pc_inv_def wake_inv_def pc_start_def buf_ok_def empty_buffer_def
      inside_replicate list_all_length MAX_SLOTS_def)

lemma cb_reach_inv: "runs pc_step (pc_start np nc) es s \<Longrightarrow> full_inv s"
  by (rule pc.run_preserves [OF _ cb_start_inv])

lemma cb_runs_same_threads:
  "runs pc_step s es t \<Longrightarrow>
    length (producers t) = length (producers s) \<and> length (consumers t) = length (consumers s)"
proof (induction rule: runs.induct)
  case (snoc s es t e u)
  have "length (producers u) = length (producers t) \<and> length (consumers u) = length (consumers t)"
    using snoc.hyps(2)
    by (auto elim!: pc_stepE pc_thread_step.cases dest!: signal_fullD signal_emptyD
        simp: producer_def consumer_def
        split: producer_pc.splits consumer_pc.splits if_splits option.splits)
  with snoc.IH show ?case by simp
qed simp

lemma can_take:
  assumes "pc_inv s" "CTake \<in> set (consumers s)"
  shows "0 < count (buf s)"
proof -
  obtain k where k: "k < length (consumers s)" "consumers s ! k = CTake"
    using assms(2) by (metis in_set_conv_nth)
  then have "mutex s = Some (HC k)" using cb_consumer_holds [OF assms(1)] by simp
  then show ?thesis using assms(1) k by (simp add: pc_inv_def)
qed

lemma can_put:
  assumes "pc_inv s" "PPut \<in> set (producers s)"
  shows "count (buf s) < int MAX_SLOTS"
proof -
  obtain k where k: "k < length (producers s)" "producers s ! k = PPut"
    using assms(2) by (metis in_set_conv_nth)
  then have "mutex s = Some (HP k)" using cb_producer_holds [OF assms(1)] by simp
  then show ?thesis using assms(1) k by (simp add: pc_inv_def)
qed

lemma free_places_zero:
  assumes "buf_ok b"
  shows "\<forall>n. nat (count b) \<le> n \<and> n < 5 \<longrightarrow> queue b ! n = 0"
proof (intro allI impI)
  fix n
  assume n: "nat (count b) \<le> n \<and> n < 5"
  have "length (stored b) = nat (count b)" using length_stored [OF assms] by simp
  then show "queue b ! n = 0" using n by (simp add: queue_split [OF assms] nth_append MAX_SLOTS_def
      diff_less_mono)
qed

section \<open>Who can step\<close>

lemma signal_full_total: "\<exists>w t. signal_full w s = Some t"
proof (cases "CBlocked \<in> set (consumers s)")
  case True
  then obtain w where "w < length (consumers s)" "consumers s ! w = CBlocked"
    by (auto simp: in_set_conv_nth)
  then have "signal_full w s = Some (set_consumer w CRelock s)" by (simp add: signal_full_def)
  then show ?thesis by blast
next
  case False
  then have "signal_full (length (consumers s)) s = Some s" by (simp add: signal_full_def)
  then show ?thesis by blast
qed

lemma signal_empty_total: "\<exists>w t. signal_empty w s = Some t"
proof (cases "PBlocked \<in> set (producers s)")
  case True
  then obtain w where "w < length (producers s)" "producers s ! w = PBlocked"
    by (auto simp: in_set_conv_nth)
  then have "signal_empty w s = Some (set_producer w PRelock s)" by (simp add: signal_empty_def)
  then show ?thesis by blast
next
  case False
  then have "signal_empty (length (producers s)) s = Some s" by (simp add: signal_empty_def)
  then show ?thesis by blast
qed

lemma cb_producer_moves:
  assumes "k < length (producers s)" "producers s ! k \<noteq> PBlocked"
    "p_locked (producers s ! k) \<or> mutex s = None"
  shows "\<exists>e t. pc_thread_step s e t"
proof -
  obtain w t where w: "signal_full w s = Some t" using signal_full_total by blast
  have "\<exists>e t. producer k 1 w s = Some (e, t)"
    using assms(2,3) w by (cases "producers s ! k") (auto simp: producer_def)
  then show ?thesis using pc_thread_step.produce [OF assms(1), of 1 w] by auto
qed

lemma cb_consumer_moves:
  assumes "k < length (consumers s)" "consumers s ! k \<noteq> CBlocked" "consumers s ! k \<noteq> CFault"
    "c_locked (consumers s ! k) \<or> mutex s = None"
  shows "\<exists>e t. pc_thread_step s e t"
proof -
  obtain w t where w: "signal_empty w s = Some t" using signal_empty_total by blast
  have "\<exists>e t. consumer k w s = Some (e, t)"
    using assms(2-4) w by (cases "consumers s ! k") (auto simp: consumer_def split: option.splits)
  then show ?thesis using pc_thread_step.consume [OF assms(1), of w] by auto
qed

lemma cb_holder_can_step:
  assumes "pc_inv s" "mutex s = Some h"
  shows "\<exists>e t. pc_thread_step s e t"
proof (cases h)
  case (HP k)
  have "k < length (producers s)" using assms HP by (simp add: pc_inv_def)
  moreover then have "p_locked (producers s ! k)"
    using assms HP by (auto simp: pc_inv_def inside_def)
  ultimately show ?thesis by (intro cb_producer_moves [of k]) auto
next
  case (HC k)
  have "k < length (consumers s)" using assms HC by (simp add: pc_inv_def)
  moreover then have "c_locked (consumers s ! k)"
    using assms HC by (auto simp: pc_inv_def inside_def)
  ultimately show ?thesis by (intro cb_consumer_moves [of k]) auto
qed

lemma not_all_blocked:
  assumes "pc_inv s" "wake_inv s" "producers s \<noteq> []" "consumers s \<noteq> []"
  shows "(\<exists>k < length (producers s). producers s ! k \<noteq> PBlocked)
    \<or> (\<exists>k < length (consumers s). consumers s ! k \<noteq> CBlocked)"
proof (rule ccontr)
  assume "\<not> ?thesis"
  then have "producers s = replicate (length (producers s)) PBlocked"
    "consumers s = replicate (length (consumers s)) CBlocked"
    by (simp_all add: list_eq_iff_nth_eq)
  then obtain n m where p: "producers s = replicate n PBlocked" "consumers s = replicate m CBlocked"
    by blast
  have "0 < n" "0 < m" using assms(3,4) p by auto
  then have "count (buf s) \<le> 0 \<and> int MAX_SLOTS - count (buf s) \<le> 0"
    using assms(2) p by (simp add: wake_inv_def)
  moreover have "0 < int MAX_SLOTS" by (simp add: MAX_SLOTS_def)
  ultimately show False by linarith
qed

lemma cb_free_can_step:
  assumes "pc_inv s" "wake_inv s" "mutex s = None" "producers s \<noteq> []" "consumers s \<noteq> []"
  shows "\<exists>e t. pc_thread_step s e t"
  using not_all_blocked [OF assms(1,2,4,5)]
proof
  assume "\<exists>k < length (producers s). producers s ! k \<noteq> PBlocked"
  then show ?thesis using cb_producer_moves assms(3) by blast
next
  assume "\<exists>k < length (consumers s). consumers s ! k \<noteq> CBlocked"
  then obtain k where k: "k < length (consumers s)" "consumers s ! k \<noteq> CBlocked" by blast
  then have "consumers s ! k \<noteq> CFault" using assms(1) by (simp add: pc_inv_def list_all_length)
  with k show ?thesis using cb_consumer_moves assms(3) by blast
qed

section \<open>Schedules\<close>

datatype pc_move = Pr nat int nat | Co nat nat

fun pc_exec :: "pc_move \<Rightarrow> pc_sys \<Rightarrow> (buf_event \<times> pc_sys) option" where
  "pc_exec (Pr k v w) s =
     (if k < length (producers s) \<and> 1 \<le> v \<and> v \<le> 100 then producer k v w s else None)"
| "pc_exec (Co k w) s = (if k < length (consumers s) then consumer k w s else None)"

lemma pc_exec_step: "pc_exec m s = Some (e, t) \<Longrightarrow> pc_step s e t"
  by (cases m) (auto intro: pc_step.thread pc_thread_step.intros split: if_splits)

definition pc_outcome :: "pc_move list \<Rightarrow> pc_sys \<Rightarrow> (buf_event list \<Rightarrow> pc_sys \<Rightarrow> bool) \<Rightarrow> bool" where
  "pc_outcome ms s P = (case follow pc_exec ms s of None \<Rightarrow> False | Some (es, t) \<Rightarrow> P es t)"

lemma pc_outcome_runs: "pc_outcome ms s P \<Longrightarrow> \<exists>es t. runs pc_step s es t \<and> P es t"
  unfolding pc_outcome_def
  by (auto split: option.splits intro: follow_runs pc_exec_step)

text \<open>The consumer waits, two producers put 7 and 9, the consumer takes 9.\<close>

definition pc_demo :: "pc_move list" where
  "pc_demo = [Co 0 0, Co 0 0] @ replicate 5 (Pr 0 7 0) @ replicate 5 (Pr 1 9 0) @ replicate 3 (Co 0 0)"

lemma pc_demo_outcome:
  "pc_outcome pc_demo (pc_start 3 1)
     (\<lambda>es s. filter (\<lambda>e. e \<noteq> Tau) es = [Produced 7, Produced 9, Consumed 9]
        \<and> stored (buf s) = [7] \<and> consumers s = [CSignal] \<and> mutex s = Some (HC 0))"
  by code_simp

text \<open>All producers fill the buffer and wait.\<close>

definition pc_full :: "pc_move list" where
  "pc_full = [Co 0 0, Co 0 0] @ concat (replicate 5 (replicate 5 (Pr 0 7 0)))
     @ [Pr 0 7 0, Pr 0 7 0, Pr 1 7 0, Pr 1 7 0]"

lemma pc_full_outcome:
  "pc_outcome pc_full (pc_start 2 1)
     (\<lambda>es s. producers s = [PBlocked, PBlocked] \<and> count (buf s) = 5
        \<and> consumers s = [CRelock] \<and> mutex s = None)"
  by code_simp

section \<open>Mutual exclusion\<close>

text \<open>In every run, with any number of producers and consumers, at most one thread is
  between lock and unlock, and it is the one that holds the mutex.\<close>

theorem pc_mutual_exclusion:
  assumes "runs pc_step (pc_start np nc) es s"
  shows "(\<forall>k < length (producers s). p_locked (producers s ! k) \<longleftrightarrow> mutex s = Some (HP k))
    \<and> (\<forall>k < length (consumers s). c_locked (consumers s ! k) \<longleftrightarrow> mutex s = Some (HC k))"
  using cb_reach_inv [OF assms] by (auto simp: full_inv_def pc_inv_def inside_def)

theorem pc_mutual_exclusion_witness:
  "\<exists>es s. runs pc_step (pc_start 3 1) es s \<and> mutex s = Some (HC 0)
     \<and> (\<forall>k < length (producers s). \<not> p_locked (producers s ! k))"
proof -
  obtain es s where r: "runs pc_step (pc_start 3 1) es s" and m: "mutex s = Some (HC 0)"
    using pc_outcome_runs [OF pc_demo_outcome] by blast
  from pc_mutual_exclusion [OF r] r m show ?thesis by auto
qed

section \<open>The buffer is a stack of five places\<close>

text \<open>C6: every run refines a stack of at most five values: each value put is pushed on a
  stack that has room, each value the consumer prints is the top of a stack that is not
  empty, and the array holds the stack.\<close>

theorem pc_refines_stack:
  assumes "runs pc_step (pc_start np nc) es s"
  shows "replay (stack_spec MAX_SLOTS) es [] = Some (stored (buf s))"
proof -
  have "stored (buf (pc_start np nc)) = []" by (simp add: pc_start_def empty_buffer_def stored_def)
  with pc.run_refines [OF assms cb_start_inv] show ?thesis by simp
qed

theorem pc_refines_stack_witness:
  "\<exists>es s. runs pc_step (pc_start 3 1) es s \<and> replay (stack_spec MAX_SLOTS) es [] = Some [7]"
proof -
  obtain es s where r: "runs pc_step (pc_start 3 1) es s" and q: "stored (buf s) = [7]"
    using pc_outcome_runs [OF pc_demo_outcome] by blast
  from pc_refines_stack [OF r] r q show ?thesis by metis
qed

text \<open>In every reachable state \<open>i\<close> equals \<open>count\<close> and lies between 0 and 5, the free
  places hold 0, a consumer about to take has something to take and never reads outside the
  array, so its branch for \<open>i == 0\<close> and the producer's wrap at 5 are never needed.\<close>

theorem pc_index_is_count:
  assumes "runs pc_step (pc_start np nc) es s"
  shows "index_i (buf s) = count (buf s) \<and> 0 \<le> count (buf s) \<and> count (buf s) \<le> 5
    \<and> (\<forall>n. nat (count (buf s)) \<le> n \<and> n < 5 \<longrightarrow> queue (buf s) ! n = 0)
    \<and> CFault \<notin> set (consumers s)
    \<and> (CTake \<in> set (consumers s) \<longrightarrow> 0 < index_i (buf s) \<and> consume (buf s) \<noteq> None)
    \<and> (PPut \<in> set (producers s) \<longrightarrow> c_rem (index_i (buf s)) 5 = index_i (buf s))"
proof -
  have i: "pc_inv s" using cb_reach_inv [OF assms] by (simp add: full_inv_def)
  then have ok: "buf_ok (buf s)" by (simp add: pc_inv_def)
  then have c: "index_i (buf s) = count (buf s)" "0 \<le> count (buf s)" "count (buf s) \<le> 5"
    by (simp_all add: buf_ok_def MAX_SLOTS_def)
  have take: "0 < index_i (buf s) \<and> consume (buf s) \<noteq> None" if "CTake \<in> set (consumers s)"
    using can_take [OF i that] cb_consume_stored [OF ok] c by auto
  have put: "c_rem (index_i (buf s)) 5 = index_i (buf s)" if "PPut \<in> set (producers s)"
    using can_put [OF i that] c by (simp add: MAX_SLOTS_def)
  have "CFault \<notin> set (consumers s)" using i by (auto simp: pc_inv_def list_all_iff)
  then show ?thesis using c take put free_places_zero [OF ok] by blast
qed

theorem pc_index_is_count_witness:
  "\<exists>es s. runs pc_step (pc_start 3 1) es s \<and> stored (buf s) = [7]
     \<and> index_i (buf s) = count (buf s)"
proof -
  obtain es s where r: "runs pc_step (pc_start 3 1) es s" and q: "stored (buf s) = [7]"
    using pc_outcome_runs [OF pc_demo_outcome] by blast
  from pc_index_is_count [OF r] r q show ?thesis by auto
qed

section \<open>Freedom from deadlock\<close>

text \<open>C23: with at least one producer and one consumer the program never gets stuck: in every
  reachable state some thread can take a step without the help of a spurious wake-up.\<close>

theorem pc_no_deadlock:
  assumes "runs pc_step (pc_start np nc) es s" and "0 < np" and "0 < nc"
  shows "\<exists>e t. pc_thread_step s e t"
proof -
  have l: "length (producers s) = np" "length (consumers s) = nc"
    using cb_runs_same_threads [OF assms(1)] by (simp_all add: pc_start_def)
  have i: "pc_inv s" "wake_inv s" using cb_reach_inv [OF assms(1)] by (simp_all add: full_inv_def)
  show ?thesis
  proof (cases "mutex s")
    case None
    show ?thesis by (rule cb_free_can_step [OF i None]) (use l assms in auto)
  next
    case (Some h)
    then show ?thesis using cb_holder_can_step [OF i(1)] by blast
  qed
qed

theorem pc_no_deadlock_witness:
  "\<exists>es s e t. runs pc_step (pc_start 2 1) es s \<and> producers s = [PBlocked, PBlocked]
     \<and> pc_thread_step s e t"
proof -
  obtain es s where r: "runs pc_step (pc_start 2 1) es s" and b: "producers s = [PBlocked, PBlocked]"
    using pc_outcome_runs [OF pc_full_outcome] by blast
  from pc_no_deadlock [OF r] r b show ?thesis by auto
qed

end
