(* ===== verification/SemBuffer.thy ===== *)
theory SemBuffer
  imports StackSpec
begin

text \<open>
  The producers and consumers of \<open>process/semaphore/produecr_consumer/main.c\<close>: the same array
  of five places, guarded by two counting semaphores and a mutex, without a counter.
\<close>

section \<open>The buffer\<close>

definition MAX_SLOTS :: nat where "MAX_SLOTS = 5"

record buffer =
  queue :: "int list"
  index_i :: int

definition empty_buffer :: buffer where
  "empty_buffer = \<lparr>queue = replicate MAX_SLOTS 0, index_i = 0\<rparr>"

text \<open>The body of \<open>producer\<close> under the lock; the stored value is \<open>rand() % 100 + 1\<close>.\<close>

definition produce :: "int \<Rightarrow> buffer \<Rightarrow> buffer" where
  "produce v b =
     b\<lparr>queue := (queue b)[nat (index_i b) := v],
       index_i := c_rem (index_i b + 1) (int MAX_SLOTS)\<rparr>"

text \<open>The body of \<open>consumer\<close> under the lock: the printed value and the buffer.\<close>

definition consume :: "buffer \<Rightarrow> int \<times> buffer" where
  "consume b =
     (let k = (if index_i b = 0 then int MAX_SLOTS else index_i b)
      in (queue b ! nat (k - 1),
          b\<lparr>queue := (queue b)[nat (k - 1) := 0], index_i := k - 1\<rparr>))"

section \<open>The threads\<close>

datatype producer_pc =
    PWait                \<comment> \<open>25: \<open>sem_wait(&empty_sem)\<close>\<close>
  | PLock                \<comment> \<open>26\<close>
  | PPut                 \<comment> \<open>27, mutex held\<close>
  | PUnlock              \<comment> \<open>31, mutex held\<close>
  | PPost                \<comment> \<open>32: \<open>sem_post(&full_sem)\<close>\<close>

datatype consumer_pc =
    CWait                \<comment> \<open>41: \<open>sem_wait(&full_sem)\<close>\<close>
  | CLock                \<comment> \<open>42\<close>
  | CTake                \<comment> \<open>43, mutex held\<close>
  | CUnlock              \<comment> \<open>46, mutex held\<close>
  | CPost                \<comment> \<open>47: \<open>sem_post(&empty_sem)\<close>\<close>

datatype holder = HP nat | HC nat

record sb_sys =
  buf :: buffer
  empty_sem :: int
  full_sem :: int
  mutex :: "holder option"
  producers :: "producer_pc list"
  consumers :: "consumer_pc list"

abbreviation set_producer :: "nat \<Rightarrow> producer_pc \<Rightarrow> sb_sys \<Rightarrow> sb_sys" where
  "set_producer k pc s \<equiv> s\<lparr>producers := (producers s)[k := pc]\<rparr>"

abbreviation set_consumer :: "nat \<Rightarrow> consumer_pc \<Rightarrow> sb_sys \<Rightarrow> sb_sys" where
  "set_consumer k pc s \<equiv> s\<lparr>consumers := (consumers s)[k := pc]\<rparr>"

definition producer :: "nat \<Rightarrow> int \<Rightarrow> sb_sys \<Rightarrow> (buf_event \<times> sb_sys) option" where
  "producer k v s =
     (case producers s ! k of
        PWait \<Rightarrow>
          if 0 < empty_sem s then Some (Tau, (set_producer k PLock s)\<lparr>empty_sem := empty_sem s - 1\<rparr>)
          else None
      | PLock \<Rightarrow>
          if mutex s = None then Some (Tau, (set_producer k PPut s)\<lparr>mutex := Some (HP k)\<rparr>)
          else None
      | PPut \<Rightarrow> Some (Produced v, (set_producer k PUnlock s)\<lparr>buf := produce v (buf s)\<rparr>)
      | PUnlock \<Rightarrow> Some (Tau, (set_producer k PPost s)\<lparr>mutex := None\<rparr>)
      | PPost \<Rightarrow> Some (Tau, (set_producer k PWait s)\<lparr>full_sem := full_sem s + 1\<rparr>))"

definition consumer :: "nat \<Rightarrow> sb_sys \<Rightarrow> (buf_event \<times> sb_sys) option" where
  "consumer k s =
     (case consumers s ! k of
        CWait \<Rightarrow>
          if 0 < full_sem s then Some (Tau, (set_consumer k CLock s)\<lparr>full_sem := full_sem s - 1\<rparr>)
          else None
      | CLock \<Rightarrow>
          if mutex s = None then Some (Tau, (set_consumer k CTake s)\<lparr>mutex := Some (HC k)\<rparr>)
          else None
      | CTake \<Rightarrow>
          (case consume (buf s) of
             (v, b) \<Rightarrow> Some (Consumed v, (set_consumer k CUnlock s)\<lparr>buf := b\<rparr>))
      | CUnlock \<Rightarrow> Some (Tau, (set_consumer k CPost s)\<lparr>mutex := None\<rparr>)
      | CPost \<Rightarrow> Some (Tau, (set_consumer k CWait s)\<lparr>empty_sem := empty_sem s + 1\<rparr>))"

inductive sb_step :: "sb_sys \<Rightarrow> buf_event \<Rightarrow> sb_sys \<Rightarrow> bool" where
  produce: "k < length (producers s) \<Longrightarrow> 1 \<le> v \<Longrightarrow> v \<le> 100 \<Longrightarrow> producer k v s = Some (e, t) \<Longrightarrow>
     sb_step s e t"
| consume: "k < length (consumers s) \<Longrightarrow> consumer k s = Some (e, t) \<Longrightarrow> sb_step s e t"

text \<open>\<open>main\<close>: the semaphores start at 5 and 0.\<close>

definition sb_start :: "nat \<Rightarrow> nat \<Rightarrow> sb_sys" where
  "sb_start np nc =
     \<lparr>buf = empty_buffer, empty_sem = 5, full_sem = 0, mutex = None,
      producers = replicate np PWait, consumers = replicate nc CWait\<rparr>"

section \<open>The buffer is a stack\<close>

text \<open>
  Produced values are not 0, so the stored values are those before the first 0; the index
  is their number modulo 5.
\<close>

definition stored :: "buffer \<Rightarrow> int list" where
  "stored b = takeWhile (\<lambda>v. v \<noteq> 0) (queue b)"

definition buf_ok :: "buffer \<Rightarrow> bool" where
  "buf_ok b \<longleftrightarrow>
     queue b = stored b @ replicate (MAX_SLOTS - length (stored b)) 0
     \<and> length (stored b) \<le> MAX_SLOTS
     \<and> index_i b = int (length (stored b) mod MAX_SLOTS)"

lemma stored_nonzero: "v \<in> set (stored b) \<Longrightarrow> v \<noteq> 0"
  by (auto simp: stored_def dest: set_takeWhileD)

lemma takeWhile_filled:
  "\<forall>v \<in> set xs. v \<noteq> 0 \<Longrightarrow> takeWhile (\<lambda>v. v \<noteq> 0) (xs @ replicate n (0::int)) = xs"
  by (induction xs) (cases n; simp)+

text \<open>A buffer is known from its values.\<close>

lemma buffer_of:
  assumes "queue b = xs @ replicate (MAX_SLOTS - length xs) 0" "\<forall>v \<in> set xs. v \<noteq> 0"
    and "length xs \<le> MAX_SLOTS" "index_i b = int (length xs mod MAX_SLOTS)"
  shows "stored b = xs \<and> buf_ok b"
proof -
  have "stored b = xs" using assms(1,2) by (simp add: stored_def takeWhile_filled)
  then show ?thesis using assms by (simp add: buf_ok_def)
qed

lemma sem_produce_stored:
  assumes ok: "buf_ok b" and v: "v \<noteq> 0" and room: "length (stored b) < MAX_SLOTS"
  shows "stored (produce v b) = stored b @ [v] \<and> buf_ok (produce v b)"
proof (rule buffer_of)
  let ?n = "length (stored b)"
  have q: "queue b = stored b @ replicate (MAX_SLOTS - ?n) 0" and i: "index_i b = int ?n"
    using ok room by (simp_all add: buf_ok_def)
  have "replicate (MAX_SLOTS - ?n) (0::int) = 0 # replicate (MAX_SLOTS - Suc ?n) 0"
    using room by (simp flip: replicate_Suc add: Suc_diff_Suc)
  then show "queue (produce v b) = (stored b @ [v]) @ replicate (MAX_SLOTS - length (stored b @ [v])) 0"
    using q i by (simp add: produce_def list_update_append)
  show "index_i (produce v b) = int (length (stored b @ [v]) mod MAX_SLOTS)"
    using i by (simp add: produce_def zmod_int add.commute)
qed (use v room stored_nonzero in auto)

lemma sem_consume_stored:
  assumes ok: "buf_ok b" and ne: "stored b \<noteq> []"
  shows "fst (consume b) = last (stored b) \<and> stored (snd (consume b)) = butlast (stored b)
    \<and> buf_ok (snd (consume b))"
proof -
  obtain ys y where s: "stored b = ys @ [y]" using ne by (metis append_butlast_last_id)
  have len: "Suc (length ys) \<le> MAX_SLOTS" and q: "queue b = ys @ [y] @ replicate (MAX_SLOTS - Suc (length ys)) 0"
    and i: "index_i b = int (Suc (length ys) mod MAX_SLOTS)"
    using ok s by (simp_all add: buf_ok_def)
  have k: "(if index_i b = 0 then int MAX_SLOTS else index_i b) - 1 = int (length ys)"
    using i len by (cases "Suc (length ys) = MAX_SLOTS") (auto simp: MAX_SLOTS_def)
  have z: "0 # replicate (MAX_SLOTS - Suc (length ys)) (0::int) = replicate (MAX_SLOTS - length ys) 0"
    using len by (simp flip: replicate_Suc add: Suc_diff_Suc)
  have c: "consume b = (y, b\<lparr>queue := ys @ replicate (MAX_SLOTS - length ys) 0, index_i := int (length ys)\<rparr>)"
    using k q z by (simp add: consume_def Let_def list_update_append)
  have "stored (snd (consume b)) = ys \<and> buf_ok (snd (consume b))"
    by (rule buffer_of) (use c len s stored_nonzero [of _ b] in auto)
  then show ?thesis using c s by simp
qed

interpretation sem_stack: bounded_stack produce consume stored MAX_SLOTS buf_ok "\<lambda>v. v \<noteq> 0"
  by unfold_locales (simp_all add: sem_produce_stored sem_consume_stored)

end
