(* ===== verification/SemBufferProps.thy ===== *)
theory SemBufferProps
  imports SemBuffer
begin

text \<open>
  Every run of the semaphore version of the producers and consumers: the semaphores account
  for every place, so the buffer never overflows nor underflows although it keeps no
  counter, and the program cannot deadlock.
\<close>

section \<open>Invariants\<close>

fun p_locked :: "producer_pc \<Rightarrow> bool" where
  "p_locked PPut = True" | "p_locked PUnlock = True" | "p_locked _ = False"

fun c_locked :: "consumer_pc \<Rightarrow> bool" where
  "c_locked CTake = True" | "c_locked CUnlock = True" | "c_locked _ = False"

fun producer_of :: "holder option \<Rightarrow> nat option" where
  "producer_of (Some (HP k)) = Some k" | "producer_of _ = None"

fun consumer_of :: "holder option \<Rightarrow> nat option" where
  "consumer_of (Some (HC k)) = Some k" | "consumer_of _ = None"

lemma sem_producer_of_Some [simp]: "producer_of h = Some k \<longleftrightarrow> h = Some (HP k)"
  by (cases h rule: producer_of.cases) auto

lemma sem_consumer_of_Some [simp]: "consumer_of h = Some k \<longleftrightarrow> h = Some (HC k)"
  by (cases h rule: consumer_of.cases) auto

text \<open>A producer that holds a free place; one that has filled a place it has not announced.\<close>

definition has_place :: "producer_pc \<Rightarrow> bool" where "has_place pc \<longleftrightarrow> pc = PLock \<or> pc = PPut"
definition has_filled :: "producer_pc \<Rightarrow> bool" where "has_filled pc \<longleftrightarrow> pc = PUnlock \<or> pc = PPost"
definition has_value :: "consumer_pc \<Rightarrow> bool" where "has_value pc \<longleftrightarrow> pc = CLock \<or> pc = CTake"
definition has_emptied :: "consumer_pc \<Rightarrow> bool" where "has_emptied pc \<longleftrightarrow> pc = CUnlock \<or> pc = CPost"

lemmas place_defs = has_place_def has_filled_def has_value_def has_emptied_def

definition account :: "sb_sys \<Rightarrow> bool" where
  "account s \<longleftrightarrow>
     0 \<le> empty_sem s \<and> 0 \<le> full_sem s
     \<and> empty_sem s + count_if has_place (producers s) + int (length (stored (buf s)))
         + count_if has_emptied (consumers s) = int MAX_SLOTS
     \<and> full_sem s + count_if has_value (consumers s) + count_if has_filled (producers s)
         = int (length (stored (buf s)))"

fun holder_known :: "holder option \<Rightarrow> nat \<Rightarrow> nat \<Rightarrow> bool" where
  "holder_known None np nc = True"
| "holder_known (Some (HP k)) np nc = (k < np)"
| "holder_known (Some (HC k)) np nc = (k < nc)"

definition sb_inv :: "sb_sys \<Rightarrow> bool" where
  "sb_inv s \<longleftrightarrow>
     buf_ok (buf s)
     \<and> inside p_locked (producers s) (producer_of (mutex s))
     \<and> inside c_locked (consumers s) (consumer_of (mutex s))
     \<and> holder_known (mutex s) (length (producers s)) (length (consumers s))
     \<and> account s"

section \<open>Preservation\<close>

lemma sem_producer_holds:
  "sb_inv s \<Longrightarrow> k < length (producers s) \<Longrightarrow> p_locked (producers s ! k) \<Longrightarrow> mutex s = Some (HP k)"
  unfolding sb_inv_def using insideD by fastforce

lemma sem_consumer_holds:
  "sb_inv s \<Longrightarrow> k < length (consumers s) \<Longrightarrow> c_locked (consumers s ! k) \<Longrightarrow> mutex s = Some (HC k)"
  unfolding sb_inv_def using insideD by fastforce

lemma room_to_put:
  assumes "sb_inv s" "k < length (producers s)" "producers s ! k = PPut"
  shows "length (stored (buf s)) < MAX_SLOTS"
proof -
  have "0 < count_if has_place (producers s)"
    using count_if_pos [OF assms(2), of has_place] assms(3) by (simp add: has_place_def)
  moreover have "0 \<le> count_if has_emptied (consumers s)" by simp
  ultimately show ?thesis using assms(1) by (simp add: sb_inv_def account_def del: count_if_nonneg)
qed

lemma value_to_take:
  assumes "sb_inv s" "k < length (consumers s)" "consumers s ! k = CTake"
  shows "stored (buf s) \<noteq> []"
proof -
  have "0 < count_if has_value (consumers s)"
    using count_if_pos [OF assms(2), of has_value] assms(3) by (simp add: has_value_def)
  moreover have "0 \<le> count_if has_filled (producers s)" by simp
  ultimately show ?thesis using assms(1) by (auto simp: sb_inv_def account_def simp del: count_if_nonneg)
qed

lemma sb_producer:
  assumes "sb_inv s" "k < length (producers s)" "1 \<le> v" "producer k v s = Some (e, t)"
  shows "sb_inv t \<and> stack_spec MAX_SLOTS e (stored (buf s)) = Some (stored (buf t))"
proof (cases "producers s ! k")
  case PPut
  have m: "mutex s = Some (HP k)" using sem_producer_holds [OF assms(1,2)] PPut by simp
  have r: "length (stored (buf s)) < MAX_SLOTS" using room_to_put [OF assms(1,2) PPut] .
  show ?thesis using assms PPut m r sem_produce_stored [of "buf s" v]
    by (auto simp: producer_def sb_inv_def account_def count_if_update place_defs)
qed (use assms sem_producer_holds [OF assms(1,2)] in \<open>auto simp: producer_def sb_inv_def account_def
       count_if_update place_defs split: if_splits\<close>)

lemma sb_consumer:
  assumes "sb_inv s" "k < length (consumers s)" "consumer k s = Some (e, t)"
  shows "sb_inv t \<and> stack_spec MAX_SLOTS e (stored (buf s)) = Some (stored (buf t))"
proof (cases "consumers s ! k")
  case CTake
  have m: "mutex s = Some (HC k)" using sem_consumer_holds [OF assms(1,2)] CTake by simp
  have r: "stored (buf s) \<noteq> []" using value_to_take [OF assms(1,2) CTake] .
  then have "int (length (stored (buf s)) - Suc 0) = int (length (stored (buf s))) - 1"
    by (cases "stored (buf s)") simp_all
  then show ?thesis using assms CTake m r sem_consume_stored [of "buf s"]
    by (auto simp: consumer_def sb_inv_def account_def count_if_update place_defs split: prod.splits)
qed (use assms sem_consumer_holds [OF assms(1,2)] in \<open>auto simp: consumer_def sb_inv_def account_def
       count_if_update place_defs split: if_splits\<close>)

lemma sb_step_inv:
  "sb_step s e t \<Longrightarrow> sb_inv s \<Longrightarrow>
    sb_inv t \<and> stack_spec MAX_SLOTS e (stored (buf s)) = Some (stored (buf t))"
proof (induction rule: sb_step.induct)
  case (produce k s v e t)
  then show ?case using sb_producer by blast
next
  case (consume k s e t)
  then show ?case using sb_consumer by blast
qed

interpretation sb: refined_system sb_step sb_inv "\<lambda>s. stored (buf s)" "stack_spec MAX_SLOTS"
  by unfold_locales (auto dest: sb_step_inv)

lemma sem_start_inv: "sb_inv (sb_start np nc)"
  by (simp add: sb_inv_def sb_start_def buf_ok_def empty_buffer_def stored_def account_def
      inside_replicate MAX_SLOTS_def place_defs takeWhile_replicate)

lemma sem_reach_inv: "runs sb_step (sb_start np nc) es s \<Longrightarrow> sb_inv s"
  by (rule sb.run_preserves [OF _ sem_start_inv])

lemma sem_runs_same_threads:
  "runs sb_step s es t \<Longrightarrow>
    length (producers t) = length (producers s) \<and> length (consumers t) = length (consumers s)"
proof (induction rule: runs.induct)
  case (snoc s es t e u)
  have "length (producers u) = length (producers t) \<and> length (consumers u) = length (consumers t)"
    using snoc.hyps(2)
    by (auto elim!: sb_step.cases simp: producer_def consumer_def
        split: producer_pc.splits consumer_pc.splits if_splits prod.splits)
  with snoc.IH show ?case by simp
qed simp

section \<open>Who can step\<close>

lemma sem_producer_moves:
  assumes "k < length (producers s)" "producers s ! k = PWait \<longrightarrow> 0 < empty_sem s"
    "p_locked (producers s ! k) \<or> mutex s = None"
  shows "\<exists>e t. sb_step s e t"
proof -
  have "\<exists>e t. producer k 1 s = Some (e, t)"
    using assms(2,3) by (cases "producers s ! k") (auto simp: producer_def)
  then show ?thesis using sb_step.produce [OF assms(1), of 1] by auto
qed

lemma sem_consumer_moves:
  assumes "k < length (consumers s)" "consumers s ! k = CWait \<longrightarrow> 0 < full_sem s"
    "c_locked (consumers s ! k) \<or> mutex s = None"
  shows "\<exists>e t. sb_step s e t"
proof -
  have "\<exists>e t. consumer k s = Some (e, t)"
    using assms(2,3) by (cases "consumers s ! k") (auto simp: consumer_def split: prod.splits)
  then show ?thesis using sb_step.consume [OF assms(1)] by auto
qed

lemma sem_holder_can_step:
  assumes "sb_inv s" "mutex s = Some h"
  shows "\<exists>e t. sb_step s e t"
proof (cases h)
  case (HP k)
  have "k < length (producers s)" using assms HP by (simp add: sb_inv_def)
  moreover then have "p_locked (producers s ! k)"
    using assms HP by (auto simp: sb_inv_def inside_def)
  ultimately show ?thesis by (intro sem_producer_moves [of k]) auto
next
  case (HC k)
  have "k < length (consumers s)" using assms HC by (simp add: sb_inv_def)
  moreover then have "c_locked (consumers s ! k)"
    using assms HC by (auto simp: sb_inv_def inside_def)
  ultimately show ?thesis by (intro sem_consumer_moves [of k]) auto
qed

lemma all_waiting_semaphores:
  assumes "sb_inv s" "list_all (\<lambda>pc. pc = PWait) (producers s)" "list_all (\<lambda>pc. pc = CWait) (consumers s)"
  shows "empty_sem s + full_sem s = int MAX_SLOTS"
proof -
  have "count_if P (producers s) = 0" if "\<not> P PWait" for P
    using assms(2) that by (auto simp: count_if_eq_0 list_all_iff)
  moreover have "count_if P (consumers s) = 0" if "\<not> P CWait" for P
    using assms(3) that by (auto simp: count_if_eq_0 list_all_iff)
  ultimately show ?thesis using assms(1) by (simp add: sb_inv_def account_def place_defs)
qed

lemma sem_free_can_step:
  assumes "sb_inv s" "mutex s = None" "producers s \<noteq> []" "consumers s \<noteq> []"
  shows "\<exists>e t. sb_step s e t"
proof (cases "list_all (\<lambda>pc. pc = PWait) (producers s) \<and> list_all (\<lambda>pc. pc = CWait) (consumers s)")
  case True
  then have "empty_sem s + full_sem s = int MAX_SLOTS" using all_waiting_semaphores assms(1) by blast
  then have "0 < empty_sem s \<or> 0 < full_sem s" by (auto simp: MAX_SLOTS_def)
  then show ?thesis
    using sem_producer_moves [of 0 s] sem_consumer_moves [of 0 s] assms(2-4) by auto
next
  case False
  then obtain k where "(k < length (producers s) \<and> producers s ! k \<noteq> PWait)
      \<or> (k < length (consumers s) \<and> consumers s ! k \<noteq> CWait)"
    by (auto simp: list_all_length)
  then show ?thesis using sem_producer_moves [of k s] sem_consumer_moves [of k s] assms(2) by auto
qed

section \<open>Schedules\<close>

datatype sb_move = Pr nat int | Co nat

fun sb_exec :: "sb_move \<Rightarrow> sb_sys \<Rightarrow> (buf_event \<times> sb_sys) option" where
  "sb_exec (Pr k v) s =
     (if k < length (producers s) \<and> 1 \<le> v \<and> v \<le> 100 then producer k v s else None)"
| "sb_exec (Co k) s = (if k < length (consumers s) then consumer k s else None)"

lemma sb_exec_step: "sb_exec m s = Some (e, t) \<Longrightarrow> sb_step s e t"
  by (cases m) (auto intro: sb_step.intros split: if_splits)

definition sb_outcome :: "sb_move list \<Rightarrow> sb_sys \<Rightarrow> (buf_event list \<Rightarrow> sb_sys \<Rightarrow> bool) \<Rightarrow> bool" where
  "sb_outcome ms s P = (case follow sb_exec ms s of None \<Rightarrow> False | Some (es, t) \<Rightarrow> P es t)"

lemma sb_outcome_runs: "sb_outcome ms s P \<Longrightarrow> \<exists>es t. runs sb_step s es t \<and> P es t"
  unfolding sb_outcome_def
  by (auto split: option.splits intro: follow_runs sb_exec_step)

text \<open>Two producers fill the five places, the consumer takes the last value.\<close>

definition sb_demo :: "sb_move list" where
  "sb_demo = concat (map (\<lambda>v. replicate 5 (Pr 0 v)) [1, 2, 3, 4]) @ replicate 5 (Pr 1 9)
     @ replicate 3 (Co 0)"

lemma sb_demo_outcome:
  "sb_outcome sb_demo (sb_start 3 1)
     (\<lambda>es s. filter (\<lambda>e. e \<noteq> Tau) es =
          [Produced 1, Produced 2, Produced 3, Produced 4, Produced 9, Consumed 9]
        \<and> stored (buf s) = [1, 2, 3, 4] \<and> index_i (buf s) = 4 \<and> mutex s = Some (HC 0)
        \<and> empty_sem s = 0)"
  by code_simp

section \<open>Properties\<close>

text \<open>C14: in every run, with any number of producers and consumers, the buffer is a stack of at
  most five values: a producer never overwrites a value nobody took, a consumer never takes
  an empty place, and every consumer prints the value put last among those not taken.\<close>

theorem sb_refines_stack:
  assumes "runs sb_step (sb_start np nc) es s"
  shows "replay (stack_spec MAX_SLOTS) es [] = Some (stored (buf s))"
proof -
  have "stored (buf (sb_start np nc)) = []"
    by (simp add: sb_start_def empty_buffer_def stored_def takeWhile_replicate)
  with sb.run_refines [OF assms sem_start_inv] show ?thesis by simp
qed

theorem sb_refines_stack_witness:
  "\<exists>es s. runs sb_step (sb_start 3 1) es s
     \<and> replay (stack_spec MAX_SLOTS) es [] = Some [1, 2, 3, 4]"
proof -
  obtain es s where r: "runs sb_step (sb_start 3 1) es s" and q: "stored (buf s) = [1, 2, 3, 4]"
    using sb_outcome_runs [OF sb_demo_outcome] by blast
  from sb_refines_stack [OF r] r q show ?thesis by metis
qed

text \<open>The two semaphores account for every place: each of the five is free and counted by
  \<open>empty_sem\<close>, held by a producer or a consumer, or counted by \<open>full_sem\<close>; at most one
  thread is in the critical section; and \<open>i\<close> is the number of values modulo 5.\<close>

theorem sb_accounting:
  assumes "runs sb_step (sb_start np nc) es s"
  shows "empty_sem s + full_sem s
      + count_if (\<lambda>pc. pc \<noteq> PWait) (producers s) + count_if (\<lambda>pc. pc \<noteq> CWait) (consumers s) = 5
    \<and> 0 \<le> empty_sem s \<and> 0 \<le> full_sem s
    \<and> (\<forall>k < length (producers s). p_locked (producers s ! k) \<longleftrightarrow> mutex s = Some (HP k))
    \<and> (\<forall>k < length (consumers s). c_locked (consumers s ! k) \<longleftrightarrow> mutex s = Some (HC k))
    \<and> index_i (buf s) = int (length (stored (buf s)) mod 5)"
proof -
  have i: "sb_inv s" by (rule sem_reach_inv [OF assms])
  have "count_if (\<lambda>pc. pc \<noteq> PWait) xs = count_if has_place xs + count_if has_filled xs" for xs
  proof (induction xs)
    case (Cons pc xs) then show ?case by (cases pc) (simp_all add: place_defs)
  qed simp
  moreover have "count_if (\<lambda>pc. pc \<noteq> CWait) xs = count_if has_value xs + count_if has_emptied xs" for xs
  proof (induction xs)
    case (Cons pc xs) then show ?case by (cases pc) (simp_all add: place_defs)
  qed simp
  ultimately show ?thesis using i
    by (simp add: sb_inv_def account_def inside_def buf_ok_def MAX_SLOTS_def)
qed

theorem sb_accounting_witness:
  "\<exists>es s. runs sb_step (sb_start 3 1) es s \<and> stored (buf s) = [1, 2, 3, 4] \<and> index_i (buf s) = 4
     \<and> full_sem s + count_if (\<lambda>pc. pc \<noteq> PWait) (producers s)
         + count_if (\<lambda>pc. pc \<noteq> CWait) (consumers s) = 5"
proof -
  obtain es s where r: "runs sb_step (sb_start 3 1) es s" and q: "stored (buf s) = [1, 2, 3, 4]"
    and e: "empty_sem s = 0"
    using sb_outcome_runs [OF sb_demo_outcome] by blast
  have "index_i (buf s) = 4 \<and> full_sem s + count_if (\<lambda>pc. pc \<noteq> PWait) (producers s)
         + count_if (\<lambda>pc. pc \<noteq> CWait) (consumers s) = 5"
    using sb_accounting [OF r] q e by simp
  then show ?thesis using r q by blast
qed

text \<open>C16: with at least one producer and one consumer, some thread can always take a step: the
  program never stands still, whatever order the threads run in.\<close>

theorem sb_no_deadlock:
  assumes "runs sb_step (sb_start np nc) es s" and "0 < np" and "0 < nc"
  shows "\<exists>e t. sb_step s e t"
proof -
  have l: "length (producers s) = np" "length (consumers s) = nc"
    using sem_runs_same_threads [OF assms(1)] by (simp_all add: sb_start_def)
  have i: "sb_inv s" by (rule sem_reach_inv [OF assms(1)])
  show ?thesis
  proof (cases "mutex s")
    case None
    show ?thesis by (rule sem_free_can_step [OF i None]) (use l assms in auto)
  qed (use sem_holder_can_step [OF i] in blast)
qed

theorem sb_no_deadlock_witness:
  "\<exists>es s e t. runs sb_step (sb_start 3 1) es s \<and> empty_sem s = 0 \<and> sb_step s e t"
proof -
  obtain es s where r: "runs sb_step (sb_start 3 1) es s" and e: "empty_sem s = 0"
    using sb_outcome_runs [OF sb_demo_outcome] by blast
  from sb_no_deadlock [OF r] r e show ?thesis by auto
qed

end
