(* ===== verification/ReaderWriter.thy ===== *)
theory ReaderWriter
  imports Prelude
begin

text \<open>
  The readers and the writer of \<open>process/semaphore/reader_writer/main.c\<close>: four semaphores and
  a flag, readers first. Any number of readers and, as in \<open>main\<close>, one writer.
\<close>

section \<open>Shared data\<close>

definition buf_size :: nat where "buf_size = 4096"

text \<open>The literal of the writer with its terminating zero: \<open>sizeof(tmp)\<close> is 12.\<close>

definition NUL :: char where "NUL = char_of (0::nat)"

definition tmp :: string where "tmp = ''hello linux'' @ [NUL]"

lemma length_tmp [simp]: "length tmp = 12"
  by (simp add: tmp_def)

lemma buf_size_pos [simp]: "0 < buf_size" "buf_size \<noteq> 0"
  by (simp_all add: buf_size_def)

text \<open>
  What \<open>printf("%s")\<close> prints of an array of \<open>m\<close> bytes from index \<open>n\<close>: the bytes before the
  first zero byte, \<open>None\<close> when there is none in the array.
\<close>

function cstring :: "(nat \<Rightarrow> char) \<Rightarrow> nat \<Rightarrow> nat \<Rightarrow> string option" where
  "cstring f n m =
     (if m \<le> n then None
      else if f n = NUL then Some []
      else map_option (\<lambda>cs. f n # cs) (cstring f (Suc n) m))"
  by pat_completeness auto
termination by (relation "measure (\<lambda>(f, n, m). m - n)") auto

declare cstring.simps [simp del]


section \<open>Threads\<close>

datatype reader_pc =
    RWaitCount           \<comment> \<open>28\<close>
  | RTestFirst           \<comment> \<open>29, holds \<open>count_sem\<close>\<close>
  | RWaitWrite           \<comment> \<open>30\<close>
  | RIncr                \<comment> \<open>32\<close>
  | RPostCount           \<comment> \<open>33\<close>
  | RWaitSize            \<comment> \<open>35\<close>
  | RTestSize            \<comment> \<open>37, holds \<open>datasize_sem\<close>\<close>
  | RFlag                \<comment> \<open>38\<close>
  | RLend                \<comment> \<open>39: \<open>sem_post(&write_sem)\<close>\<close>
  | RWaitData            \<comment> \<open>40\<close>
  | RRetake              \<comment> \<open>41: \<open>sem_wait(&write_sem)\<close>\<close>
  | RPostSize            \<comment> \<open>43\<close>
  | RPrint               \<comment> \<open>46\<close>
  | RWaitCount2          \<comment> \<open>48\<close>
  | RDecr                \<comment> \<open>49\<close>
  | RTestLast            \<comment> \<open>50\<close>
  | RPostWrite           \<comment> \<open>51\<close>
  | RPostCount2          \<comment> \<open>53\<close>

datatype writer_pc =
    WWait                \<comment> \<open>64\<close>
  | WPut                 \<comment> \<open>66, holds \<open>write_sem\<close>\<close>
  | WPrint               \<comment> \<open>69\<close>
  | WPost                \<comment> \<open>74\<close>
  | WTestFlag            \<comment> \<open>75\<close>
  | WPostData            \<comment> \<open>76\<close>
  | WClear               \<comment> \<open>77\<close>
  | WMod                 \<comment> \<open>79\<close>
  | WFault               \<comment> \<open>a store beyond the array\<close>

record rw_sys =
  count_sem :: int
  write_sem :: int
  data_sem :: int
  datasize_sem :: int
  buf :: "nat \<Rightarrow> char"
  datasize :: nat
  readcount :: int
  flag :: int
  readers :: "reader_pc list"
  writer_pc :: writer_pc
  tmp_index :: nat             \<comment> \<open>the writer's \<open>i\<close>\<close>

datatype rw_event = Tau | ReadData "string option" | WroteData string

abbreviation set_reader :: "nat \<Rightarrow> reader_pc \<Rightarrow> rw_sys \<Rightarrow> rw_sys" where
  "set_reader k pc s \<equiv> s\<lparr>readers := (readers s)[k := pc]\<rparr>"

definition reader :: "nat \<Rightarrow> rw_sys \<Rightarrow> (rw_event \<times> rw_sys) option" where
  "reader k s =
     (case readers s ! k of
        RWaitCount \<Rightarrow>
          if 0 < count_sem s then Some (Tau, (set_reader k RTestFirst s)\<lparr>count_sem := count_sem s - 1\<rparr>)
          else None
      | RTestFirst \<Rightarrow>
          Some (Tau, set_reader k (if readcount s = 0 then RWaitWrite else RIncr) s)
      | RWaitWrite \<Rightarrow>
          if 0 < write_sem s then Some (Tau, (set_reader k RIncr s)\<lparr>write_sem := write_sem s - 1\<rparr>)
          else None
      | RIncr \<Rightarrow> Some (Tau, (set_reader k RPostCount s)\<lparr>readcount := readcount s + 1\<rparr>)
      | RPostCount \<Rightarrow> Some (Tau, (set_reader k RWaitSize s)\<lparr>count_sem := count_sem s + 1\<rparr>)
      | RWaitSize \<Rightarrow>
          if 0 < datasize_sem s
          then Some (Tau, (set_reader k RTestSize s)\<lparr>datasize_sem := datasize_sem s - 1\<rparr>)
          else None
      | RTestSize \<Rightarrow> Some (Tau, set_reader k (if datasize s = 0 then RFlag else RPostSize) s)
      | RFlag \<Rightarrow> Some (Tau, (set_reader k RLend s)\<lparr>flag := 1\<rparr>)
      | RLend \<Rightarrow> Some (Tau, (set_reader k RWaitData s)\<lparr>write_sem := write_sem s + 1\<rparr>)
      | RWaitData \<Rightarrow>
          if 0 < data_sem s then Some (Tau, (set_reader k RRetake s)\<lparr>data_sem := data_sem s - 1\<rparr>)
          else None
      | RRetake \<Rightarrow>
          if 0 < write_sem s then Some (Tau, (set_reader k RPostSize s)\<lparr>write_sem := write_sem s - 1\<rparr>)
          else None
      | RPostSize \<Rightarrow> Some (Tau, (set_reader k RPrint s)\<lparr>datasize_sem := datasize_sem s + 1\<rparr>)
      | RPrint \<Rightarrow> Some (ReadData (cstring (buf s) 0 buf_size), set_reader k RWaitCount2 s)
      | RWaitCount2 \<Rightarrow>
          if 0 < count_sem s then Some (Tau, (set_reader k RDecr s)\<lparr>count_sem := count_sem s - 1\<rparr>)
          else None
      | RDecr \<Rightarrow> Some (Tau, (set_reader k RTestLast s)\<lparr>readcount := readcount s - 1\<rparr>)
      | RTestLast \<Rightarrow> Some (Tau, set_reader k (if readcount s = 0 then RPostWrite else RPostCount2) s)
      | RPostWrite \<Rightarrow> Some (Tau, (set_reader k RPostCount2 s)\<lparr>write_sem := write_sem s + 1\<rparr>)
      | RPostCount2 \<Rightarrow> Some (Tau, (set_reader k RWaitCount s)\<lparr>count_sem := count_sem s + 1\<rparr>))"

definition writer :: "rw_sys \<Rightarrow> (rw_event \<times> rw_sys) option" where
  "writer s =
     (case writer_pc s of
        WWait \<Rightarrow>
          if 0 < write_sem s then Some (Tau, s\<lparr>writer_pc := WPut, write_sem := write_sem s - 1\<rparr>)
          else None
      | WPut \<Rightarrow>
          if datasize s < buf_size \<and> tmp_index s < length tmp
          then Some (Tau, s\<lparr>writer_pc := WPrint, buf := (buf s)(datasize s := tmp ! tmp_index s),
                 datasize := datasize s + 1, tmp_index := tmp_index s + 1\<rparr>)
          else Some (Tau, s\<lparr>writer_pc := WFault\<rparr>)
      | WPrint \<Rightarrow> Some (WroteData (map (buf s) [0..<datasize s]), s\<lparr>writer_pc := WPost\<rparr>)
      | WPost \<Rightarrow> Some (Tau, s\<lparr>writer_pc := WTestFlag, write_sem := write_sem s + 1\<rparr>)
      | WTestFlag \<Rightarrow> Some (Tau, s\<lparr>writer_pc := (if flag s = 1 then WPostData else WMod)\<rparr>)
      | WPostData \<Rightarrow> Some (Tau, s\<lparr>writer_pc := WClear, data_sem := data_sem s + 1\<rparr>)
      | WClear \<Rightarrow> Some (Tau, s\<lparr>writer_pc := WMod, flag := 0\<rparr>)
      | WMod \<Rightarrow> Some (Tau, s\<lparr>writer_pc := WWait, tmp_index := tmp_index s mod length tmp\<rparr>)
      | WFault \<Rightarrow> None)"

inductive rw_step :: "rw_sys \<Rightarrow> rw_event \<Rightarrow> rw_sys \<Rightarrow> bool" where
  reads: "k < length (readers s) \<Longrightarrow> reader k s = Some (e, t) \<Longrightarrow> rw_step s e t"
| writes: "writer s = Some (e, t) \<Longrightarrow> rw_step s e t"

inductive_cases rw_stepE: "rw_step s e t"

definition rw_start :: "nat \<Rightarrow> rw_sys" where
  "rw_start nr =
     \<lparr>count_sem = 1, write_sem = 1, data_sem = 0, datasize_sem = 1, buf = (\<lambda>_. NUL), datasize = 0,
      readcount = 0, flag = 0, readers = replicate nr RWaitCount, writer_pc = WWait, tmp_index = 0\<rparr>"

section \<open>What the semaphores count\<close>

fun has_count :: "reader_pc \<Rightarrow> bool" where
  "has_count RTestFirst = True" | "has_count RWaitWrite = True" | "has_count RIncr = True"
| "has_count RPostCount = True" | "has_count RDecr = True" | "has_count RTestLast = True"
| "has_count RPostWrite = True" | "has_count RPostCount2 = True" | "has_count _ = False"

fun has_size :: "reader_pc \<Rightarrow> bool" where
  "has_size RTestSize = True" | "has_size RFlag = True" | "has_size RLend = True"
| "has_size RWaitData = True" | "has_size RRetake = True" | "has_size RPostSize = True"
| "has_size _ = False"

text \<open>Counted in \<open>readcount\<close>.\<close>

fun counted :: "reader_pc \<Rightarrow> bool" where
  "counted RPostCount = True" | "counted RWaitSize = True" | "counted RWaitCount2 = True"
| "counted RDecr = True" | "counted RPrint = True"
| "counted pc = has_size pc"

text \<open>Has found the buffer empty, and has lent the write permission.\<close>

fun found_empty :: "reader_pc \<Rightarrow> bool" where
  "found_empty RFlag = True" | "found_empty RLend = True" | "found_empty RWaitData = True"
| "found_empty RRetake = True" | "found_empty _ = False"

fun lent :: "reader_pc \<Rightarrow> bool" where
  "lent RWaitData = True" | "lent RRetake = True" | "lent _ = False"

text \<open>Knows that there is data.\<close>

fun has_data :: "reader_pc \<Rightarrow> bool" where
  "has_data RPostSize = True" | "has_data RPrint = True" | "has_data RWaitCount2 = True"
| "has_data RDecr = True" | "has_data _ = False"

text \<open>Holds the write permission for the readers while none is counted.\<close>

fun turning :: "reader_pc \<Rightarrow> bool" where
  "turning RIncr = True" | "turning RTestLast = True" | "turning RPostWrite = True"
| "turning _ = False"

fun writing :: "writer_pc \<Rightarrow> bool" where
  "writing WPut = True" | "writing WPrint = True" | "writing WPost = True" | "writing _ = False"

text \<open>The writer has written and not yet answered the flag.\<close>

fun answering :: "writer_pc \<Rightarrow> bool" where
  "answering WPrint = True" | "answering WPost = True" | "answering WTestFlag = True"
| "answering WPostData = True" | "answering _ = False"

abbreviation (input) readers_at :: "(reader_pc \<Rightarrow> bool) \<Rightarrow> rw_sys \<Rightarrow> int" where
  "readers_at P s \<equiv> count_if P (readers s)"

text \<open>
  The write permissions held by the readers, of their number and of those turning, and by
  the writer.
\<close>

definition held_by_readers :: "int \<Rightarrow> int \<Rightarrow> int" where
  "held_by_readers n m = (if 0 < n then 1 else m)"

definition held_by_writer :: "writer_pc \<Rightarrow> int" where
  "held_by_writer pc = (if writing pc \<or> pc = WFault then 1 else 0)"

definition sem_inv :: "rw_sys \<Rightarrow> bool" where
  "sem_inv s \<longleftrightarrow>
     0 \<le> count_sem s \<and> 0 \<le> datasize_sem s \<and> 0 \<le> write_sem s
     \<and> count_sem s + readers_at has_count s = 1
     \<and> datasize_sem s + readers_at has_size s = 1
     \<and> readcount s = readers_at counted s
     \<and> (0 < readers_at (\<lambda>pc. pc = RPostWrite) s \<longrightarrow> readcount s = 0)
     \<and> (0 < readers_at (\<lambda>pc. pc = RWaitWrite) s \<longrightarrow> readcount s = 0)
     \<and> held_by_writer (writer_pc s) + write_sem s + held_by_readers (readcount s) (readers_at turning s)
         = 1 + readers_at lent s"

text \<open>If some thread is there, then \<open>P\<close>.\<close>

definition when_some :: "int \<Rightarrow> bool \<Rightarrow> bool" where
  "when_some n P \<longleftrightarrow> (0 < n \<longrightarrow> P)"

lemma when_some_simps [simp]: "when_some 0 P" "when_some n True" "when_some 1 P \<longleftrightarrow> P"
  by (simp_all add: when_some_def)

lemma when_some_count [simp]: "when_some (count_if P xs) False \<longleftrightarrow> count_if P xs = 0"
  by (simp add: when_some_def count_if_pos_iff)

lemma when_some_mono: "when_some n P \<Longrightarrow> m \<le> n \<Longrightarrow> (P \<Longrightarrow> Q) \<Longrightarrow> when_some m Q"
  by (auto simp: when_some_def)

definition data_inv :: "rw_sys \<Rightarrow> bool" where
  "data_inv s \<longleftrightarrow>
     0 \<le> data_sem s
     \<and> when_some (readers_at found_empty s) (readers_at has_data s = 0)
     \<and> when_some (readers_at has_data s) (0 < datasize s)
     \<and> when_some (readers_at (\<lambda>pc. pc = RRetake) s) (0 < datasize s)
     \<and> when_some (data_sem s) (0 < datasize s)
     \<and> when_some (readers_at (\<lambda>pc. pc = RFlag \<or> pc = RLend) s) (datasize s = 0)
     \<and> when_some (readers_at (\<lambda>pc. pc = RLend) s) (flag s = 1)
     \<and> (writer_pc s = WWait \<or> writer_pc s = WPut \<or> 0 < datasize s)
     \<and> when_some (readers_at (\<lambda>pc. pc = RWaitData) s)
          (data_sem s = 0 \<longrightarrow> flag s = 1 \<and> (datasize s = 0 \<or> answering (writer_pc s)))"

text \<open>The buffer holds the literal repeated, its zero byte included.\<close>

definition text_inv :: "rw_sys \<Rightarrow> bool" where
  "text_inv s \<longleftrightarrow>
     datasize s \<le> buf_size
     \<and> (\<forall>n < datasize s. buf s n = tmp ! (n mod 12))
     \<and> (\<forall>n \<ge> datasize s. buf s n = NUL)
     \<and> (if writer_pc s = WWait \<or> writer_pc s = WPut then tmp_index s = datasize s mod 12
        else 0 < datasize s \<and> (writer_pc s = WFault \<or> tmp_index s = (datasize s - 1) mod 12 + 1))"

definition rw_inv :: "rw_sys \<Rightarrow> bool" where
  "rw_inv s \<longleftrightarrow> sem_inv s \<and> data_inv s \<and> text_inv s"

section \<open>Preservation\<close>

lemma class_le:
  "turning pc \<Longrightarrow> has_count pc" "pc = RPostWrite \<Longrightarrow> has_count pc" "pc = RWaitWrite \<Longrightarrow> has_count pc"
  "found_empty pc \<Longrightarrow> has_size pc" "pc = RWaitData \<Longrightarrow> has_size pc"
  "pc = RRetake \<Longrightarrow> has_size pc" "pc = RLend \<Longrightarrow> has_size pc" "pc = RFlag \<or> pc = RLend \<Longrightarrow> has_size pc"
  "lent pc \<Longrightarrow> counted pc"
  by (cases pc; simp; fail)+

text \<open>A reader that holds a semaphore is the only one in the section it guards.\<close>

lemma alone_count:
  assumes "sem_inv s" "k < length (readers s)" "has_count (readers s ! k)"
  shows "readers_at turning s = (if turning (readers s ! k) then 1 else 0)"
    and "readers_at (\<lambda>pc. pc = RPostWrite) s = (if readers s ! k = RPostWrite then 1 else 0)"
    and "readers_at (\<lambda>pc. pc = RWaitWrite) s = (if readers s ! k = RWaitWrite then 1 else 0)"
proof -
  have "readers_at has_count s \<le> 1" using assms(1) by (simp add: sem_inv_def)
  note alone = count_if_alone [where Q = has_count, OF this assms(2,3)]
  show "readers_at turning s = (if turning (readers s ! k) then 1 else 0)"
    "readers_at (\<lambda>pc. pc = RPostWrite) s = (if readers s ! k = RPostWrite then 1 else 0)"
    "readers_at (\<lambda>pc. pc = RWaitWrite) s = (if readers s ! k = RWaitWrite then 1 else 0)"
    by (rule alone, erule class_le)+
qed

lemma alone_size:
  assumes "sem_inv s" "k < length (readers s)" "has_size (readers s ! k)"
  shows "readers_at found_empty s = (if found_empty (readers s ! k) then 1 else 0)"
    and "readers_at (\<lambda>pc. pc = RWaitData) s = (if readers s ! k = RWaitData then 1 else 0)"
    and "readers_at (\<lambda>pc. pc = RRetake) s = (if readers s ! k = RRetake then 1 else 0)"
    and "readers_at (\<lambda>pc. pc = RLend) s = (if readers s ! k = RLend then 1 else 0)"
    and "readers_at (\<lambda>pc. pc = RFlag \<or> pc = RLend) s
        = (if readers s ! k = RFlag \<or> readers s ! k = RLend then 1 else 0)"
proof -
  have "readers_at has_size s \<le> 1" using assms(1) by (simp add: sem_inv_def)
  note alone = count_if_alone [where Q = has_size, OF this assms(2,3)]
  show "readers_at found_empty s = (if found_empty (readers s ! k) then 1 else 0)"
    "readers_at (\<lambda>pc. pc = RWaitData) s = (if readers s ! k = RWaitData then 1 else 0)"
    "readers_at (\<lambda>pc. pc = RRetake) s = (if readers s ! k = RRetake then 1 else 0)"
    "readers_at (\<lambda>pc. pc = RLend) s = (if readers s ! k = RLend then 1 else 0)"
    "readers_at (\<lambda>pc. pc = RFlag \<or> pc = RLend) s
        = (if readers s ! k = RFlag \<or> readers s ! k = RLend then 1 else 0)"
    by (rule alone, erule class_le)+
qed

lemma sem_reader_count:
  assumes "sem_inv s" "k < length (readers s)" "reader k s = Some (e, t)" "has_count (readers s ! k)"
  shows "sem_inv t"
proof -
  have pos: "counted (readers s ! k) \<Longrightarrow> 0 < readers_at counted s" by (rule count_if_pos [OF assms(2)])
  have c0: "0 \<le> readers_at counted s" by simp
  show ?thesis
    using assms alone_count [OF assms(1,2,4)] pos c0
    by (cases "readers s ! k")
      (auto simp: reader_def sem_inv_def held_by_readers_def count_if_update simp del: count_if_nonneg
        split: if_splits)
qed

lemma sem_reader_other:
  assumes "sem_inv s" "k < length (readers s)" "reader k s = Some (e, t)" "\<not> has_count (readers s ! k)"
  shows "sem_inv t"
  using assms
  by (cases "readers s ! k")
    (auto simp: reader_def sem_inv_def count_if_update split: if_splits)

end
