(* ===== verification/ReaderWriterProps.thy ===== *)
theory ReaderWriterProps
  imports ReaderWriter
begin

text \<open>
  Every run of the readers and the writer: readers and writer exclude each other, readers
  print only what was written, nobody is stuck, and the writer runs out of its array.
\<close>

section \<open>Preservation of the invariants\<close>

lemma reader_frame:
  assumes "reader k s = Some (e, t)"
  shows "buf t = buf s \<and> datasize t = datasize s \<and> writer_pc t = writer_pc s
    \<and> tmp_index t = tmp_index s"
  using assms by (cases "readers s ! k") (auto simp: reader_def split: if_splits)

lemma text_reader: "text_inv s \<Longrightarrow> reader k s = Some (e, t) \<Longrightarrow> text_inv t"
proof -
  assume i: "text_inv s" and "reader k s = Some (e, t)"
  then have "buf t = buf s" "datasize t = datasize s" "writer_pc t = writer_pc s"
    "tmp_index t = tmp_index s" using reader_frame by blast+
  then have "text_inv t = text_inv s" by (simp only: text_inv_def)
  with i show ?thesis by simp
qed

text \<open>A reader outside the section of \<open>datasize_sem\<close> changes nothing the data depend on.\<close>

lemma reader_outside:
  assumes "reader k s = Some (e, t)" "k < length (readers s)" "\<not> has_size (readers s ! k)"
  shows "readers t = (readers s)[k := readers t ! k] \<and> flag t = flag s \<and> data_sem t = data_sem s
    \<and> \<not> found_empty (readers t ! k) \<and> (has_data (readers t ! k) \<longrightarrow> has_data (readers s ! k))"
  using assms by (cases "readers s ! k") (auto simp: reader_def split: if_splits)

lemma count_if_update_le:
  "k < length xs \<Longrightarrow> (P y \<Longrightarrow> P (xs ! k)) \<Longrightarrow> count_if P (xs[k := y]) \<le> count_if P xs"
  by (simp add: count_if_update)

lemma data_reader_outside:
  assumes "data_inv s" "k < length (readers s)" "reader k s = Some (e, t)" "\<not> has_size (readers s ! k)"
  shows "data_inv t"
proof -
  define pc where "pc = readers t ! k"
  have u: "readers t = (readers s)[k := pc]" "flag t = flag s" "data_sem t = data_sem s"
    and p: "\<not> found_empty pc" "has_data pc \<Longrightarrow> has_data (readers s ! k)"
    using reader_outside [OF assms(3,2,4)] by (simp_all add: pc_def)
  note f = reader_frame [OF assms(3)]
  have le: "readers_at P t \<le> readers_at P s" if "\<And>pc. P pc \<Longrightarrow> found_empty pc" for P
    unfolding u(1) using that p(1) by (intro count_if_update_le [OF assms(2)]) blast
  have le: "readers_at found_empty t \<le> readers_at found_empty s"
    "readers_at (\<lambda>pc. pc = RRetake) t \<le> readers_at (\<lambda>pc. pc = RRetake) s"
    "readers_at (\<lambda>pc. pc = RFlag \<or> pc = RLend) t \<le> readers_at (\<lambda>pc. pc = RFlag \<or> pc = RLend) s"
    "readers_at (\<lambda>pc. pc = RLend) t \<le> readers_at (\<lambda>pc. pc = RLend) s"
    "readers_at (\<lambda>pc. pc = RWaitData) t \<le> readers_at (\<lambda>pc. pc = RWaitData) s"
    by (rule le; auto)+
  have hd: "readers_at has_data t \<le> readers_at has_data s"
    unfolding u(1) by (rule count_if_update_le [where P = has_data, OF assms(2) p(2)])
  then have hd0: "readers_at has_data t = 0" if "readers_at has_data s = 0"
    using that count_if_nonneg [of has_data "readers t"] by linarith
  note d = assms(1) [unfolded data_inv_def]
  have "when_some (readers_at found_empty t) (readers_at has_data t = 0)"
    by (rule when_some_mono [OF _ le(1) hd0]) (use d in simp_all)
  moreover have "when_some (readers_at has_data t) (0 < datasize s)"
    by (rule when_some_mono [OF _ hd]) (use d in simp_all)
  moreover have "when_some (readers_at (\<lambda>pc. pc = RRetake) t) (0 < datasize s)"
    by (rule when_some_mono [OF _ le(2)]) (use d in simp_all)
  moreover have "when_some (readers_at (\<lambda>pc. pc = RFlag \<or> pc = RLend) t) (datasize s = 0)"
    by (rule when_some_mono [OF _ le(3)]) (use d in simp_all)
  moreover have "when_some (readers_at (\<lambda>pc. pc = RLend) t) (flag s = 1)"
    by (rule when_some_mono [OF _ le(4)]) (use d in simp_all)
  moreover have "when_some (readers_at (\<lambda>pc. pc = RWaitData) t)
      (data_sem s = 0 \<longrightarrow> flag s = 1 \<and> (datasize s = 0 \<or> answering (writer_pc s)))"
    by (rule when_some_mono [OF _ le(5)]) (use d in simp_all)
  ultimately show ?thesis using d f u(2,3) unfolding data_inv_def by simp
qed

lemma data_reader_inside:
  assumes "sem_inv s" "data_inv s" "k < length (readers s)" "reader k s = Some (e, t)"
    "has_size (readers s ! k)"
  shows "data_inv t"
  using assms(2-) alone_size [OF assms(1,3,5)]
  by (cases "readers s ! k")
    (auto simp: reader_def data_inv_def count_if_update split: if_splits elim: when_some_mono)

lemma writer_frame:
  assumes "writer s = Some (e, t)"
  shows "readers t = readers s \<and> readcount t = readcount s \<and> count_sem t = count_sem s
    \<and> datasize_sem t = datasize_sem s
    \<and> held_by_writer (writer_pc t) + write_sem t = held_by_writer (writer_pc s) + write_sem s
    \<and> (0 \<le> write_sem s \<longrightarrow> 0 \<le> write_sem t)"
  using assms by (cases "writer_pc s") (auto simp: writer_def held_by_writer_def split: if_splits)

lemma sem_writer: "sem_inv s \<Longrightarrow> writer s = Some (e, t) \<Longrightarrow> sem_inv t"
  using writer_frame [of s e t] unfolding sem_inv_def by (elim conjE) (intro conjI; simp)

text \<open>While the writer writes, no reader is between its tests of the data.\<close>

lemma writing_excludes:
  assumes "sem_inv s" "data_inv s" "held_by_writer (writer_pc s) = 1"
  shows "readers_at counted s = 0 \<or> (0 < readers_at lent s \<and> readers_at has_data s = 0)"
proof (cases "readers_at counted s = 0")
  case False
  then have "0 < readers_at counted s" by (simp add: count_if_pos_iff)
  then have c: "0 < readcount s" using assms(1) by (simp add: sem_inv_def)
  have "1 + write_sem s + 1 = 1 + readers_at lent s" "0 \<le> write_sem s"
    using assms(1,3) c by (simp_all add: sem_inv_def held_by_readers_def)
  then have l: "0 < readers_at lent s" by linarith
  have "readers_at lent s \<le> readers_at found_empty s"
    by (rule count_if_mono) (erule lent.elims; simp)
  then have "0 < readers_at found_empty s" using l by linarith
  then have "readers_at has_data s = 0" using assms(2) by (simp add: data_inv_def when_some_def)
  with l show ?thesis by blast
qed simp

lemma lent_size: "lent pc \<Longrightarrow> has_size pc"
  by (cases pc) simp_all

lemma no_early_reader:
  assumes "sem_inv s" "data_inv s" "held_by_writer (writer_pc s) = 1"
  shows "readers_at (\<lambda>pc. pc = RFlag \<or> pc = RLend) s = 0"
proof (rule ccontr)
  assume "\<not> ?thesis"
  then obtain k where k: "k < length (readers s)" "readers s ! k = RFlag \<or> readers s ! k = RLend"
    by (metis (mono_tags, lifting) count_if_eq_0 in_set_conv_nth)
  have size: "has_size (readers s ! k)" and "counted (readers s ! k)" using k(2) by auto
  then have "0 < readers_at counted s" using k(1) by (intro count_if_pos)
  then have "0 < readers_at lent s" using writing_excludes [OF assms] by simp
  moreover have "readers_at has_size s \<le> 1" using assms(1) by (simp add: sem_inv_def)
  then have "readers_at lent s = 0"
    using count_if_alone [where Q = has_size and P = lent, OF _ k(1) size lent_size] k(2) by auto
  ultimately show False by simp
qed

lemma data_writer:
  assumes "data_inv s" "sem_inv s" "text_inv s" "writer s = Some (e, t)"
  shows "data_inv t"
proof -
  have f: "readers t = readers s" using writer_frame [OF assms(4)] by simp
  show ?thesis
  proof (cases "writer_pc s")
    case WPut
    have "held_by_writer (writer_pc s) = 1" using WPut by (simp add: held_by_writer_def)
    then have "readers_at (\<lambda>pc. pc = RFlag \<or> pc = RLend) s = 0"
      using no_early_reader [OF assms(2,1)] by blast
    then show ?thesis using assms WPut
      by (auto simp: writer_def data_inv_def text_inv_def split: if_splits elim: when_some_mono)
  next
    case WClear
    have "readers_at (\<lambda>pc. pc = RLend) s \<le> readers_at (\<lambda>pc. pc = RFlag \<or> pc = RLend) s"
      by (rule count_if_mono) simp
    moreover have "readers_at (\<lambda>pc. pc = RFlag \<or> pc = RLend) s = 0"
      using assms(1) WClear by (auto simp: data_inv_def)
    ultimately have "readers_at (\<lambda>pc. pc = RLend) s = 0"
      by (metis antisym count_if_nonneg)
    then show ?thesis using assms WClear
      by (auto simp: writer_def data_inv_def split: if_splits elim: when_some_mono)
  qed (use assms f in \<open>auto simp: writer_def data_inv_def split: if_splits elim: when_some_mono\<close>)
qed

lemma text_writer:
  assumes "text_inv s" "writer s = Some (e, t)"
  shows "text_inv t"
proof (cases "writer_pc s")
  case WPut
  then show ?thesis using assms
    by (auto simp: writer_def text_inv_def less_Suc_eq split: if_splits)
next
  case WMod
  have "((d - 1) mod 12 + 1) mod 12 = d mod 12" if "0 < d" for d :: nat
    using that by (simp add: mod_Suc_eq)
  then show ?thesis using assms WMod by (auto simp: writer_def text_inv_def mod_Suc_eq)
qed (use assms in \<open>auto simp: writer_def text_inv_def split: if_splits\<close>)

lemma rw_step_inv: "rw_step s e t \<Longrightarrow> rw_inv s \<Longrightarrow> rw_inv t"
proof (induction rule: rw_step.induct)
  case (reads k s e t)
  then have "sem_inv t" using sem_reader_count sem_reader_other unfolding rw_inv_def by blast
  moreover have "data_inv t"
    using reads data_reader_inside data_reader_outside unfolding rw_inv_def by blast
  ultimately show ?case using reads text_reader unfolding rw_inv_def by blast
next
  case (writes s e t)
  then show ?case using sem_writer data_writer text_writer unfolding rw_inv_def by blast
qed

interpretation rw: inductive_invariant rw_step rw_inv
  by unfold_locales (rule rw_step_inv)

lemma rw_start_inv: "rw_inv (rw_start nr)"
  by (simp add: rw_inv_def sem_inv_def data_inv_def text_inv_def rw_start_def held_by_writer_def
      held_by_readers_def)

lemma rw_reach: "runs rw_step (rw_start nr) es s \<Longrightarrow> rw_inv s"
  by (rule rw.run_preserves [OF _ rw_start_inv])

section \<open>What readers print\<close>

lemma cstring_prefix:
  "n \<le> j \<Longrightarrow> j < m \<Longrightarrow> f j = NUL \<Longrightarrow> (\<And>i. n \<le> i \<Longrightarrow> i < j \<Longrightarrow> f i \<noteq> NUL) \<Longrightarrow>
    cstring f n m = Some (map f [n..<j])"
proof (induction "j - n" arbitrary: n)
  case 0
  then show ?case by (simp add: cstring.simps [of f n m])
next
  case (Suc x)
  have "cstring f (Suc n) m = Some (map f [Suc n..<j])" by (rule Suc.hyps(1)) (use Suc in auto)
  then show ?case using Suc by (simp add: cstring.simps [of f n m] upt_conv_Cons)
qed

lemma tmp_nonzero: "i < 11 \<Longrightarrow> tmp ! i \<noteq> NUL"
proof -
  have "list_all (\<lambda>c. c \<noteq> NUL) (take 11 tmp)" by code_simp
  then show "i < 11 \<Longrightarrow> tmp ! i \<noteq> NUL" by (auto dest: list_all_nth [where i = i])
qed

lemma tmp_11: "tmp ! 11 = NUL"
  by (simp add: tmp_def)

lemma take_append_short: "j \<le> length xs \<Longrightarrow> take j (xs @ ys) = take j xs"
  by simp

lemma printed_text:
  assumes "text_inv s"
  shows "cstring (buf s) 0 buf_size = Some (take (min (datasize s) 11) ''hello linux'')"
proof -
  let ?j = "min (datasize s) 11"
  have b: "buf s i = tmp ! i" if "i < ?j" for i using assms that by (simp add: text_inv_def)
  have "buf s ?j = NUL"
  proof (cases "datasize s \<le> 11")
    case True
    then show ?thesis using assms by (simp add: text_inv_def)
  next
    case False
    then show ?thesis using assms tmp_11 by (simp add: text_inv_def)
  qed
  then have "cstring (buf s) 0 buf_size = Some (map (buf s) [0..<?j])"
    using b tmp_nonzero by (intro cstring_prefix) (auto simp: buf_size_def)
  also have "map (buf s) [0..<?j] = take ?j tmp"
    using b by (intro nth_equalityI) auto
  also have "take ?j tmp = take ?j ''hello linux''"
    unfolding tmp_def by (rule take_append_short) simp
  finally show ?thesis .
qed

lemma print_step:
  assumes "rw_inv s" "rw_step s e t"
  shows "case e of ReadData x \<Rightarrow> \<exists>j. 1 \<le> j \<and> j \<le> 11 \<and> x = Some (take j ''hello linux'') | _ \<Rightarrow> True"
  using assms(2)
proof cases
  case (reads k)
  show ?thesis
  proof (cases "readers s ! k = RPrint")
    case True
    then have "0 < readers_at has_data s" using reads(1) by (intro count_if_pos) auto
    then have "0 < datasize s" using assms(1) by (simp add: rw_inv_def data_inv_def when_some_def)
    then have "1 \<le> min (datasize s) 11 \<and> min (datasize s) 11 \<le> 11" by simp
    moreover have "e = ReadData (Some (take (min (datasize s) 11) ''hello linux''))"
      using reads(2) True printed_text [of s] assms(1) by (simp add: reader_def rw_inv_def)
    ultimately show ?thesis by (simp only: rw_event.case) blast
  next
    case False
    then have "e = Tau" using reads(2)
      by (cases "readers s ! k") (auto simp: reader_def split: if_splits)
    then show ?thesis by simp
  qed
next
  case writes
  then show ?thesis by (cases "writer_pc s") (auto simp: writer_def split: if_splits)
qed

section \<open>Who can step\<close>

lemma reader_moves:
  assumes "k < length (readers s)"
    "has_count (readers s ! k) \<and> readers s ! k \<noteq> RWaitWrite \<or> readers s ! k = RTestSize
     \<or> readers s ! k = RFlag \<or> readers s ! k = RLend \<or> readers s ! k = RPostSize \<or> readers s ! k = RPrint
     \<or> readers s ! k = RWaitSize \<and> 0 < datasize_sem s
     \<or> (readers s ! k = RWaitCount \<or> readers s ! k = RWaitCount2) \<and> 0 < count_sem s
     \<or> readers s ! k = RWaitData \<and> 0 < data_sem s
     \<or> (readers s ! k = RWaitWrite \<or> readers s ! k = RRetake) \<and> 0 < write_sem s"
  shows "\<exists>e t. rw_step s e t"
proof -
  have "\<exists>e t. reader k s = Some (e, t)"
    using assms(2) by (cases "readers s ! k") (auto simp: reader_def)
  then show ?thesis using rw_step.reads [OF assms(1)] by blast
qed

lemma writer_moves:
  "writer_pc s \<noteq> WFault \<Longrightarrow> writer_pc s = WWait \<longrightarrow> 0 < write_sem s \<Longrightarrow> \<exists>e t. rw_step s e t"
proof -
  assume "writer_pc s \<noteq> WFault" "writer_pc s = WWait \<longrightarrow> 0 < write_sem s"
  then have "\<exists>e t. writer s = Some (e, t)" by (cases "writer_pc s") (auto simp: writer_def)
  then show ?thesis using rw_step.writes by blast
qed

lemma reader_at:
  assumes "readers_at P s \<noteq> 0"
  obtains k where "k < length (readers s)" "P (readers s ! k)"
  using assms by (auto simp: count_if_eq_0 in_set_conv_nth)

text \<open>When the writer waits for its semaphore, the readers hold it and one of them can go on.\<close>

lemma readers_can_step:
  assumes "rw_inv s" "writer_pc s = WWait" "write_sem s = 0"
  shows "\<exists>e t. rw_step s e t"
proof -
  have si: "sem_inv s" using assms(1) by (simp add: rw_inv_def)
  then have h: "held_by_readers (readcount s) (readers_at turning s) = 1 + readers_at lent s"
    using assms(2,3) unfolding sem_inv_def held_by_writer_def by (elim conjE) simp
  show ?thesis
  proof (cases "0 < readcount s")
    case False
    then have "readers_at turning s = 1 + readers_at lent s" using h by (simp add: held_by_readers_def)
    then have "readers_at turning s \<noteq> 0" using count_if_nonneg [of lent "readers s"] by linarith
    then obtain k where "k < length (readers s)" "turning (readers s ! k)" by (rule reader_at)
    then show ?thesis by (intro reader_moves [of k]) (cases "readers s ! k"; simp)+
  next
    case True
    then have l: "readers_at lent s = 0" using h by (simp add: held_by_readers_def)
    show ?thesis
    proof (cases "readers_at has_size s = 0")
      case False
      then obtain k where k: "k < length (readers s)" "has_size (readers s ! k)" by (rule reader_at)
      moreover have "\<not> lent (readers s ! k)" using l k(1) by (auto simp: count_if_eq_0)
      ultimately show ?thesis by (intro reader_moves [of k]) (cases "readers s ! k"; simp)+
    next
      case noone: True
      show ?thesis
      proof (cases "readers_at has_count s = 0")
        case False
        then obtain k where k: "k < length (readers s)" "has_count (readers s ! k)" by (rule reader_at)
        have "readers s ! k \<noteq> RWaitWrite"
        proof
          assume "readers s ! k = RWaitWrite"
          then have "0 < readers_at (\<lambda>pc. pc = RWaitWrite) s" using k(1) by (intro count_if_pos) auto
          then show False using si \<open>0 < readcount s\<close> by (simp add: sem_inv_def)
        qed
        then show ?thesis using k by (intro reader_moves [of k]) simp_all
      next
        case free: True
        have "readers_at counted s \<noteq> 0" using \<open>0 < readcount s\<close> si by (auto simp: sem_inv_def)
        then obtain k where k: "k < length (readers s)" "counted (readers s ! k)" by (rule reader_at)
        moreover have "\<not> has_size (readers s ! k)" "\<not> has_count (readers s ! k)"
          using noone free k(1) by (auto simp: count_if_eq_0)
        moreover have "count_sem s = 1" "datasize_sem s = 1"
          using si noone free by (simp_all add: sem_inv_def)
        ultimately show ?thesis by (intro reader_moves [of k]) (cases "readers s ! k"; simp)+
      qed
    qed
  qed
qed

section \<open>The writer alone\<close>

text \<open>A round of the writer while no reader has started.\<close>

lemma writer_round:
  assumes "writer_pc s = WWait" "write_sem s = 1" "flag s = 0" "datasize s < buf_size"
    "tmp_index s < 12"
  shows "\<exists>es t. runs rw_step s es t \<and> writer_pc t = WWait \<and> write_sem t = 1 \<and> flag t = 0
    \<and> datasize t = Suc (datasize s) \<and> tmp_index t < 12 \<and> readers t = readers s"
proof -
  have "\<exists>es t. follow (\<lambda>u. writer) [(), (), (), (), (), ()] s = Some (es, t)
    \<and> writer_pc t = WWait \<and> write_sem t = 1 \<and> flag t = 0
    \<and> datasize t = Suc (datasize s) \<and> tmp_index t < 12 \<and> readers t = readers s"
    using assms by (simp add: writer_def)
  then obtain es t where f: "follow (\<lambda>u. writer) [(), (), (), (), (), ()] s = Some (es, t)"
    and t: "writer_pc t = WWait \<and> write_sem t = 1 \<and> flag t = 0
    \<and> datasize t = Suc (datasize s) \<and> tmp_index t < 12 \<and> readers t = readers s" by blast
  have "runs rw_step s es t" by (rule follow_runs [OF _ f]) (rule rw_step.writes)
  with t show ?thesis by blast
qed

lemma writer_fills:
  "n \<le> buf_size \<Longrightarrow> \<exists>es t. runs rw_step (rw_start nr) es t \<and> writer_pc t = WWait \<and> write_sem t = 1
    \<and> flag t = 0 \<and> datasize t = n \<and> tmp_index t < 12 \<and> readers t = replicate nr RWaitCount"
proof (induction n)
  case 0
  have "runs rw_step (rw_start nr) [] (rw_start nr)" by (rule runs.refl)
  then show ?case by (fastforce simp: rw_start_def)
next
  case (Suc n)
  then obtain es t where r: "runs rw_step (rw_start nr) es t" and t: "writer_pc t = WWait"
    "write_sem t = 1" "flag t = 0" "datasize t = n" "tmp_index t < 12" "readers t = replicate nr RWaitCount"
    by auto
  obtain es' u where r': "runs rw_step t es' u" and u: "writer_pc u = WWait" "write_sem u = 1"
    "flag u = 0" "datasize u = Suc n" "tmp_index u < 12" "readers u = replicate nr RWaitCount"
    using writer_round [OF t(1-3) _ t(5)] Suc.prems t by auto
  show ?case using runs_trans [OF r r'] u by blast
qed

section \<open>Schedules\<close>

datatype rw_move = Rd nat | Wr

fun rw_exec :: "rw_move \<Rightarrow> rw_sys \<Rightarrow> (rw_event \<times> rw_sys) option" where
  "rw_exec (Rd k) s = (if k < length (readers s) then reader k s else None)"
| "rw_exec Wr s = writer s"

lemma rw_exec_step: "rw_exec m s = Some (e, t) \<Longrightarrow> rw_step s e t"
  by (cases m) (auto intro: rw_step.intros split: if_splits)

definition rw_outcome :: "rw_move list \<Rightarrow> rw_sys \<Rightarrow> (rw_event list \<Rightarrow> rw_sys \<Rightarrow> bool) \<Rightarrow> bool" where
  "rw_outcome ms s P = (case follow rw_exec ms s of None \<Rightarrow> False | Some (es, t) \<Rightarrow> P es t)"

lemma rw_outcome_runs: "rw_outcome ms s P \<Longrightarrow> \<exists>es t. runs rw_step s es t \<and> P es t"
  unfolding rw_outcome_def
  by (auto split: option.splits intro: follow_runs rw_exec_step)

text \<open>The reader finds the buffer empty and lends the write permission; later it prints.\<close>

lemma rw_lend_outcome:
  "rw_outcome (replicate 9 (Rd 0) @ [Wr]) (rw_start 1)
     (\<lambda>es s. writer_pc s = WPut \<and> readers s = [RWaitData])"
  by code_simp

lemma rw_print_outcome:
  "rw_outcome (replicate 9 (Rd 0) @ replicate 7 Wr @ replicate 4 (Rd 0)) (rw_start 1)
     (\<lambda>es s. ReadData (Some ''h'') \<in> set es)"
  by code_simp

lemma early_excluded:
  assumes "sem_inv s" "k < length (readers s)" "0 < readers_at lent s"
  shows "readers s ! k \<noteq> RTestSize"
proof
  assume t: "readers s ! k = RTestSize"
  have "readers_at has_size s \<le> 1" using assms(1) by (simp add: sem_inv_def)
  from count_if_alone [where Q = has_size and P = lent, OF this assms(2) _ lent_size] t assms(3)
  show False by simp
qed

section \<open>Properties\<close>

text \<open>C24: readers and the writer exclude each other, in every run with any number of readers:
  while the writer holds \<open>write_sem\<close> (from storing a byte to posting the semaphore) no reader
  prints the buffer and none tests \<open>datasize\<close>.\<close>

theorem rw_exclusion:
  assumes "runs rw_step (rw_start nr) es s" and "writing (writer_pc s)" and "k < length (readers s)"
  shows "readers s ! k \<noteq> RPrint \<and> readers s ! k \<noteq> RTestSize \<and> 0 \<le> write_sem s"
proof -
  have i: "sem_inv s" "data_inv s" using rw_reach [OF assms(1)] by (simp_all add: rw_inv_def)
  have "held_by_writer (writer_pc s) = 1" using assms(2) by (simp add: held_by_writer_def)
  from writing_excludes [OF i this] early_excluded [OF i(1) assms(3)] i(1)
  show ?thesis using count_if_pos [OF assms(3), of counted] count_if_pos [OF assms(3), of has_data]
    by (auto simp: sem_inv_def)
qed

theorem rw_exclusion_witness:
  "\<exists>es s. runs rw_step (rw_start 1) es s \<and> writer_pc s = WPut \<and> readers s = [RWaitData]
     \<and> readers s ! 0 \<noteq> RPrint"
proof -
  obtain es s where r: "runs rw_step (rw_start 1) es s" and w: "writer_pc s = WPut"
    and l: "readers s = [RWaitData]"
    using rw_outcome_runs [OF rw_lend_outcome] by blast
  have "readers s ! 0 \<noteq> RPrint" using rw_exclusion [OF r, of 0] w l by simp
  then show ?thesis using r w l by blast
qed

text \<open>C25: a reader never prints an empty buffer nor reads beyond the array: what it prints is
  always a non-empty prefix of \<open>hello linux\<close>, because the byte that the writer stores after
  the eleventh is the terminating zero of its literal, whatever is stored behind it.\<close>

theorem rw_prints_prefix:
  assumes "runs rw_step (rw_start nr) es s" and "ReadData x \<in> set es"
  shows "\<exists>j. 1 \<le> j \<and> j \<le> 11 \<and> x = Some (take j ''hello linux'')"
proof -
  have "list_all (\<lambda>e. case e of ReadData x \<Rightarrow> \<exists>j. 1 \<le> j \<and> j \<le> 11 \<and> x = Some (take j ''hello linux'')
      | _ \<Rightarrow> True) es"
    by (rule rw.run_labels [OF _ assms(1) rw_start_inv]) (rule print_step)
  then show ?thesis using assms(2) by (auto simp: list_all_iff)
qed

theorem rw_prints_prefix_witness:
  "\<exists>es s j. runs rw_step (rw_start 1) es s \<and> ReadData (Some ''h'') \<in> set es
     \<and> 1 \<le> j \<and> j \<le> (11::nat) \<and> Some ''h'' = Some (take j ''hello linux'')"
proof -
  obtain es s where r: "runs rw_step (rw_start 1) es s" and e: "ReadData (Some ''h'') \<in> set es"
    using rw_outcome_runs [OF rw_print_outcome] by blast
  from rw_prints_prefix [OF r e] r e show ?thesis by blast
qed

text \<open>Until the writer leaves its array nobody is stuck: in every reachable state some
  thread can step, the readers' wait for data included.\<close>

theorem rw_no_deadlock:
  assumes "runs rw_step (rw_start nr) es s" and "writer_pc s \<noteq> WFault"
  shows "\<exists>e t. rw_step s e t"
proof (cases "writer_pc s = WWait \<and> write_sem s = 0")
  case True
  then show ?thesis using readers_can_step [OF rw_reach [OF assms(1)]] by blast
next
  case False
  have "0 \<le> write_sem s" using rw_reach [OF assms(1)] by (simp add: rw_inv_def sem_inv_def)
  then show ?thesis using writer_moves [OF assms(2)] False by fastforce
qed

theorem rw_no_deadlock_witness:
  "\<exists>es s e t. runs rw_step (rw_start 1) es s \<and> readers s = [RWaitData] \<and> rw_step s e t"
proof -
  obtain es s where r: "runs rw_step (rw_start 1) es s" and w: "writer_pc s = WPut"
    and l: "readers s = [RWaitData]"
    using rw_outcome_runs [OF rw_lend_outcome] by blast
  from rw_no_deadlock [OF r] r w l show ?thesis by auto
qed

text \<open>Nothing resets \<open>datasize\<close>: with any number of readers there is a run in which the
  writer fills the 4096 bytes and then stores beyond the array.\<close>

theorem rw_overflow:
  "\<exists>es s. runs rw_step (rw_start nr) es s \<and> writer_pc s = WFault \<and> datasize s = 4096"
proof -
  obtain es t where r: "runs rw_step (rw_start nr) es t" and t: "writer_pc t = WWait"
    "write_sem t = 1" "datasize t = buf_size"
    using writer_fills [of buf_size nr] by blast
  have "follow (\<lambda>u. writer) [(), ()] t = Some ([Tau, Tau], t\<lparr>write_sem := 0, writer_pc := WFault\<rparr>)"
    using t by (simp add: writer_def)
  then have "runs rw_step t [Tau, Tau] (t\<lparr>write_sem := 0, writer_pc := WFault\<rparr>)"
    by (rule follow_runs [rotated]) (rule rw_step.writes)
  from runs_trans [OF r this] show ?thesis using t by (fastforce simp: buf_size_def)
qed

end
