(* ===== verification/Epoll.thy ===== *)
theory Epoll
  imports Prelude "HOL-Library.Word"
begin

unbundle bit_operations_syntax

text \<open>
  The descriptors of a process and the interest list of one epoll instance, as the event
  loops of the repository use them: \<open>epoll_ctl\<close>, \<open>epoll_wait\<close>, \<open>accept\<close> and \<open>close\<close>. What
  the network does (which descriptors are ready, what a call returns) is an input.
\<close>

section \<open>Event masks\<close>

type_synonym mask = "32 word"

definition EPOLLIN :: mask where "EPOLLIN = 0x001"
definition EPOLLOUT :: mask where "EPOLLOUT = 0x004"
definition EPOLLET :: mask where "EPOLLET = 0x80000000"

definition has :: "mask \<Rightarrow> mask \<Rightarrow> bool" where
  "has m b \<longleftrightarrow> m AND b \<noteq> 0"

lemma has_simps [simp]:
  "has EPOLLIN EPOLLIN" "\<not> has EPOLLIN EPOLLOUT" "has EPOLLOUT EPOLLOUT" "\<not> has EPOLLOUT EPOLLIN"
  "\<not> has 0 b" "has (EPOLLIN OR EPOLLET) EPOLLIN" "\<not> has (EPOLLIN OR EPOLLET) EPOLLOUT"
  "\<not> has EPOLLIN EPOLLET" "has (EPOLLIN OR EPOLLET) EPOLLET"
  by (simp_all add: has_def EPOLLIN_def EPOLLOUT_def EPOLLET_def)

lemma masks_distinct [simp]: "EPOLLIN \<noteq> EPOLLOUT" "EPOLLOUT \<noteq> EPOLLIN" "EPOLLIN \<noteq> 0" "EPOLLOUT \<noteq> 0"
  by (simp_all add: EPOLLIN_def EPOLLOUT_def)

definition EPOLL_CTL_ADD :: int where "EPOLL_CTL_ADD = 1"
definition EPOLL_CTL_DEL :: int where "EPOLL_CTL_DEL = 2"
definition EPOLL_CTL_MOD :: int where "EPOLL_CTL_MOD = 3"

lemmas ctl_ops = EPOLL_CTL_ADD_def EPOLL_CTL_DEL_def EPOLL_CTL_MOD_def

section \<open>Descriptors and the interest list\<close>

text \<open>The user data \<open>'d\<close> of an entry is what the program puts into \<open>epoll_data\<close>.\<close>

record 'd kernel =
  opened :: "fd \<Rightarrow> bool"
  interest :: "fd \<Rightarrow> (mask \<times> 'd) option"

text \<open>\<open>epoll_ctl\<close> fails on a descriptor that is not open, adds only what is absent, changes
  and deletes only what is present, and knows no other operation.\<close>

definition epoll_ctl :: "int \<Rightarrow> fd \<Rightarrow> mask \<Rightarrow> 'd \<Rightarrow> 'd kernel \<Rightarrow> bool \<times> 'd kernel" where
  "epoll_ctl operation f m d k =
     (if \<not> opened k f then (False, k)
      else if operation = EPOLL_CTL_ADD \<and> interest k f = None
        \<or> operation = EPOLL_CTL_MOD \<and> interest k f \<noteq> None
      then (True, k\<lparr>interest := (interest k)(f := Some (m, d))\<rparr>)
      else if operation = EPOLL_CTL_DEL \<and> interest k f \<noteq> None
      then (True, k\<lparr>interest := (interest k)(f := None)\<rparr>)
      else (False, k))"

text \<open>Closing a descriptor removes it from the interest list.\<close>

definition close_fd :: "fd \<Rightarrow> 'd kernel \<Rightarrow> 'd kernel" where
  "close_fd f k = k\<lparr>opened := (opened k)(f := False), interest := (interest k)(f := None)\<rparr>"

definition open_fd :: "fd \<Rightarrow> 'd kernel \<Rightarrow> 'd kernel" where
  "open_fd f k = k\<lparr>opened := (opened k)(f := True)\<rparr>"

definition no_fds :: "'d kernel" where
  "no_fds = \<lparr>opened = (\<lambda>_. False), interest = (\<lambda>_. None)\<rparr>"

text \<open>A descriptor that a call may return: it is not negative and not in use.\<close>

definition fresh_fd :: "fd \<Rightarrow> 'd kernel \<Rightarrow> bool" where
  "fresh_fd f k \<longleftrightarrow> 0 \<le> f \<and> \<not> opened k f"

text \<open>What \<open>epoll_wait\<close> may return: entries of the interest list, each at most once, with
  events for reading or writing only when they were asked for.\<close>

definition ready_entry :: "'d kernel \<Rightarrow> fd \<times> mask \<times> 'd \<Rightarrow> bool" where
  "ready_entry k = (\<lambda>(f, r, d). case interest k f of
       None \<Rightarrow> False
     | Some (m, d') \<Rightarrow> d = d' \<and> (has r EPOLLIN \<longrightarrow> has m EPOLLIN) \<and> (has r EPOLLOUT \<longrightarrow> has m EPOLLOUT))"

definition ready_batch :: "'d kernel \<Rightarrow> (fd \<times> mask \<times> 'd) list \<Rightarrow> bool" where
  "ready_batch k es \<longleftrightarrow> distinct (map fst es) \<and> list_all (ready_entry k) es"

lemma ctl_simps [simp]:
  "opened k f \<Longrightarrow> interest k f = None \<Longrightarrow>
    epoll_ctl EPOLL_CTL_ADD f m d k = (True, k\<lparr>interest := (interest k)(f := Some (m, d))\<rparr>)"
  "\<not> opened k f \<Longrightarrow> epoll_ctl operation f m d k = (False, k)"
  "opened (snd (epoll_ctl operation f m d k)) = opened k"
  by (simp_all add: epoll_ctl_def)

lemma ctl_del [simp]: "opened k f \<Longrightarrow>
    snd (epoll_ctl EPOLL_CTL_DEL f m d k) = k\<lparr>interest := (interest k)(f := None)\<rparr>"
  by (cases "interest k f = None") (simp_all add: epoll_ctl_def ctl_ops fun_upd_idem)

lemma close_simps [simp]:
  "opened (close_fd f k) = (opened k)(f := False)" "interest (close_fd f k) = (interest k)(f := None)"
  "opened (open_fd f k) = (opened k)(f := True)" "interest (open_fd f k) = interest k"
  by (simp_all add: close_fd_def open_fd_def)

section \<open>Bytes in a buffer\<close>

text \<open>An array of bytes is a function; reading \<open>n\<close> of them, and storing bytes at its start.\<close>

definition bytes :: "nat \<Rightarrow> (nat \<Rightarrow> char) \<Rightarrow> string" where
  "bytes n b = map b [0..<n]"

definition store_bytes :: "string \<Rightarrow> (nat \<Rightarrow> char) \<Rightarrow> nat \<Rightarrow> char" where
  "store_bytes xs b = (\<lambda>n. if n < length xs then xs ! n else b n)"

lemma bytes_store [simp]: "bytes (length xs) (store_bytes xs b) = xs"
  by (auto simp: bytes_def store_bytes_def intro: nth_equalityI)

lemma bytes_upd [simp]: "n \<le> k \<Longrightarrow> bytes n (b(k := c)) = bytes n b"
  by (simp add: bytes_def)

lemma length_bytes [simp]: "length (bytes n b) = n"
  by (simp add: bytes_def)

lemma bytes_eq_Nil [simp]: "bytes n b = [] \<longleftrightarrow> n = 0"
  by (simp add: bytes_def)

end
