(* ===== verification/EpollReactor.thy ===== *)
theory EpollReactor
  imports Epoll
begin

text \<open>
  The event loop of \<open>IO\<close>-multiplexing server \<open>epoll/epoll_reactor/server.c\<close>: a table of
  connections with callbacks, each registered with epoll for reading or for writing, that
  echoes what it receives.
\<close>

section \<open>The table\<close>

definition MAX_EVENTS :: nat where "MAX_EVENTS = 1024"
definition BUFLEN :: nat where "BUFLEN = 4096"

datatype callback = Acceptconn | Recvdata | Senddata

record myevent_s =
  ev_fd :: fd
  ev_events :: mask
  ev_arg :: nat                      \<comment> \<open>a pointer into \<open>g_events\<close>, as an index\<close>
  ev_call_back :: "callback option"
  ev_status :: int
  ev_buf :: "nat \<Rightarrow> char"
  ev_len :: int
  ev_last_active :: int

record server =
  kern :: "nat kernel"
  g_efd :: fd                        \<comment> \<open>negative when \<open>epoll_create\<close> failed\<close>
  g_events :: "nat \<Rightarrow> myevent_s"
  pending :: "(fd \<times> mask \<times> nat) list"   \<comment> \<open>the rest of the array \<open>epoll_wait\<close> filled\<close>
  running :: bool

abbreviation set_ev :: "nat \<Rightarrow> myevent_s \<Rightarrow> server \<Rightarrow> server" where
  "set_ev i ev s \<equiv> s\<lparr>g_events := (g_events s)(i := ev)\<rparr>"

text \<open>What the calls of one callback return: \<open>accept\<close> and \<open>fcntl\<close>, \<open>recv\<close> (\<open>None\<close> for -1),
  \<open>send\<close> (\<open>None\<close> for -1, else how many bytes the socket can take) and \<open>time\<close>, and whether the
  kernel has no room for a further entry of the interest list, so that \<open>epoll_ctl\<close> fails.\<close>

record io =
  r_accept :: fd
  r_fcntl :: int
  r_recv :: "string option"
  r_send :: "nat option"
  r_time :: int
  r_add_fails :: bool

datatype net_event =
    NewConn fd
  | Leaked fd                        \<comment> \<open>accepted, and neither registered nor closed\<close>
  | Data fd string
  | Echo fd string
  | Closed fd
  | Lost fd                          \<comment> \<open>still open, but no longer registered\<close>

section \<open>The operations\<close>

definition eventset :: "nat \<Rightarrow> fd \<Rightarrow> callback \<Rightarrow> nat \<Rightarrow> int \<Rightarrow> server \<Rightarrow> server" where
  "eventset i f cb a now s =
     (let ev = g_events s i;
          ev' = ev\<lparr>ev_fd := f, ev_call_back := Some cb, ev_events := 0, ev_arg := a, ev_status := 0\<rparr>;
          ev'' = (if ev_len ev' \<le> 0 then ev'\<lparr>ev_buf := (\<lambda>_. char_of (0::nat)), ev_len := 0\<rparr> else ev')
      in set_ev i (ev''\<lparr>ev_last_active := now\<rparr>) s)"

text \<open>\<open>epoll_ctl\<close> on the descriptor \<open>g_efd\<close>.\<close>

definition g_ctl :: "int \<Rightarrow> fd \<Rightarrow> mask \<Rightarrow> nat \<Rightarrow> server \<Rightarrow> nat kernel" where
  "g_ctl operation f m i s = (if g_efd s < 0 then kern s else snd (epoll_ctl operation f m i (kern s)))"

text \<open>A failure is only printed: the entry keeps its status 1.\<close>

definition eventadd :: "bool \<Rightarrow> mask \<Rightarrow> nat \<Rightarrow> server \<Rightarrow> server" where
  "eventadd fails m i s =
     (let ev = (g_events s i)\<lparr>ev_events := m\<rparr>;
          operation = (if ev_status ev = 0 then EPOLL_CTL_ADD else 0);
          ev' = (if ev_status ev = 0 then ev\<lparr>ev_status := 1\<rparr> else ev)
      in (set_ev i ev' s)\<lparr>kern := (if fails then kern s else g_ctl operation (ev_fd ev') m i s)\<rparr>)"

definition eventdel :: "nat \<Rightarrow> server \<Rightarrow> server" where
  "eventdel i s =
     (let ev = g_events s i
      in if ev_status ev \<noteq> 1 then s
         else (set_ev i (ev\<lparr>ev_status := 0\<rparr>) s)
                \<lparr>kern := g_ctl EPOLL_CTL_DEL (ev_fd ev) 0 0 s\<rparr>)"

text \<open>The search loop of \<open>acceptconn\<close>, from index \<open>i\<close>.\<close>

function find_free :: "(nat \<Rightarrow> myevent_s) \<Rightarrow> nat \<Rightarrow> nat" where
  "find_free g i =
     (if MAX_EVENTS \<le> i then i else if ev_status (g i) = 0 then i else find_free g (Suc i))"
  by pat_completeness auto
termination by (relation "measure (\<lambda>(g, i). MAX_EVENTS - i)") auto

declare find_free.simps [simp del]

definition lost :: "io \<Rightarrow> fd \<Rightarrow> net_event list" where
  "lost r f = (if r_add_fails r then [Lost f] else [])"

definition acceptconn :: "io \<Rightarrow> server \<Rightarrow> net_event list \<times> server" where
  "acceptconn r s =
     (let confd = r_accept r
      in if confd = -1 then ([], s)
         else
           (let s = s\<lparr>kern := open_fd confd (kern s)\<rparr>;
                i = find_free (g_events s) 0
            in if i = MAX_EVENTS then ([Leaked confd], s)
               else if r_fcntl r < 0 then ([Leaked confd], s)
               else (NewConn confd # lost r confd,
                     eventadd (r_add_fails r) EPOLLIN i (eventset i confd Recvdata i (r_time r) s))))"

text \<open>\<open>recvdata\<close>; \<open>None\<close> when \<open>ev->buf[len]\<close> is outside the array.\<close>

definition recvdata :: "fd \<Rightarrow> nat \<Rightarrow> io \<Rightarrow> server \<Rightarrow> (net_event list \<times> server) option" where
  "recvdata f i r s =
     (case r_recv r of
        None \<Rightarrow>
          (let s = eventdel i s
           in Some ([Closed f], s\<lparr>kern := close_fd (ev_fd (g_events s i)) (kern s)\<rparr>))
      | Some d \<Rightarrow>
          (let ev = g_events s i;
               s = eventdel i (set_ev i (ev\<lparr>ev_buf := store_bytes d (ev_buf ev)\<rparr>) s)
           in if 0 < length d
              then if BUFLEN \<le> length d then None
                   else (let ev = g_events s i;
                             ev = ev\<lparr>ev_len := int (length d),
                                     ev_buf := (ev_buf ev)(length d := char_of (0::nat))\<rparr>;
                             s = eventset i f Senddata i (r_time r) (set_ev i ev s)
                         in Some (Data f d # lost r f, eventadd (r_add_fails r) EPOLLOUT i s))
              else Some ([Closed f], s\<lparr>kern := close_fd (ev_fd (g_events s i)) (kern s)\<rparr>)))"

definition senddata :: "fd \<Rightarrow> nat \<Rightarrow> io \<Rightarrow> server \<Rightarrow> net_event list \<times> server" where
  "senddata f i r s =
     (let ev = g_events s i;
          sent = (case r_send r of None \<Rightarrow> -1 | Some n \<Rightarrow> min (int n) (ev_len ev));
          s = eventdel i s
      in if 0 < sent
         then (Echo f (bytes (nat sent) (ev_buf ev)) # lost r f,
               eventadd (r_add_fails r) EPOLLIN i (eventset i f Recvdata i (r_time r) s))
         else ([Closed f], s\<lparr>kern := close_fd (ev_fd (g_events s i)) (kern s)\<rparr>))"

text \<open>\<open>ev->call_back(ev->fd, events, ev->arg)\<close>.\<close>

definition call :: "nat \<Rightarrow> io \<Rightarrow> server \<Rightarrow> (net_event list \<times> server) option" where
  "call i r s =
     (let ev = g_events s i
      in case ev_call_back ev of
           None \<Rightarrow> None
         | Some Acceptconn \<Rightarrow> Some (acceptconn r s)
         | Some Recvdata \<Rightarrow> recvdata (ev_fd ev) (ev_arg ev) r s
         | Some Senddata \<Rightarrow> Some (senddata (ev_fd ev) (ev_arg ev) r s))"

text \<open>The body of the \<open>for\<close> loop of \<open>main\<close> for one ready entry: two tests, each with its call.\<close>

definition dispatch :: "nat \<Rightarrow> mask \<Rightarrow> io \<Rightarrow> io \<Rightarrow> server \<Rightarrow> (net_event list \<times> server) option" where
  "dispatch i m r1 r2 s =
     (case (if has m EPOLLIN \<and> has (ev_events (g_events s i)) EPOLLIN then call i r1 s
            else Some ([], s)) of
        None \<Rightarrow> None
      | Some (es1, s1) \<Rightarrow>
          (case (if has m EPOLLOUT \<and> has (ev_events (g_events s1 i)) EPOLLOUT then call i r2 s1
                 else Some ([], s1)) of
             None \<Rightarrow> None
           | Some (es2, s2) \<Rightarrow> Some (es1 @ es2, s2)))"

definition initlistensocket :: "fd \<Rightarrow> bool \<Rightarrow> int \<Rightarrow> server \<Rightarrow> server" where
  "initlistensocket lfd add_fails now s =
     (let s = (if 0 \<le> lfd then s\<lparr>kern := open_fd lfd (kern s)\<rparr> else s)
      in eventadd add_fails EPOLLIN MAX_EVENTS (eventset MAX_EVENTS lfd Acceptconn MAX_EVENTS now s))"

text \<open>The zeroed globals.\<close>

definition zero_event :: myevent_s where
  "zero_event =
     \<lparr>ev_fd = 0, ev_events = 0, ev_arg = 0, ev_call_back = None, ev_status = 0,
      ev_buf = (\<lambda>_. char_of (0::nat)), ev_len = 0, ev_last_active = 0\<rparr>"

text \<open>When \<open>epoll_create\<close> has failed (\<open>efd\<close> is negative) the program goes on all the same.\<close>

definition er_start :: "fd \<Rightarrow> fd \<Rightarrow> bool \<Rightarrow> int \<Rightarrow> server" where
  "er_start lfd efd add_fails now =
     initlistensocket lfd add_fails now
       \<lparr>kern = no_fds, g_efd = efd, g_events = (\<lambda>_. zero_event), pending = [], running = True\<rparr>"

text \<open>What the calls can return in a state.\<close>

definition io_ok :: "io \<Rightarrow> server \<Rightarrow> bool" where
  "io_ok r s \<longleftrightarrow>
     (r_accept r = -1 \<or> fresh_fd (r_accept r) (kern s))
     \<and> (case r_recv r of None \<Rightarrow> True | Some d \<Rightarrow> length d \<le> BUFLEN)
     \<and> (case r_send r of None \<Rightarrow> True | Some n \<Rightarrow> 0 < n)"

inductive er_step :: "server \<Rightarrow> net_event list \<Rightarrow> server \<Rightarrow> bool" where
  wait: "running s \<Longrightarrow> 0 \<le> g_efd s \<Longrightarrow> pending s = [] \<Longrightarrow> ready_batch (kern s) b \<Longrightarrow> length b \<le> MAX_EVENTS + 1 \<Longrightarrow>
    er_step s [] (s\<lparr>pending := b\<rparr>)"
| wait_fails: "running s \<Longrightarrow> pending s = [] \<Longrightarrow> er_step s [] (s\<lparr>running := False\<rparr>)"
| serve: "running s \<Longrightarrow> pending s = (f, m, i) # rest \<Longrightarrow> io_ok r1 s \<Longrightarrow>
    io_ok r2 s \<Longrightarrow> dispatch i m r1 r2 s = Some (es, t) \<Longrightarrow>
    er_step s es (t\<lparr>pending := rest\<rparr>)"

inductive_cases er_stepE: "er_step s es t"

end
