(* ===== verification/EpollReactorProps.thy ===== *)
theory EpollReactorProps
  imports EpollReactor
begin

text \<open>
  Every run of the echo reactor: its table and the kernel's interest list agree, each
  connection is served by the callback for what it waits for, and every answer is the
  beginning of the request before it.
\<close>

section \<open>The specification of the connections\<close>

datatype conn = Reading | Answering string

fun conn_spec :: "net_event \<Rightarrow> (fd \<Rightarrow> conn option) \<Rightarrow> (fd \<Rightarrow> conn option) option" where
  "conn_spec (NewConn f) c = (if c f = None then Some (c(f := Some Reading)) else None)"
| "conn_spec (Leaked f) c = (if c f = None then Some c else None)"
| "conn_spec (Data f d) c =
     (if c f = Some Reading \<and> d \<noteq> [] then Some (c(f := Some (Answering d))) else None)"
| "conn_spec (Echo f e) c =
     (case c f of
        Some (Answering d) \<Rightarrow>
          if e \<noteq> [] \<and> take (length e) d = e then Some (c(f := Some Reading)) else None
      | _ \<Rightarrow> None)"
| "conn_spec (Closed f) c = (if c f \<noteq> None then Some (c(f := None)) else None)"
| "conn_spec (Lost f) c = (if c f \<noteq> None then Some (c(f := None)) else None)"

abbreviation conns_spec :: "net_event list \<Rightarrow> (fd \<Rightarrow> conn option) \<Rightarrow> (fd \<Rightarrow> conn option) option" where
  "conns_spec \<equiv> replay conn_spec"

text \<open>The connection behind a table entry, and behind a descriptor.\<close>

definition conn_of :: "myevent_s \<Rightarrow> conn" where
  "conn_of ev =
     (if ev_call_back ev = Some Recvdata then Reading
      else Answering (bytes (nat (ev_len ev)) (ev_buf ev)))"

definition conns :: "server \<Rightarrow> fd \<Rightarrow> conn option" where
  "conns s f =
     (case interest (kern s) f of
        None \<Rightarrow> None
      | Some (m, i) \<Rightarrow> if i = MAX_EVENTS then None else Some (conn_of (g_events s i)))"

section \<open>The invariant\<close>

text \<open>An entry that is in use serves what it is registered for.\<close>

definition entry_ok :: "nat \<Rightarrow> myevent_s \<Rightarrow> bool" where
  "entry_ok i ev \<longleftrightarrow>
     ev_arg ev = i
     \<and> (if i = MAX_EVENTS then ev_call_back ev = Some Acceptconn \<and> ev_events ev = EPOLLIN
        else ev_call_back ev = Some Recvdata \<and> ev_events ev = EPOLLIN
          \<or> ev_call_back ev = Some Senddata \<and> ev_events ev = EPOLLOUT \<and> 0 < ev_len ev)"

text \<open>The entry is on the interest list, with its mask and under its descriptor.\<close>

definition watched :: "server \<Rightarrow> nat \<Rightarrow> bool" where
  "watched s i \<longleftrightarrow> interest (kern s) (ev_fd (g_events s i)) = Some (ev_events (g_events s i), i)"

definition table_ok :: "server \<Rightarrow> bool" where
  "table_ok s \<longleftrightarrow>
     (\<forall>i \<le> MAX_EVENTS. ev_status (g_events s i) = 0 \<or> ev_status (g_events s i) = 1)
     \<and> (\<forall>f m i. interest (kern s) f = Some (m, i) \<longrightarrow>
          i \<le> MAX_EVENTS \<and> ev_status (g_events s i) = 1 \<and> ev_fd (g_events s i) = f
          \<and> ev_events (g_events s i) = m \<and> opened (kern s) f \<and> entry_ok i (g_events s i) \<and> 0 \<le> g_efd s)"

definition batch_ok :: "server \<Rightarrow> bool" where
  "batch_ok s \<longleftrightarrow> distinct (map fst (pending s)) \<and> list_all (ready_entry (kern s)) (pending s)"

definition er_inv :: "server \<Rightarrow> bool" where
  "er_inv s \<longleftrightarrow> table_ok s \<and> batch_ok s \<and> ev_status (g_events s MAX_EVENTS) = 1"

section \<open>The operations on the table\<close>

lemma find_free_bound: "i \<le> MAX_EVENTS \<Longrightarrow> find_free g i \<le> MAX_EVENTS"
proof (induction g i rule: find_free.induct)
  case (1 g i)
  then show ?case by (simp add: find_free.simps [of g i])
qed

lemma find_free_free: "find_free g i < MAX_EVENTS \<Longrightarrow> ev_status (g (find_free g i)) = 0"
proof (induction g i rule: find_free.induct)
  case (1 g i)
  then show ?case by (simp add: find_free.simps [of g i] split: if_splits)
qed

lemma eventset_simps [simp]:
  "kern (eventset i f cb a now s) = kern s" "pending (eventset i f cb a now s) = pending s"
  "running (eventset i f cb a now s) = running s" "g_efd (eventset i f cb a now s) = g_efd s"
  "j \<noteq> i \<Longrightarrow> g_events (eventset i f cb a now s) j = g_events s j"
  "ev_status (g_events (eventset i f cb a now s) i) = 0"
  "ev_fd (g_events (eventset i f cb a now s) i) = f"
  "ev_call_back (g_events (eventset i f cb a now s) i) = Some cb"
  "ev_arg (g_events (eventset i f cb a now s) i) = a"
  "0 < ev_len (g_events s i) \<Longrightarrow> ev_len (g_events (eventset i f cb a now s) i) = ev_len (g_events s i)"
  "0 < ev_len (g_events s i) \<Longrightarrow> ev_buf (g_events (eventset i f cb a now s) i) = ev_buf (g_events s i)"
  by (simp_all add: eventset_def Let_def)

lemma eventadd_free:
  assumes "ev_status (g_events s i) = 0" "opened (kern s) (ev_fd (g_events s i))"
    "interest (kern s) (ev_fd (g_events s i)) = None" "0 \<le> g_efd s"
  shows "eventadd False m i s =
    s\<lparr>g_events := (g_events s)(i := (g_events s i)\<lparr>ev_events := m, ev_status := 1\<rparr>),
      kern := (kern s)\<lparr>interest := (interest (kern s))(ev_fd (g_events s i) \<mapsto> (m, i))\<rparr>\<rparr>"
  using assms by (simp add: eventadd_def g_ctl_def)

lemma eventadd_fails:
  assumes "ev_status (g_events s i) = 0" "fails \<or> g_efd s < 0"
  shows "eventadd fails m i s =
    s\<lparr>g_events := (g_events s)(i := (g_events s i)\<lparr>ev_events := m, ev_status := 1\<rparr>)\<rparr>"
  using assms by (cases s) (auto simp: eventadd_def g_ctl_def Let_def)

lemma eventadd_frame [simp]:
  "pending (eventadd fails m i s) = pending s" "running (eventadd fails m i s) = running s"
  "g_efd (eventadd fails m i s) = g_efd s"
  "j \<noteq> i \<Longrightarrow> g_events (eventadd fails m i s) j = g_events s j"
  "ev_call_back (g_events (eventadd fails m i s) i) = ev_call_back (g_events s i)"
  "ev_buf (g_events (eventadd fails m i s) i) = ev_buf (g_events s i)"
  "ev_len (g_events (eventadd fails m i s) i) = ev_len (g_events s i)"
  by (simp_all add: eventadd_def Let_def)

lemma eventadd_interest:
  assumes "ev_status (g_events s i) = 0" "opened (kern s) (ev_fd (g_events s i))"
    "interest (kern s) (ev_fd (g_events s i)) = None" "0 \<le> g_efd s"
  shows "interest (kern (eventadd fails m i s))
    = (interest (kern s))(ev_fd (g_events s i) := (if fails then None else Some (m, i)))"
  using assms eventadd_free [OF assms] eventadd_fails [OF assms(1), of True]
  by (cases fails) (simp_all add: fun_upd_idem)

lemma table_fd_inj:
  assumes "table_ok s" "i \<le> MAX_EVENTS" "watched s i"
  shows "interest (kern s) (ev_fd (g_events s i)) = Some (ev_events (g_events s i), i)
    \<and> opened (kern s) (ev_fd (g_events s i)) \<and> entry_ok i (g_events s i)
    \<and> ev_status (g_events s i) = 1 \<and> 0 \<le> g_efd s"
  using assms unfolding table_ok_def watched_def by blast

lemma table_status: "table_ok s \<Longrightarrow> interest (kern s) f = Some (m, i) \<Longrightarrow> ev_status (g_events s i) = 1"
  unfolding table_ok_def by blast

text \<open>A change of an entry that is not watched.\<close>

lemma table_set:
  assumes "table_ok s" "ev_status (g_events s i) = 0" "ev_status ev = 0 \<or> ev_status ev = 1"
  shows "table_ok (set_ev i ev s)"
proof -
  have same: "(if j = i then ev else g_events s j) = g_events s j" if "interest (kern s) f = Some (m, j)" for f m j
    using table_status [OF assms(1) that] assms(2) by auto
  have "ev_status (if j = i then ev else g_events s j) = 0 \<or> ev_status (if j = i then ev else g_events s j) = 1"
    if "j \<le> MAX_EVENTS" for j
    using assms(1,3) that by (cases "j = i") (simp_all add: table_ok_def)
  moreover have "interest (kern s) f = Some (m, j) \<Longrightarrow> j \<le> MAX_EVENTS \<and> ev_status (g_events s j) = 1
      \<and> ev_fd (g_events s j) = f \<and> ev_events (g_events s j) = m \<and> opened (kern s) f
      \<and> entry_ok j (g_events s j) \<and> 0 \<le> g_efd s" for f m j
    using assms(1) unfolding table_ok_def by blast
  ultimately show ?thesis using same unfolding table_ok_def by (simp add: fun_upd_def)
qed

lemma eventset_set_ev: "\<exists>ev. eventset i f cb a now s = set_ev i ev s \<and> ev_status ev = 0"
  by (intro exI [of _ "g_events (eventset i f cb a now s) i"]) (simp add: eventset_def Let_def)

lemma table_eventset:
  assumes "table_ok s" "ev_status (g_events s i) = 0"
  shows "table_ok (eventset i f cb a now s)"
  using eventset_set_ev [of i f cb a now s] table_set [OF assms] by auto

lemma table_eventadd:
  assumes "table_ok s" "i \<le> MAX_EVENTS" "ev_status (g_events s i) = 0"
    "opened (kern s) (ev_fd (g_events s i))" "interest (kern s) (ev_fd (g_events s i)) = None"
    "entry_ok i ((g_events s i)\<lparr>ev_events := m, ev_status := 1\<rparr>)" "0 \<le> g_efd s"
  shows "table_ok (eventadd fails m i s)"
proof (cases fails)
  case True
  then show ?thesis
    using table_set [OF assms(1,3), of "(g_events s i)\<lparr>ev_events := m, ev_status := 1\<rparr>"]
    by (simp add: eventadd_fails [OF assms(3)])
next
  case False
  let ?f = "ev_fd (g_events s i)" and ?ev = "(g_events s i)\<lparr>ev_events := m, ev_status := 1\<rparr>"
  have t: "eventadd fails m i s = (set_ev i ?ev s)\<lparr>kern := (kern s)\<lparr>interest := (interest (kern s))(?f \<mapsto> (m, i))\<rparr>\<rparr>"
    using eventadd_free [OF assms(3-5,7)] False by simp
  have tab: "table_ok (set_ev i ?ev s)" by (rule table_set [OF assms(1,3)]) simp
  show ?thesis
    unfolding t table_ok_def
  proof (intro conjI)
    show "\<forall>j\<le>MAX_EVENTS. ev_status (g_events ((set_ev i ?ev s)\<lparr>kern := (kern s)\<lparr>interest := (interest (kern s))(?f \<mapsto> (m, i))\<rparr>\<rparr>) j) = 0
      \<or> ev_status (g_events ((set_ev i ?ev s)\<lparr>kern := (kern s)\<lparr>interest := (interest (kern s))(?f \<mapsto> (m, i))\<rparr>\<rparr>) j) = 1"
      using tab unfolding table_ok_def by simp
  qed (use tab assms(2,4,6,7) in \<open>auto simp: table_ok_def split: if_splits\<close>)
qed

lemma eventdel_active:
  assumes "table_ok s" "i \<le> MAX_EVENTS" "watched s i"
  shows "eventdel i s =
    s\<lparr>g_events := (g_events s)(i := (g_events s i)\<lparr>ev_status := 0\<rparr>),
      kern := (kern s)\<lparr>interest := (interest (kern s))(ev_fd (g_events s i) := None)\<rparr>\<rparr>"
  using table_fd_inj [OF assms] by (simp add: eventdel_def g_ctl_def Let_def)

lemma table_eventdel:
  assumes "table_ok s" "i \<le> MAX_EVENTS" "watched s i"
  shows "table_ok (eventdel i s)"
proof -
  have "j \<noteq> i" if "interest (kern s) f = Some (m, j)" "f \<noteq> ev_fd (g_events s i)" for f m j
    using assms(1) that unfolding table_ok_def by blast
  with assms show ?thesis unfolding table_ok_def eventdel_active [OF assms]
    by (auto simp: fun_upd_def)
qed

lemma table_close:
  "table_ok s \<Longrightarrow> interest (kern s) f = None \<Longrightarrow> table_ok (s\<lparr>kern := close_fd f (kern s)\<rparr>)"
  unfolding table_ok_def by (auto simp: fun_upd_def)

lemma table_open: "table_ok s \<Longrightarrow> table_ok (s\<lparr>kern := open_fd f (kern s)\<rparr>)"
  unfolding table_ok_def by auto

lemma entry_ok_buf: "entry_ok i (ev\<lparr>ev_buf := b\<rparr>) = entry_ok i ev"
  by (simp add: entry_ok_def)

lemma table_set_buf:
  "table_ok s \<Longrightarrow> table_ok (set_ev i ((g_events s i)\<lparr>ev_buf := b\<rparr>) s)"
  using entry_ok_buf [of i b "g_events s i"] unfolding table_ok_def by (auto simp: fun_upd_def)

lemma table_set_free:
  "table_ok s \<Longrightarrow> ev_status (g_events s i) = 0 \<Longrightarrow> ev_status ev = 0 \<Longrightarrow> table_ok (set_ev i ev s)"
  by (rule table_set) simp_all

text \<open>The connections after a change of the entry of one descriptor.\<close>

lemma conns_upd:
  assumes "interest (kern t) = (interest (kern s))(f := e)"
    and "\<And>g m j. g \<noteq> f \<Longrightarrow> interest (kern s) g = Some (m, j) \<Longrightarrow> g_events t j = g_events s j"
  shows "conns t = (conns s)(f := (case e of None \<Rightarrow> None
    | Some (m, i) \<Rightarrow> if i = MAX_EVENTS then None else Some (conn_of (g_events t i))))"
proof
  fix g
  show "conns t g = ((conns s)(f := (case e of None \<Rightarrow> None
    | Some (m, i) \<Rightarrow> if i = MAX_EVENTS then None else Some (conn_of (g_events t i))))) g"
    using assms(2) [of g] by (cases "g = f") (auto simp: conns_def assms(1) split: option.splits)
qed

text \<open>The listening entry stays as it is.\<close>

definition keeps_listening :: "server \<Rightarrow> server \<Rightarrow> bool" where
  "keeps_listening s t \<longleftrightarrow> g_events t MAX_EVENTS = g_events s MAX_EVENTS
     \<and> (\<forall>f m. interest (kern s) f = Some (m, MAX_EVENTS) \<longrightarrow> interest (kern t) f = Some (m, MAX_EVENTS))"

text \<open>What a handler of entry \<open>i\<close> leaves alone.\<close>

definition spares :: "nat \<Rightarrow> server \<Rightarrow> server \<Rightarrow> bool" where
  "spares i s t \<longleftrightarrow>
     (\<forall>f m j. j \<noteq> i \<longrightarrow> interest (kern s) f = Some (m, j) \<longrightarrow>
        interest (kern t) f = Some (m, j))
     \<and> (\<forall>j. j \<noteq> i \<longrightarrow> ev_status (g_events s j) = 1 \<longrightarrow>
        g_events t j = g_events s j
        \<and> (\<forall>f m. interest (kern t) f = Some (m, j) \<longrightarrow> interest (kern s) f = Some (m, j)))
     \<and> pending t = pending s \<and> running t = running s"

definition good :: "nat \<Rightarrow> server \<Rightarrow> net_event list \<Rightarrow> server \<Rightarrow> bool" where
  "good i s es t \<longleftrightarrow>
     table_ok t \<and> spares i s t \<and> conns_spec es (conns s) = Some (conns t)"

lemma good_refl: "table_ok s \<Longrightarrow> good i s [] s"
  by (simp add: good_def spares_def)

lemma not_open_not_interest: "table_ok s \<Longrightarrow> \<not> opened (kern s) f \<Longrightarrow> interest (kern s) f = None"
  unfolding table_ok_def by (cases "interest (kern s) f") auto

lemma er_accept_good:
  assumes tab: "table_ok s" and io: "io_ok r s" and acc: "acceptconn r s = (es, t)" and efd: "0 \<le> g_efd s"
  shows "good MAX_EVENTS s es t \<and> keeps_listening s t"
proof (cases "r_accept r = -1")
  case True
  then show ?thesis using acc good_refl [OF tab] by (simp add: acceptconn_def keeps_listening_def)
next
  case False
  let ?f = "r_accept r"
  define s1 where "s1 = s\<lparr>kern := open_fd ?f (kern s)\<rparr>"
  have fresh: "\<not> opened (kern s) ?f" using io False by (simp add: io_ok_def fresh_fd_def)
  have none: "interest (kern s) ?f = None" by (rule not_open_not_interest [OF tab fresh])
  have tab1: "table_ok s1" using table_open [OF tab] by (simp add: s1_def)
  define i where "i = find_free (g_events s) 0"
  show ?thesis
  proof (cases "i = MAX_EVENTS \<or> r_fcntl r < 0")
    case True
    then have "es = [Leaked ?f]" "t = s1"
      using acc False by (auto simp: acceptconn_def Let_def i_def s1_def split: if_splits)
    moreover have "conns s1 = conns s"
      by (rule ext) (simp add: conns_def s1_def split: option.split)
    moreover have "conns s ?f = None" using none by (simp add: conns_def)
    ultimately show ?thesis using tab1 by (simp add: good_def spares_def keeps_listening_def s1_def)
  next
    case new: False
    define s2 where "s2 = eventset i ?f Recvdata i (r_time r) s1"
    have "i \<le> MAX_EVENTS" unfolding i_def by (rule find_free_bound) simp
    then have i: "i < MAX_EVENTS" using new by simp
    have free: "ev_status (g_events s1 i) = 0"
      using find_free_free [of "g_events s" 0] i by (simp add: i_def s1_def)
    have tab2: "table_ok s2" unfolding s2_def by (rule table_eventset [OF tab1 free])
    have k2: "kern s2 = open_fd ?f (kern s)" by (simp add: s2_def s1_def)
    have e2: "ev_status (g_events s2 i) = 0" "ev_fd (g_events s2 i) = ?f" by (simp_all add: s2_def)
    have r: "es = NewConn ?f # lost r ?f" "t = eventadd (r_add_fails r) EPOLLIN i s2"
      using acc False new by (simp_all add: acceptconn_def Let_def i_def s1_def s2_def)
    have tabt: "table_ok t" unfolding r(2)
      by (rule table_eventadd [OF tab2 _ e2(1)])
        (use i none efd in \<open>simp_all add: k2 e2 entry_ok_def, simp_all add: s2_def s1_def\<close>)
    have other: "g_events t j = g_events s j" if "ev_status (g_events s j) = 1" for j
    proof -
      have "j \<noteq> i" using free that by (auto simp: s1_def)
      then show ?thesis by (simp add: r(2) s2_def s1_def)
    qed
    have efd2: "g_efd s2 = g_efd s" "pending s2 = pending s" "running s2 = running s" by (simp_all add: s2_def s1_def)
    then have kt: "interest (kern t) = (interest (kern s))(?f := (if r_add_fails r then None else Some (EPOLLIN, i)))"
      using eventadd_interest [OF e2(1), of "r_add_fails r" EPOLLIN] none efd by (simp add: r(2) k2 e2)
    have cf: "conns s ?f = None" using none by (simp add: conns_def)
    have "ev_call_back (g_events t i) = Some Recvdata" by (simp add: r(2) s2_def)
    then have "conns t = (conns s)(?f := (if r_add_fails r then None else Some Reading))"
      using conns_upd [OF kt] other table_status [OF tab] i by (auto simp: conn_of_def)
    moreover note cf
    moreover have "spares MAX_EVENTS s t"
    proof -
      have "pending t = pending s" "running t = running s" using efd2 by (simp_all add: r(2))
      then show ?thesis using other none free by (auto simp: spares_def kt s1_def split: if_splits)
    qed
    moreover have "g_events t MAX_EVENTS = g_events s MAX_EVENTS" using i by (simp add: r(2) s2_def s1_def)
    then have "keeps_listening s t" using none by (auto simp: keeps_listening_def kt)
    ultimately show ?thesis using r(1) tabt by (auto simp: good_def lost_def)
  qed
qed

text \<open>An entry taken off the interest list, its buffer overwritten before.\<close>

definition taken :: "nat \<Rightarrow> (nat \<Rightarrow> char) \<Rightarrow> server \<Rightarrow> server" where
  "taken i b s = eventdel i (set_ev i ((g_events s i)\<lparr>ev_buf := b\<rparr>) s)"

lemma taken_simps:
  assumes "table_ok s" "i \<le> MAX_EVENTS" "watched s i"
  shows "taken i b s =
    s\<lparr>g_events := (g_events s)(i := (g_events s i)\<lparr>ev_buf := b, ev_status := 0\<rparr>),
      kern := (kern s)\<lparr>interest := (interest (kern s))(ev_fd (g_events s i) := None)\<rparr>\<rparr>"
    and "table_ok (taken i b s)"
proof -
  have t: "table_ok (set_ev i ((g_events s i)\<lparr>ev_buf := b\<rparr>) s)" by (rule table_set_buf [OF assms(1)])
  show "taken i b s =
    s\<lparr>g_events := (g_events s)(i := (g_events s i)\<lparr>ev_buf := b, ev_status := 0\<rparr>),
      kern := (kern s)\<lparr>interest := (interest (kern s))(ev_fd (g_events s i) := None)\<rparr>\<rparr>"
    unfolding taken_def by (subst eventdel_active [OF t assms(2)]) (use assms(3) in \<open>simp_all add: watched_def\<close>)
  show "table_ok (taken i b s)"
    unfolding taken_def by (rule table_eventdel [OF t assms(2)]) (use assms(3) in \<open>simp add: watched_def\<close>)
qed

lemma others_fd:
  assumes "table_ok s" "i \<le> MAX_EVENTS" "watched s i"
    "interest (kern s) f = Some (m, j)" "j \<noteq> i"
  shows "f \<noteq> ev_fd (g_events s i)"
  using table_fd_inj [OF assms(1-3)] assms(4,5) by auto

lemma er_drop_good:
  assumes "table_ok s" "i < MAX_EVENTS" "watched s i"
    "t = (taken i b s)\<lparr>kern := close_fd (ev_fd (g_events s i)) (kern (taken i b s))\<rparr>"
  shows "good i s [Closed (ev_fd (g_events s i))] t"
proof -
  let ?f = "ev_fd (g_events s i)"
  have i: "i \<le> MAX_EVENTS" using assms(2) by simp
  note ts = taken_simps [OF assms(1) i assms(3), of b]
  note fi = table_fd_inj [OF assms(1) i assms(3)]
  have kt: "interest (kern t) = (interest (kern s))(?f := None)" by (simp add: assms(4) ts(1))
  have gt: "j \<noteq> i \<Longrightarrow> g_events t j = g_events s j" for j by (simp add: assms(4) ts(1))
  have "table_ok t" unfolding assms(4) by (rule table_close [OF ts(2)]) (simp add: ts(1))
  moreover have "spares i s t"
    using others_fd [OF assms(1) i assms(3)] gt
    by (auto simp: spares_def kt) (simp_all add: assms(4) ts(1))
  moreover have "conns t = (conns s)(?f := None)"
  proof (subst conns_upd [OF kt])
    fix g m j assume "g \<noteq> ?f" "interest (kern s) g = Some (m, j)"
    then have "j \<noteq> i" using assms(1) unfolding table_ok_def by blast
    then show "g_events t j = g_events s j" by (rule gt)
  qed simp
  moreover have "conns s ?f \<noteq> None" using fi assms(2) by (simp add: conns_def)
  ultimately show ?thesis by (simp add: good_def)
qed

lemma rearm_good:
  assumes "table_ok s" "i < MAX_EVENTS" "watched s i"
    and "ev_status ev = 0" "0 < ev_len ev"
    and cb: "cb = Recvdata \<and> m = EPOLLIN \<or> cb = Senddata \<and> m = EPOLLOUT"
    and t: "t = eventadd fails m i (eventset i (ev_fd (g_events s i)) cb i now (set_ev i ev (taken i b s)))"
  shows "table_ok t \<and> spares i s t \<and> conns t = (conns s)(ev_fd (g_events s i) := (if fails then None
    else Some (if cb = Recvdata then Reading else Answering (bytes (nat (ev_len ev)) (ev_buf ev)))))"
proof -
  let ?f = "ev_fd (g_events s i)"
  let ?u = "eventset i ?f cb i now (set_ev i ev (taken i b s))"
  have i: "i \<le> MAX_EVENTS" using assms(2) by simp
  note ts = taken_simps [OF assms(1) i assms(3), of b]
  note fi = table_fd_inj [OF assms(1) i assms(3)]
  have tu: "table_ok ?u"
    by (rule table_eventset, rule table_set_free [OF ts(2)]) (use assms(4) in \<open>simp_all add: ts(1)\<close>)
  have u: "ev_status (g_events ?u i) = 0" "ev_fd (g_events ?u i) = ?f" "opened (kern ?u) ?f"
    "interest (kern ?u) = (interest (kern s))(?f := None)" "ev_len (g_events ?u i) = ev_len ev"
    "ev_buf (g_events ?u i) = ev_buf ev" "ev_call_back (g_events ?u i) = Some cb"
    using fi assms(5) by (simp_all add: ts(1))
  have efd: "0 \<le> g_efd ?u" using fi by (simp add: ts(1))
  have kt: "interest (kern t) = (interest (kern s))(?f := (if fails then None else Some (m, i)))"
    using eventadd_interest [OF u(1), of fails m] u efd by (simp add: t fun_upd_idem)
  have gt: "j \<noteq> i \<Longrightarrow> g_events t j = g_events s j" for j by (simp add: t ts(1))
  have "table_ok t" unfolding t
    by (rule table_eventadd [OF tu i u(1)])
      (use u cb assms(2,5) efd in \<open>auto simp: entry_ok_def\<close>)
  moreover have "pending t = pending s" "running t = running s" by (simp_all add: t ts(1))
  then have "spares i s t"
    using others_fd [OF assms(1) i assms(3)] gt by (auto simp: spares_def kt split: if_splits)
  moreover have "conns t = (conns s)(?f := (if fails then None
    else Some (if cb = Recvdata then Reading else Answering (bytes (nat (ev_len ev)) (ev_buf ev)))))"
  proof (subst conns_upd [OF kt])
    fix g n j assume "g \<noteq> ?f" "interest (kern s) g = Some (n, j)"
    then have "j \<noteq> i" using assms(1) unfolding table_ok_def by blast
    then show "g_events t j = g_events s j" by (rule gt)
  qed (use assms(2) u cb in \<open>auto simp: conn_of_def t\<close>)
  ultimately show ?thesis by blast
qed

lemma taken_buf:
  "taken i (ev_buf (g_events s i)) s = eventdel i s"
  by (simp add: taken_def)

lemma recv_good:
  assumes "table_ok s" "i < MAX_EVENTS" "watched s i"
    "ev_call_back (g_events s i) = Some Recvdata"
    "recvdata (ev_fd (g_events s i)) i r s = Some (es, t)"
  shows "good i s es t"
proof (cases "r_recv r")
  case None
  have ts: "eventdel i s = taken i (ev_buf (g_events s i)) s" by (simp add: taken_buf)
  have f: "ev_fd (g_events (taken i b s) i) = ev_fd (g_events s i)" for b
    using taken_simps(1) [OF assms(1) _ assms(3)] assms(2) by simp
  from None assms(5) er_drop_good [OF assms(1-3)] show ?thesis
    by (auto simp: recvdata_def Let_def ts f)
next
  case (Some d)
  let ?f = "ev_fd (g_events s i)"
  define b where "b = store_bytes d (ev_buf (g_events s i))"
  have tk: "eventdel i (set_ev i ((g_events s i)\<lparr>ev_buf := b\<rparr>) s) = taken i b s"
    by (simp add: taken_def)
  have g: "g_events (taken i b s) i = (g_events s i)\<lparr>ev_buf := b, ev_status := 0\<rparr>"
    using taken_simps(1) [OF assms(1) _ assms(3), of b] assms(2) by simp
  show ?thesis
  proof (cases "d = []")
    case True
    have "es = [Closed ?f]" "t = (taken i b s)\<lparr>kern := close_fd ?f (kern (taken i b s))\<rparr>"
      using assms(5) Some True by (simp_all add: recvdata_def tk g Let_def flip: b_def [unfolded True])
    then show ?thesis using er_drop_good [OF assms(1-3)] by simp
  next
    case False
    let ?ev = "(g_events (taken i b s) i)\<lparr>ev_len := int (length d), ev_buf := b(length d := char_of (0::nat))\<rparr>"
    have t: "es = Data ?f d # lost r ?f"
      "t = eventadd (r_add_fails r) EPOLLOUT i (eventset i ?f Senddata i (r_time r) (set_ev i ?ev (taken i b s)))"
      using assms(5) Some False
      by (simp_all add: recvdata_def Let_def tk g flip: b_def split: if_splits)
    have "conns s ?f = Some Reading"
      using table_fd_inj [OF assms(1) _ assms(3)] assms(2,4) by (simp add: conns_def conn_of_def)
    moreover have "bytes (length d) (b(length d := char_of (0::nat))) = d" by (simp add: b_def)
    ultimately show ?thesis
      using rearm_good [OF assms(1-3) _ _ _ t(2)] False by (auto simp: good_def t(1) g lost_def)
  qed
qed

lemma send_good:
  assumes "table_ok s" "i < MAX_EVENTS" "watched s i"
    "ev_call_back (g_events s i) = Some Senddata"
    "senddata (ev_fd (g_events s i)) i r s = (es, t)"
  shows "good i s es t"
proof -
  let ?f = "ev_fd (g_events s i)" and ?b = "ev_buf (g_events s i)"
  define n where "n = (case r_send r of None \<Rightarrow> -1 | Some n \<Rightarrow> min (int n) (ev_len (g_events s i)))"
  have i: "i \<le> MAX_EVENTS" using assms(2) by simp
  have g: "g_events (taken i ?b s) i = (g_events s i)\<lparr>ev_status := 0\<rparr>"
    using taken_simps(1) [OF assms(1) i assms(3), of ?b] by simp
  have len: "0 < ev_len (g_events s i)"
    using table_fd_inj [OF assms(1) i assms(3)] assms(2,4) by (simp add: entry_ok_def)
  show ?thesis
  proof (cases "0 < n")
    case False
    then show ?thesis using assms(5) er_drop_good [OF assms(1-3)]
      by (auto simp: senddata_def Let_def g simp flip: n_def taken_buf)
  next
    case True
    have t: "es = Echo ?f (bytes (nat n) ?b) # lost r ?f"
      "t = eventadd (r_add_fails r) EPOLLIN i (eventset i ?f Recvdata i (r_time r)
             (set_ev i (g_events (taken i ?b s) i) (taken i ?b s)))"
      using assms(5) True by (simp_all add: senddata_def Let_def flip: n_def taken_buf)
    have "conns s ?f = Some (Answering (bytes (nat (ev_len (g_events s i))) ?b))"
      using table_fd_inj [OF assms(1) i assms(3)] assms(2,4) by (simp add: conns_def conn_of_def)
    moreover have "take (nat n) (bytes (nat (ev_len (g_events s i))) ?b) = bytes (nat n) ?b"
      by (auto simp: bytes_def take_map n_def split: option.splits)
    ultimately show ?thesis
      using rearm_good [OF assms(1-3) _ _ _ t(2)] True len by (auto simp: good_def t(1) g lost_def)
  qed
qed

section \<open>The loop\<close>

lemma head_ready:
  assumes "er_inv s" "pending s = (f, m, i) # rest"
  shows "i \<le> MAX_EVENTS \<and> ev_status (g_events s i) = 1 \<and> ev_fd (g_events s i) = f
    \<and> interest (kern s) f = Some (ev_events (g_events s i), i)
    \<and> (has m EPOLLIN \<longrightarrow> has (ev_events (g_events s i)) EPOLLIN)
    \<and> (has m EPOLLOUT \<longrightarrow> has (ev_events (g_events s i)) EPOLLOUT)
    \<and> entry_ok i (g_events s i) \<and> watched s i \<and> 0 \<le> g_efd s"
proof -
  have tab: "table_ok s" using assms(1) by (simp add: er_inv_def)
  have "ready_entry (kern s) (f, m, i)" using assms by (simp add: er_inv_def batch_ok_def)
  then obtain n where n: "interest (kern s) f = Some (n, i)"
    "has m EPOLLIN \<longrightarrow> has n EPOLLIN" "has m EPOLLOUT \<longrightarrow> has n EPOLLOUT"
    by (auto simp: ready_entry_def split: option.splits)
  then have a: "i \<le> MAX_EVENTS" "ev_events (g_events s i) = n" "ev_fd (g_events s i) = f"
    using tab unfolding table_ok_def by blast+
  then have w: "watched s i" using n(1) by (simp add: watched_def)
  from table_fd_inj [OF tab a(1) w] a n w show ?thesis by auto
qed

text \<open>At most one of the two calls of the loop body happens.\<close>

lemma dispatch_once:
  assumes "er_inv s" "pending s = (f, m, i) # rest"
  shows "dispatch i m r1 r2 s =
    (if has m EPOLLIN then call i r1 s else if has m EPOLLOUT then call i r2 s else Some ([], s))"
proof -
  note h = head_ready [OF assms]
  have "ev_events (g_events s i) = EPOLLIN \<or> ev_events (g_events s i) = EPOLLOUT"
    using h by (auto simp: entry_ok_def split: if_splits)
  then show ?thesis using h
    by (auto simp: dispatch_def split: option.splits)
qed

lemma call_good:
  assumes "er_inv s" "pending s = (f, m, i) # rest" "io_ok r s" "call i r s = Some (es, t)"
  shows "good i s es t \<and> (i \<noteq> MAX_EVENTS \<or> keeps_listening s t)"
proof -
  note h = head_ready [OF assms(1,2)]
  have tab: "table_ok s" using assms(1) by (simp add: er_inv_def)
  have arg: "ev_arg (g_events s i) = i" using h by (simp add: entry_ok_def)
  show ?thesis
  proof (cases "i = MAX_EVENTS")
    case True
    then have "ev_call_back (g_events s i) = Some Acceptconn" using h by (simp add: entry_ok_def)
    then have "acceptconn r s = (es, t)" using assms(4) by (simp add: call_def Let_def)
    then show ?thesis using er_accept_good [OF tab assms(3)] True h by simp
  next
    case False
    then have i: "i < MAX_EVENTS" using h by simp
    have "ev_call_back (g_events s i) = Some Recvdata \<or> ev_call_back (g_events s i) = Some Senddata"
      using h False by (auto simp: entry_ok_def)
    then have "good i s es t"
    proof
      assume c: "ev_call_back (g_events s i) = Some Recvdata"
      show ?thesis by (rule recv_good [OF tab i _ c]) (use h c assms(4) arg in \<open>auto simp: call_def Let_def\<close>)
    next
      assume c: "ev_call_back (g_events s i) = Some Senddata"
      show ?thesis by (rule send_good [OF tab i _ c]) (use h c assms(4) arg in \<open>auto simp: call_def Let_def\<close>)
    qed
    with False show ?thesis by simp
  qed
qed

lemma er_serve_inv:
  assumes "er_inv s" "pending s = (f, m, i) # rest" "good i s es t"
    "i \<noteq> MAX_EVENTS \<or> keeps_listening s t"
  shows "er_inv (t\<lparr>pending := rest\<rparr>)"
proof -
  note h = head_ready [OF assms(1,2)]
  have tab: "table_ok s" using assms(1) by (simp add: er_inv_def)
  have sp: "\<And>g n j. j \<noteq> i \<Longrightarrow> interest (kern s) g = Some (n, j) \<Longrightarrow> interest (kern t) g = Some (n, j)"
    "\<And>j. j \<noteq> i \<Longrightarrow> ev_status (g_events s j) = 1 \<Longrightarrow> g_events t j = g_events s j"
    using assms(3) by (simp_all add: good_def spares_def)
  have "table_ok (t\<lparr>pending := rest\<rparr>)" using assms(3) by (simp add: good_def table_ok_def)
  moreover have "ready_entry (kern t) e" if "e \<in> set rest" for e
  proof -
    obtain g n j where e: "e = (g, n, j)" by (cases e)
    have "ready_entry (kern s) e" "g \<noteq> f"
      using assms(1,2) that e by (force simp: er_inv_def batch_ok_def list_all_iff)+
    then obtain n' where n': "interest (kern s) g = Some (n', j)"
      by (auto simp: ready_entry_def e split: option.splits)
    then have "ev_fd (g_events s j) = g" using tab unfolding table_ok_def by blast
    then have "j \<noteq> i" using h \<open>g \<noteq> f\<close> by auto
    from sp(1) [OF this n'] \<open>ready_entry (kern s) e\<close> n' show ?thesis by (simp add: ready_entry_def e)
  qed
  moreover have "ev_status (g_events t MAX_EVENTS) = 1"
  proof (cases "i = MAX_EVENTS")
    case False
    have st: "ev_status (g_events s MAX_EVENTS) = 1" using assms(1) by (simp add: er_inv_def)
    show ?thesis using sp(2) [OF False [symmetric] st] st by simp
  qed (use assms(4) h in \<open>auto simp: keeps_listening_def\<close>)
  ultimately show ?thesis using assms(1,2) by (auto simp: er_inv_def batch_ok_def list_all_iff)
qed

lemma conns_frame [simp]: "conns (s\<lparr>pending := b\<rparr>) = conns s" "conns (s\<lparr>running := r\<rparr>) = conns s"
  by (rule ext, simp add: conns_def split: option.split)+

lemma er_step_inv:
  "er_step s es t \<Longrightarrow> er_inv s \<Longrightarrow> er_inv t \<and> conns_spec es (conns s) = Some (conns t)"
proof (induction rule: er_step.induct)
  case (wait s b)
  then show ?case by (simp add: er_inv_def batch_ok_def ready_batch_def table_ok_def)
next
  case (wait_fails s)
  then show ?case by (simp add: er_inv_def batch_ok_def table_ok_def)
next
  case (serve s f m i rest r1 r2 es t)
  have "good i s es t \<and> (i \<noteq> MAX_EVENTS \<or> keeps_listening s t)"
    using serve.hyps serve.prems call_good [OF serve.prems serve.hyps(2)]
      dispatch_once [OF serve.prems serve.hyps(2)] good_refl [of s i]
    by (auto simp: er_inv_def keeps_listening_def split: if_splits)
  with er_serve_inv [OF serve.prems serve.hyps(2)] show ?case by (auto simp: good_def)
qed

interpretation er: refined_system er_step er_inv conns conns_spec
  by unfold_locales (auto dest: er_step_inv)

lemma er_start_inv:
  assumes "0 \<le> lfd"
  shows "er_inv (er_start lfd efd fails now) \<and> conns (er_start lfd efd fails now) = (\<lambda>_. None)
    \<and> interest (kern (er_start lfd efd fails now)) =
        (if fails \<or> efd < 0 then (\<lambda>_. None) else [lfd \<mapsto> (EPOLLIN, MAX_EVENTS)])"
proof -
  let ?z = "\<lparr>kern = open_fd lfd no_fds, g_efd = efd, g_events = (\<lambda>_. zero_event), pending = [], running = True\<rparr> :: server"
  let ?u = "eventset MAX_EVENTS lfd Acceptconn MAX_EVENTS now ?z"
  let ?s = "er_start lfd efd fails now"
  have s: "?s = eventadd fails EPOLLIN MAX_EVENTS ?u"
    using assms by (simp add: er_start_def initlistensocket_def)
  have z: "table_ok ?z" by (simp add: table_ok_def no_fds_def zero_event_def)
  have tu: "table_ok ?u" by (rule table_eventset [OF z]) (simp add: zero_event_def)
  have st: "ev_status (g_events ?s MAX_EVENTS) = 1" by (simp add: s eventadd_def Let_def)
  have k: "interest (kern ?s) = (if fails \<or> efd < 0 then (\<lambda>_. None) else [lfd \<mapsto> (EPOLLIN, MAX_EVENTS)])"
  proof (cases "fails \<or> efd < 0")
    case True
    then show ?thesis using eventadd_fails [of ?u MAX_EVENTS fails EPOLLIN] by (simp add: s) (simp add: no_fds_def)
  next
    case False
    then have f: "fails = False" "0 \<le> efd" by simp_all
    have "interest (kern (eventadd False EPOLLIN MAX_EVENTS ?u)) = [lfd \<mapsto> (EPOLLIN, MAX_EVENTS)]"
      by (subst eventadd_interest) (use f(2) in \<open>simp_all add: no_fds_def\<close>)
    then show ?thesis unfolding s [unfolded f(1)] f(1) using f(2) by (simp only: not_less [symmetric]) simp
  qed
  have tab: "table_ok ?s"
  proof (cases "efd < 0")
    case True
    then show ?thesis
      using table_set [OF tu, of MAX_EVENTS "(g_events ?u MAX_EVENTS)\<lparr>ev_events := EPOLLIN, ev_status := 1\<rparr>"]
      by (simp add: s eventadd_fails)
  next
    case False
    then show ?thesis unfolding s
      by (intro table_eventadd [OF tu]) (simp_all add: entry_ok_def no_fds_def)
  qed
  have "conns ?s = (\<lambda>_. None)" by (rule ext) (simp add: conns_def k)
  moreover have "batch_ok ?s" by (simp add: batch_ok_def s)
  ultimately show ?thesis using tab st k by (simp add: er_inv_def)
qed

lemma er_reach:
  "0 \<le> lfd \<Longrightarrow> runs er_step (er_start lfd efd fails now) es s \<Longrightarrow> er_inv s"
  using er_start_inv er.run_preserves by blast

text \<open>An entry that is in use without being on the interest list, and the listening entry.\<close>

definition stuck_entry :: "nat \<Rightarrow> server \<Rightarrow> bool" where
  "stuck_entry i s \<longleftrightarrow> ev_status (g_events s i) = 1 \<and> (\<forall>f m. interest (kern s) f \<noteq> Some (m, i))"




section \<open>Schedules\<close>

datatype er_move = Wait "(fd \<times> mask \<times> nat) list" | Serve io

definition er_exec :: "er_move \<Rightarrow> server \<Rightarrow> (net_event list \<times> server) option" where
  "er_exec mv s =
     (case mv of
        Wait b \<Rightarrow>
          if running s \<and> 0 \<le> g_efd s \<and> pending s = [] \<and> ready_batch (kern s) b \<and> length b \<le> MAX_EVENTS + 1
          then Some ([], s\<lparr>pending := b\<rparr>) else None
      | Serve r \<Rightarrow>
          (case pending s of
             [] \<Rightarrow> None
           | (f, m, i) # rest \<Rightarrow>
               if running s \<and> io_ok r s
               then map_option (\<lambda>(es, t). (es, t\<lparr>pending := rest\<rparr>)) (dispatch i m r r s) else None))"

lemma er_exec_step: "er_exec mv s = Some (es, t) \<Longrightarrow> er_step s es t"
  by (auto simp: er_exec_def intro: er_step.intros split: er_move.splits list.splits if_splits)

definition er_outcome :: "er_move list \<Rightarrow> server \<Rightarrow> (net_event list list \<Rightarrow> server \<Rightarrow> bool) \<Rightarrow> bool" where
  "er_outcome ms s P = (case follow er_exec ms s of None \<Rightarrow> False | Some (es, t) \<Rightarrow> P es t)"

lemma er_outcome_runs: "er_outcome ms s P \<Longrightarrow> \<exists>es t. runs er_step s es t \<and> P es t"
  unfolding er_outcome_def
  by (auto split: option.splits intro: follow_runs er_exec_step)

text \<open>One client connects on descriptor 7, sends a line and gets it back.\<close>

definition calls :: "fd \<Rightarrow> string option \<Rightarrow> nat option \<Rightarrow> io" where
  "calls f d n = \<lparr>r_accept = f, r_fcntl = 0, r_recv = d, r_send = n, r_time = 1, r_add_fails = False\<rparr>"

definition er_connect :: "er_move list" where
  "er_connect = [Wait [(3, EPOLLIN, MAX_EVENTS)], Serve (calls 7 None None), Wait [(7, EPOLLIN, 0)]]"

definition er_demo :: "er_move list" where
  "er_demo = er_connect @ [Serve (calls (-1) (Some ''hi'') None), Wait [(7, EPOLLOUT, 0)],
     Serve (calls (-1) None (Some 9)), Wait [(7, EPOLLIN, 0)], Serve (calls (-1) (Some ''yo'') None)]"

lemma er_connect_outcome:
  "er_outcome er_connect (er_start 3 5 False 0) (\<lambda>es s. pending s = [(7, EPOLLIN, 0)] \<and> interest (kern s) 7 = Some (EPOLLIN, 0))"
  by code_simp

lemma er_demo_outcome:
  "er_outcome er_demo (er_start 3 5 False 0)
     (\<lambda>es s. concat es = [NewConn 7, Data 7 ''hi'', Echo 7 ''hi'', Data 7 ''yo''])"
  by code_simp

section \<open>Properties\<close>



text \<open>A connection whose registration fails after its request has been read.\<close>

theorem er_add_failure:
  "\<exists>es s. runs er_step (er_start 3 5 False 0) es s \<and> concat es = [NewConn 7, Data 7 ''hi'', Lost 7]
     \<and> stuck_entry 0 s \<and> opened (kern s) 7"
proof -
  have "er_outcome (er_connect @ [Serve ((calls (-1) (Some ''hi'') None)\<lparr>r_add_fails := True\<rparr>)]) (er_start 3 5 False 0)
     (\<lambda>es s. concat es = [NewConn 7, Data 7 ''hi'', Lost 7] \<and> opened (kern s) 7
        \<and> ev_status (g_events s 0) = 1 \<and> ev_fd (g_events s 0) = 7 \<and> interest (kern s) 7 = None)"
    by code_simp
  from er_outcome_runs [OF this] obtain es s where r: "runs er_step (er_start 3 5 False 0) es s"
    and q: "concat es = [NewConn 7, Data 7 ''hi'', Lost 7]" "opened (kern s) 7"
      "ev_status (g_events s 0) = 1" "ev_fd (g_events s 0) = 7" "interest (kern s) 7 = None"
    by blast
  have "table_ok s" using er_reach [OF _ r] by (simp add: er_inv_def)
  then have "interest (kern s) f \<noteq> Some (m, 0)" for f m
    using q(4,5) unfolding table_ok_def by fastforce
  then show ?thesis using r q by (auto simp: stuck_entry_def)
qed

text \<open>C5: the server is an echo server for each connection by itself: every run, with any
  interleaving of connections, refines the specification in which a new connection waits
  for data, data that arrive are answered by a non-empty beginning of just these data
  before anything else is read, and closing ends the connection. (An answer is cut short
  when \<open>send\<close> takes only a part: the rest is never sent.)\<close>

theorem er_echoes:
  assumes "0 \<le> lfd" and "runs er_step (er_start lfd efd fails now) es s"
  shows "replay conns_spec es (\<lambda>_. None) = Some (conns s)"
  using er.run_refines [OF assms(2)] er_start_inv [OF assms(1), of efd fails now] by metis

theorem er_echoes_witness:
  "\<exists>es s. runs er_step (er_start 3 5 False 0) es s
     \<and> concat es = [NewConn 7, Data 7 ''hi'', Echo 7 ''hi'', Data 7 ''yo'']
     \<and> replay conns_spec es (\<lambda>_. None) = Some (conns s)"
proof -
  obtain es s where r: "runs er_step (er_start 3 5 False 0) es s"
    and e: "concat es = [NewConn 7, Data 7 ''hi'', Echo 7 ''hi'', Data 7 ''yo'']"
    using er_outcome_runs [OF er_demo_outcome] by blast
  from er_echoes [OF _ r] r e show ?thesis by auto
qed

text \<open>C26: in a reachable state serving the next ready entry has a defined result, but in one
  case: a receive that fills the buffer of \<open>BUFLEN\<close> bytes, after which the terminating zero
  is stored behind the array.\<close>

theorem er_only_overflow:
  assumes "0 \<le> lfd" and "runs er_step (er_start lfd efd fails now) es s"
    and "pending s = (f, m, i) # rest" and "io_ok r1 s"
  shows "dispatch i m r1 r2 s = None \<longleftrightarrow>
    has m EPOLLIN \<and> i \<noteq> MAX_EVENTS \<and> (\<exists>d. r_recv r1 = Some d \<and> length d = BUFLEN)"
proof -
  have inv: "er_inv s" by (rule er_reach [OF assms(1,2)])
  note h = head_ready [OF inv assms(3)] and d = dispatch_once [OF inv assms(3)]
  have len: "length d \<le> BUFLEN" if "r_recv r1 = Some d" for d
    using assms(4) that by (simp add: io_ok_def)
  have b: "0 < BUFLEN" by (simp add: BUFLEN_def)
  show ?thesis unfolding d
  proof (cases "i = MAX_EVENTS")
    case True
    then show "((if has m EPOLLIN then call i r1 s else if has m EPOLLOUT then call i r2 s
        else Some ([], s)) = None) = (has m EPOLLIN \<and> i \<noteq> MAX_EVENTS
        \<and> (\<exists>d. r_recv r1 = Some d \<and> length d = BUFLEN))"
      using h by (auto simp: call_def Let_def entry_ok_def)
  next
    case False
    have recv: "recvdata g i r1 s = None \<longleftrightarrow> (\<exists>d. r_recv r1 = Some d \<and> length d = BUFLEN)" for g
      using len b by (cases "r_recv r1") (auto simp: recvdata_def Let_def le_antisym)
    show "((if has m EPOLLIN then call i r1 s else if has m EPOLLOUT then call i r2 s
        else Some ([], s)) = None) = (has m EPOLLIN \<and> i \<noteq> MAX_EVENTS
        \<and> (\<exists>d. r_recv r1 = Some d \<and> length d = BUFLEN))"
      using h False recv by (auto simp: call_def Let_def entry_ok_def)
  qed
qed

theorem er_only_overflow_witness:
  "\<exists>es s. runs er_step (er_start 3 5 False 0) es s
     \<and> dispatch 0 EPOLLIN (calls (-1) (Some (replicate BUFLEN CHR ''x'')) None) (calls (-1) None None) s = None"
proof -
  obtain es s where r: "runs er_step (er_start 3 5 False 0) es s" and p: "pending s = [(7, EPOLLIN, 0)]"
    using er_outcome_runs [OF er_connect_outcome] by blast
  have "io_ok (calls (-1) (Some (replicate BUFLEN CHR ''x'')) None) s"
    by (simp add: io_ok_def calls_def)
  from er_only_overflow [OF _ r p this] r show ?thesis by (auto simp: calls_def MAX_EVENTS_def)
qed

end
