(* ===== verification/Sockets.thy ===== *)
theory Sockets
  imports Epoll
begin

text \<open>
  The connected sockets of the simple servers: for each descriptor the bytes that wait to be
  read and whether the peer has closed, and the connections that wait to be accepted.
\<close>

record streams =
  inq :: "fd \<Rightarrow> string"
  eof :: "fd \<Rightarrow> bool"
  backlog :: nat

definition no_streams :: streams where
  "no_streams = \<lparr>inq = (\<lambda>_. []), eof = (\<lambda>_. False), backlog = 0\<rparr>"

definition arrive :: "fd \<Rightarrow> string \<Rightarrow> streams \<Rightarrow> streams" where
  "arrive f d n = n\<lparr>inq := (inq n)(f := inq n f @ d)\<rparr>"

definition hang_up :: "fd \<Rightarrow> streams \<Rightarrow> streams" where
  "hang_up f n = n\<lparr>eof := (eof n)(f := True)\<rparr>"

text \<open>A new connection takes the descriptor \<open>f\<close>.\<close>

definition accept_on :: "fd \<Rightarrow> streams \<Rightarrow> streams" where
  "accept_on f n = n\<lparr>inq := (inq n)(f := []), eof := (eof n)(f := False), backlog := backlog n - 1\<rparr>"

definition has_input :: "streams \<Rightarrow> fd \<Rightarrow> bool" where
  "has_input n f \<longleftrightarrow> inq n f \<noteq> [] \<or> eof n f"

text \<open>\<open>read\<close> of at most \<open>k\<close> bytes from a blocking socket; \<open>None\<close> when it blocks.\<close>

definition read_fd :: "nat \<Rightarrow> fd \<Rightarrow> streams \<Rightarrow> (string \<times> streams) option" where
  "read_fd k f n =
     (if has_input n f then Some (take k (inq n f), n\<lparr>inq := (inq n)(f := drop k (inq n f))\<rparr>)
      else None)"

lemma read_fdD:
  "read_fd k f n = Some (d, n') \<Longrightarrow>
    inq n f = d @ inq n' f \<and> (\<forall>g. g \<noteq> f \<longrightarrow> inq n' g = inq n g) \<and> eof n' = eof n \<and> backlog n' = backlog n
    \<and> length d \<le> k"
  by (auto simp: read_fd_def split: if_splits)

lemma read_fd_empty: "read_fd k f n = Some ([], n') \<Longrightarrow> 0 < k \<Longrightarrow> inq n f = [] \<and> inq n' = inq n"
  by (auto simp: read_fd_def split: if_splits)

lemma read_fd_ready: "has_input n f \<Longrightarrow> read_fd k f n \<noteq> None"
  by (simp add: read_fd_def)

lemma has_input_frame:
  "has_input (arrive g d n) f \<longleftrightarrow> has_input n f \<or> (f = g \<and> d \<noteq> [])"
  "has_input (hang_up g n) f \<longleftrightarrow> has_input n f \<or> f = g"
  "f \<noteq> g \<Longrightarrow> has_input (accept_on g n) f \<longleftrightarrow> has_input n f"
  by (auto simp: has_input_def arrive_def hang_up_def accept_on_def)

text \<open>What the outside sees.\<close>

datatype net_ev =
    Quiet
  | Joined                      \<comment> \<open>a client is put into the backlog\<close>
  | Arrived fd string
  | Hangup fd
  | Accepted fd
  | Answered fd string
  | Unsent fd string            \<comment> \<open>an answer whose \<open>write\<close> failed\<close>
  | Ended fd

text \<open>What clients on a descriptor should get; what has been through \<open>write\<close> for them, whether
  that succeeded or not; and what a \<open>write\<close> has sent to them.\<close>

fun due :: "fd \<Rightarrow> net_ev \<Rightarrow> string" where
  "due f (Arrived g d) = (if g = f then map toupper d else [])"
| "due f _ = []"

fun answer :: "fd \<Rightarrow> net_ev \<Rightarrow> string" where
  "answer f (Answered g d) = (if g = f then d else [])"
| "answer f (Unsent g d) = (if g = f then d else [])"
| "answer f _ = []"

fun sent_to :: "fd \<Rightarrow> net_ev \<Rightarrow> string" where
  "sent_to f (Answered g d) = (if g = f then d else [])"
| "sent_to f _ = []"

lemma sent_all: "\<forall>d. Unsent f d \<notin> set es \<Longrightarrow> map (sent_to f) es = map (answer f) es"
proof (induction es)
  case (Cons e es)
  then have "sent_to f e = answer f e" by (cases e) auto
  then show ?case using Cons by simp
qed simp

section \<open>Writing\<close>

text \<open>The sockets block: a \<open>write\<close> succeeds, fails, or waits until the client has read enough.\<close>

datatype write_result = Writes | Write_fails | Write_blocks

fun write_end :: "write_result \<Rightarrow> fd \<Rightarrow> string \<Rightarrow> net_ev option" where
  "write_end Writes f out = Some (Answered f out)"
| "write_end Write_fails f out = Some (Unsent f out)"
| "write_end Write_blocks f out = None"

text \<open>The bytes for \<open>g\<close> in a \<open>write\<close> that has not returned.\<close>

definition in_write :: "fd \<Rightarrow> (fd \<times> string) option \<Rightarrow> string" where
  "in_write g w = (case w of None \<Rightarrow> [] | Some (f, out) \<Rightarrow> if f = g then out else [])"

lemma in_write_simps [simp]:
  "in_write g None = []" "in_write g (Some (f, out)) = (if f = g then out else [])"
  by (simp_all add: in_write_def)

lemma write_end_event:
  "write_end w f out = Some e \<Longrightarrow> answer g e = in_write g (Some (f, out)) \<and> due g e = []"
  "write_end w f out = Some e \<Longrightarrow> e = Answered f out \<or> e = Unsent f out"
  "write_end w f out = None \<longleftrightarrow> w = Write_blocks"
  by (cases w; auto)+

section \<open>What the clients do\<close>

text \<open>The clients of the server whose listening socket is \<open>lsn\<close> and whose descriptors are \<open>opn\<close>.\<close>

inductive net_env :: "fd \<Rightarrow> (fd \<Rightarrow> bool) \<Rightarrow> streams \<Rightarrow> net_ev \<Rightarrow> streams \<Rightarrow> bool" for lsn opn n where
  ne_join: "net_env lsn opn n Joined (n\<lparr>backlog := backlog n + 1\<rparr>)"
| ne_arrive: "opn f \<Longrightarrow> f \<noteq> lsn \<Longrightarrow> \<not> eof n f \<Longrightarrow> d \<noteq> [] \<Longrightarrow> net_env lsn opn n (Arrived f d) (arrive f d n)"
| ne_hangup: "opn f \<Longrightarrow> f \<noteq> lsn \<Longrightarrow> net_env lsn opn n (Hangup f) (hang_up f n)"

lemma net_env_frame:
  assumes "net_env lsn opn n e n'"
  shows "has_input n f \<Longrightarrow> has_input n' f" "backlog n \<le> backlog n'"
    "\<not> opn f \<Longrightarrow> inq n' f = inq n f"
    "answer f e @ map toupper (inq n' f) = map toupper (inq n f) @ due f e"
  using assms by (auto elim!: net_env.cases simp: has_input_def arrive_def hang_up_def split: if_splits)

section \<open>One client served\<close>

text \<open>A \<open>read\<close> of at most \<open>chunk\<close> bytes, and the bytes back in capitals: how it came out, what
  is seen of it, and what remains; \<open>None\<close> when the \<open>read\<close> blocks. A failed \<open>read\<close> returns -1,
  a length with which \<open>write\<close> fails.\<close>

datatype turn =
    Goes_on
  | Peer_left
  | In_write string             \<comment> \<open>these bytes are in a \<open>write\<close> that has not returned\<close>

definition capital_turn :: "nat \<Rightarrow> bool \<Rightarrow> write_result \<Rightarrow> fd \<Rightarrow> streams \<Rightarrow> (turn \<times> net_ev \<times> streams) option" where
  "capital_turn chunk read_fails w f n =
     (if read_fails then Some (Goes_on, Quiet, n)
      else case read_fd chunk f n of
          None \<Rightarrow> None
        | Some (buf, n') \<Rightarrow>
            if buf = [] then Some (Peer_left, Ended f, n')
            else (let out = map toupper buf
                  in Some (case write_end w f out of
                             Some e \<Rightarrow> (Goes_on, e, n')
                           | None \<Rightarrow> (In_write out, Quiet, n'))))"

text \<open>The \<open>write\<close> to \<open>f\<close> that a turn leaves behind.\<close>

definition left_writing :: "fd \<Rightarrow> turn \<Rightarrow> (fd \<times> string) option" where
  "left_writing f c = (case c of In_write out \<Rightarrow> Some (f, out) | _ \<Rightarrow> None)"

lemma left_writing_simps [simp]:
  "left_writing f Goes_on = None" "left_writing f Peer_left = None"
  "left_writing f (In_write out) = Some (f, out)"
  by (simp_all add: left_writing_def)

lemma capital_turn_cases:
  assumes "capital_turn chunk rfl w f n = Some (c, e, n')"
  obtains (failed) "rfl" "e = Quiet" "n' = n" "c = Goes_on"
    | (ended) "\<not> rfl" "read_fd chunk f n = Some ([], n')" "e = Ended f" "c = Peer_left"
    | (served) buf where "\<not> rfl" "read_fd chunk f n = Some (buf, n')" "buf \<noteq> []" "c = Goes_on"
      "write_end w f (map toupper buf) = Some e"
    | (writing) buf where "\<not> rfl" "read_fd chunk f n = Some (buf, n')" "buf \<noteq> []"
      "c = In_write (map toupper buf)" "e = Quiet" "w = Write_blocks"
proof (cases rfl)
  case True
  then show ?thesis using assms failed by (simp add: capital_turn_def)
next
  case False
  then obtain buf n2 where "read_fd chunk f n = Some (buf, n2)"
    using assms by (auto simp: capital_turn_def split: option.splits)
  note rd = this
  show ?thesis
  proof (cases "buf = []")
    case True
    then have "c = Peer_left \<and> e = Ended f \<and> n' = n2" using assms False rd by (simp add: capital_turn_def)
    with False rd True show ?thesis by (intro ended) simp_all
  next
    case ne: False
    show ?thesis
    proof (cases "write_end w f (map toupper buf)")
      case None
      then have "w = Write_blocks" by (simp add: write_end_event(3))
      moreover have "c = In_write (map toupper buf) \<and> e = Quiet \<and> n' = n2"
        using assms False rd ne None by (simp add: capital_turn_def Let_def)
      ultimately show ?thesis using False rd ne by (intro writing [of buf]) simp_all
    next
      case (Some e')
      then have "c = Goes_on \<and> e = e' \<and> n' = n2"
        using assms False rd ne by (simp add: capital_turn_def Let_def)
      with False rd ne Some show ?thesis by (intro served [of buf]) simp_all
    qed
  qed
qed

lemma capital_turnD:
  assumes "capital_turn chunk rfl w f n = Some (c, e, n')" "0 < chunk"
  shows "(answer g e @ in_write g (left_writing f c) @ map toupper (inq n' g) = map toupper (inq n g))
    \<and> due g e = []
    \<and> (g \<noteq> f \<longrightarrow> inq n' g = inq n g) \<and> eof n' = eof n \<and> backlog n' = backlog n
    \<and> (inq n g = [] \<longrightarrow> inq n' g = []) \<and> (c = Peer_left \<longrightarrow> inq n' f = [])"
  using assms(1)
proof (cases rule: capital_turn_cases)
  case ended
  have "inq n' = inq n" "inq n f = []" using read_fd_empty [OF ended(2) assms(2)] by blast+
  moreover have "eof n' = eof n \<and> backlog n' = backlog n" using read_fdD [OF ended(2)] by blast
  ultimately show ?thesis by (simp only: ended(3,4) answer.simps due.simps) simp
next
  case (served buf)
  note rd = read_fdD [OF served(2)]
  have "answer g e = (if g = f then map toupper buf else [])" "due g e = []"
    using write_end_event(1) [OF served(5), of g] by simp_all
  moreover have "inq n f = buf @ inq n' f" "g \<noteq> f \<Longrightarrow> inq n' g = inq n g"
    "eof n' = eof n" "backlog n' = backlog n" using rd by blast+
  ultimately show ?thesis using served(4) by (cases "g = f") simp_all
next
  case (writing buf)
  note rd = read_fdD [OF writing(2)]
  have "inq n f = buf @ inq n' f" "g \<noteq> f \<Longrightarrow> inq n' g = inq n g"
    "eof n' = eof n" "backlog n' = backlog n" using rd by blast+
  then show ?thesis by (cases "g = f") (simp_all add: writing(4,5))
next
  case failed
  then show ?thesis by simp
qed

lemma capital_turn_ready:
  assumes "has_input n f"
  shows "capital_turn chunk rfl w f n \<noteq> None"
proof -
  obtain buf n' where "read_fd chunk f n = Some (buf, n')" using read_fd_ready [OF assms, of chunk] by auto
  then show ?thesis by (auto simp: capital_turn_def Let_def split: option.splits)
qed

text \<open>Only a \<open>write\<close> that blocks is left behind.\<close>

lemma turn_writes:
  "capital_turn chunk rfl w f n = Some (In_write out, e, n') \<Longrightarrow> w = Write_blocks \<and> e = Quiet \<and> out \<noteq> []"
  by (auto elim: capital_turn_cases)

lemma turn_others:
  assumes "capital_turn chunk rfl w f n = Some (c, e, n')" "g \<noteq> f"
  shows "answer g e = []"
  using assms(1)
proof (cases rule: capital_turn_cases)
  case (served buf)
  then show ?thesis using write_end_event(1) [OF served(5), of g] assms(2) by simp
qed simp_all

text \<open>The events of accepting a connection, and those of serving one.\<close>

definition accepting :: "net_ev \<Rightarrow> bool" where
  "accepting e \<longleftrightarrow> (case e of Accepted f \<Rightarrow> True | _ \<Rightarrow> False)"

definition serving :: "net_ev \<Rightarrow> bool" where
  "serving e \<longleftrightarrow> (case e of Answered f d \<Rightarrow> True | Unsent f d \<Rightarrow> True | Ended f \<Rightarrow> True | _ \<Rightarrow> False)"

end
