(* ===== verification/EpollServers.thy ===== *)
theory EpollServers
  imports Sockets
begin

text \<open>
  The two servers of \<open>epoll/epoll_ET/server.c\<close> and \<open>epoll/epoll_LT/server.c\<close>, which answer
  in capitals. They differ in the mask of the listening socket (edge or level triggered)
  and in how many bytes they read at a time (5 or 512); the common body takes the latter
  as its argument.
\<close>

section \<open>State\<close>

record eserver =
  kern :: "fd kernel"
  net :: streams
  edge :: "fd \<Rightarrow> bool"             \<comment> \<open>something happened since the entry was last reported\<close>
  serverfd :: fd
  pending :: "(fd \<times> mask \<times> fd) list"
  writing :: "(fd \<times> string) option"   \<comment> \<open>a \<open>write\<close> that has not returned\<close>
  running :: bool

text \<open>Results of the calls for one entry: \<open>accept\<close>, whether \<open>read\<close> fails, and \<open>write\<close>.\<close>

record eio =
  r_accept :: fd
  r_read_fails :: bool
  r_write :: write_result

definition exit1 :: "eserver \<Rightarrow> eserver" where
  "exit1 s = s\<lparr>running := False\<rparr>"

definition readable :: "eserver \<Rightarrow> fd \<Rightarrow> bool" where
  "readable s f = (if f = serverfd s then 0 < backlog (net s) else has_input (net s) f)"

section \<open>The loop body\<close>

text \<open>\<open>accept\<close> on the listening socket; \<open>None\<close> when it blocks.\<close>

definition serve_listener :: "eio \<Rightarrow> eserver \<Rightarrow> (net_ev \<times> eserver) option" where
  "serve_listener r s =
     (if backlog (net s) = 0 then None
      else
        (let confd = r_accept r;
             s = (if confd = -1 then s
                  else s\<lparr>kern := open_fd confd (kern s), net := accept_on confd (net s)\<rparr>)
         in case epoll_ctl EPOLL_CTL_ADD confd EPOLLIN confd (kern s) of
              (added, k) \<Rightarrow> if added then Some (Accepted confd, s\<lparr>kern := k\<rparr>) else Some (Quiet, exit1 s)))"

definition serve_client :: "nat \<Rightarrow> eio \<Rightarrow> fd \<Rightarrow> eserver \<Rightarrow> (net_ev \<times> eserver) option" where
  "serve_client chunk r f s =
     (if r_read_fails r then Some (Quiet, s)
      else case read_fd chunk f (net s) of
          None \<Rightarrow> None
        | Some (buf, n) \<Rightarrow>
            if buf = []
            then Some (Ended f,
                   s\<lparr>net := n, kern := close_fd f (snd (epoll_ctl EPOLL_CTL_DEL f 0 0 (kern s)))\<rparr>)
            else (let out = map toupper buf
                  in Some (case write_end (r_write r) f out of
                             Some e \<Rightarrow> (e, s\<lparr>net := n\<rparr>)
                           | None \<Rightarrow> (Quiet, s\<lparr>net := n, writing := Some (f, out)\<rparr>))))"

definition serve_entry :: "nat \<Rightarrow> eio \<Rightarrow> mask \<Rightarrow> fd \<Rightarrow> eserver \<Rightarrow> (net_ev \<times> eserver) option" where
  "serve_entry chunk r m d s =
     (if d = serverfd s then serve_listener r s
      else if has m EPOLLIN then serve_client chunk r d s
      else Some (Quiet, s))"

text \<open>A \<open>write\<close> that blocked comes to its end.\<close>

definition finish_write :: "eio \<Rightarrow> eserver \<Rightarrow> (net_ev \<times> eserver) option" where
  "finish_write r s =
     (case writing s of
        None \<Rightarrow> None
      | Some (f, out) \<Rightarrow> map_option (\<lambda>e. (e, s\<lparr>writing := None\<rparr>)) (write_end (r_write r) f out))"

text \<open>What \<open>epoll_wait\<close> may report: an entry that is readable and, when its mask is edge
  triggered, has had news since the last report.\<close>

definition reportable :: "eserver \<Rightarrow> fd \<times> mask \<times> fd \<Rightarrow> bool" where
  "reportable s = (\<lambda>(f, m, d). case interest (kern s) f of
       None \<Rightarrow> False
     | Some (w, d') \<Rightarrow> d = d' \<and> has m EPOLLIN \<and> has w EPOLLIN \<and> readable s f
         \<and> (has w EPOLLET \<longrightarrow> edge s f))"

inductive eserver_step :: "nat \<Rightarrow> eserver \<Rightarrow> net_ev \<Rightarrow> eserver \<Rightarrow> bool" for chunk where
  join: "eserver_step chunk s Joined
     (s\<lparr>net := (net s)\<lparr>backlog := backlog (net s) + 1\<rparr>, edge := (edge s)(serverfd s := True)\<rparr>)"
| arrive: "opened (kern s) f \<Longrightarrow> f \<noteq> serverfd s \<Longrightarrow> \<not> eof (net s) f \<Longrightarrow> d \<noteq> [] \<Longrightarrow>
     eserver_step chunk s (Arrived f d) (s\<lparr>net := arrive f d (net s), edge := (edge s)(f := True)\<rparr>)"
| hangup: "opened (kern s) f \<Longrightarrow> f \<noteq> serverfd s \<Longrightarrow>
     eserver_step chunk s (Hangup f) (s\<lparr>net := hang_up f (net s), edge := (edge s)(f := True)\<rparr>)"
| wait: "running s \<Longrightarrow> writing s = None \<Longrightarrow> pending s = [] \<Longrightarrow> b \<noteq> [] \<Longrightarrow> length b \<le> 256 \<Longrightarrow> distinct (map fst b) \<Longrightarrow>
     list_all (reportable s) b \<Longrightarrow>
     eserver_step chunk s Quiet (s\<lparr>pending := b, edge := (\<lambda>f. edge s f \<and> f \<notin> set (map fst b))\<rparr>)"
| wait_fails: "running s \<Longrightarrow> writing s = None \<Longrightarrow> pending s = [] \<Longrightarrow> eserver_step chunk s Quiet (exit1 s)"
| serve: "running s \<Longrightarrow> writing s = None \<Longrightarrow> pending s = (f, m, d) # rest \<Longrightarrow>
     r_accept r = -1 \<or> fresh_fd (r_accept r) (kern s) \<Longrightarrow>
     serve_entry chunk r m d s = Some (e, t) \<Longrightarrow> eserver_step chunk s e (t\<lparr>pending := rest\<rparr>)"
| written: "running s \<Longrightarrow> finish_write r s = Some (e, t) \<Longrightarrow> eserver_step chunk s e t"

section \<open>Start-up\<close>

text \<open>\<open>None\<close> is \<open>exit(1)\<close>: a call of the set-up failed.\<close>

definition server_setup :: "mask \<Rightarrow> fd \<Rightarrow> int \<Rightarrow> int \<Rightarrow> eserver option" where
  "server_setup lm sockfd bind_result epoll_result =
     (if sockfd < 0 \<or> bind_result < 0 \<or> epoll_result < 0 then None
      else Some
        \<lparr>kern = snd (epoll_ctl EPOLL_CTL_ADD sockfd lm sockfd (open_fd sockfd no_fds)),
         net = no_streams, edge = (\<lambda>_. False), serverfd = sockfd, pending = [], writing = None, running = True\<rparr>)"

definition et_setup :: "fd \<Rightarrow> int \<Rightarrow> int \<Rightarrow> eserver option" where
  "et_setup = server_setup (EPOLLIN OR EPOLLET)"

definition lt_setup :: "fd \<Rightarrow> int \<Rightarrow> int \<Rightarrow> eserver option" where
  "lt_setup = server_setup EPOLLIN"

definition et_entry :: "eio \<Rightarrow> mask \<Rightarrow> fd \<Rightarrow> eserver \<Rightarrow> (net_ev \<times> eserver) option" where
  "et_entry = serve_entry 5"

definition lt_entry :: "eio \<Rightarrow> mask \<Rightarrow> fd \<Rightarrow> eserver \<Rightarrow> (net_ev \<times> eserver) option" where
  "lt_entry = serve_entry 512"

abbreviation et_step :: "eserver \<Rightarrow> net_ev \<Rightarrow> eserver \<Rightarrow> bool" where "et_step \<equiv> eserver_step 5"
abbreviation lt_step :: "eserver \<Rightarrow> net_ev \<Rightarrow> eserver \<Rightarrow> bool" where "lt_step \<equiv> eserver_step 512"

end
