(* ===== verification/EpollServersProps.thy ===== *)
theory EpollServersProps
  imports EpollServers
begin

text \<open>
  Every run of the two epoll servers: clients get the capitals of what they sent, in order
  and completely; besides \<open>epoll_wait\<close> the server blocks only in a \<open>write\<close>; and what edge triggering on the
  listening socket costs.
\<close>

section \<open>Invariant\<close>

text \<open>The interest list: each open descriptor watches itself, clients for reading.\<close>

definition watch_ok :: "eserver \<Rightarrow> bool" where
  "watch_ok s \<longleftrightarrow>
     opened (kern s) (serverfd s)
     \<and> (\<exists>m. interest (kern s) (serverfd s) = Some (m, serverfd s) \<and> has m EPOLLIN)
     \<and> (\<forall>f m d. interest (kern s) f = Some (m, d) \<longrightarrow>
          d = f \<and> opened (kern s) f \<and> (f \<noteq> serverfd s \<longrightarrow> m = EPOLLIN))
     \<and> (running s \<longrightarrow> (\<forall>f. opened (kern s) f \<longrightarrow> interest (kern s) f \<noteq> None))
     \<and> (\<forall>f. \<not> opened (kern s) f \<longrightarrow> inq (net s) f = [])
     \<and> \<not> opened (kern s) (-1)"

definition entry_ready :: "eserver \<Rightarrow> fd \<times> mask \<times> fd \<Rightarrow> bool" where
  "entry_ready s = (\<lambda>(f, m, d). d = f \<and> has m EPOLLIN \<and> opened (kern s) f \<and> readable s f)"

definition es_inv :: "eserver \<Rightarrow> bool" where
  "es_inv s \<longleftrightarrow> watch_ok s \<and> distinct (map fst (pending s)) \<and> list_all (entry_ready s) (pending s)"

lemma entry_ready_frame:
  "kern t = kern s \<Longrightarrow> net t = net s \<Longrightarrow> serverfd t = serverfd s \<Longrightarrow> entry_ready t = entry_ready s"
  by (simp add: entry_ready_def readable_def cong: if_cong)

lemma entry_ready_simps [simp]:
  "entry_ready (s\<lparr>pending := b\<rparr>) = entry_ready s"
  "entry_ready (s\<lparr>pending := b, edge := c\<rparr>) = entry_ready s"
  "entry_ready (s\<lparr>running := r\<rparr>) = entry_ready s"
  "entry_ready (s\<lparr>writing := w\<rparr>) = entry_ready s"
  by (rule entry_ready_frame; simp)+

lemma watch_ok_simps [simp]:
  "watch_ok (s\<lparr>pending := b\<rparr>) = watch_ok s" "watch_ok (s\<lparr>writing := u\<rparr>) = watch_ok s"
  "watch_ok (s\<lparr>pending := b, edge := c\<rparr>) = watch_ok s"
  by (simp_all add: watch_ok_def)

lemma fresh_unwatched:
  "watch_ok s \<Longrightarrow> \<not> opened (kern s) f \<Longrightarrow> interest (kern s) f = None \<and> f \<noteq> serverfd s"
  unfolding watch_ok_def by (cases "interest (kern s) f") auto

section \<open>Serving one entry\<close>

lemma es_listener_step:
  assumes w: "watch_ok s" and acc: "r_accept r = -1 \<or> fresh_fd (r_accept r) (kern s)"
    and serve: "serve_listener r s = Some (e, t)"
  shows "watch_ok t \<and> (\<forall>g. inq (net t) g = inq (net s) g) \<and> (\<forall>g. answer g e = [] \<and> due g e = [])
    \<and> (\<forall>g. g \<noteq> serverfd s \<longrightarrow> opened (kern s) g \<longrightarrow> opened (kern t) g
          \<and> (has_input (net s) g \<longrightarrow> has_input (net t) g))
    \<and> serverfd t = serverfd s \<and> pending t = pending s \<and> writing t = writing s
    \<and> interest (kern t) (serverfd s) = interest (kern s) (serverfd s)"
proof (cases "r_accept r = -1")
  case True
  have "\<not> opened (kern s) (-1)" using w by (simp add: watch_ok_def)
  then have "e = Quiet \<and> t = exit1 s"
    using serve True by (auto simp: serve_listener_def Let_def split: if_splits)
  then show ?thesis using w by (auto simp: exit1_def watch_ok_def)
next
  case False
  then have fr: "\<not> opened (kern s) (r_accept r)" using acc by (simp add: fresh_fd_def)
  note nn = fresh_unwatched [OF w fr]
  have t: "e = Accepted (r_accept r)"
    "t = s\<lparr>kern := (open_fd (r_accept r) (kern s))\<lparr>interest := (interest (kern s))(r_accept r \<mapsto> (EPOLLIN, r_accept r))\<rparr>,
           net := accept_on (r_accept r) (net s)\<rparr>"
    using serve False nn
    by (auto simp: serve_listener_def Let_def split: if_splits)
  have q: "inq (net s) (r_accept r) = []" using w fr by (simp add: watch_ok_def)
  have "watch_ok t" using w nn False unfolding watch_ok_def t(2) by (auto simp: accept_on_def)
  moreover have "inq (net t) g = inq (net s) g" for g using q by (simp add: t accept_on_def)
  ultimately show ?thesis using fr nn by (auto simp: t has_input_frame)
qed

lemma es_client_step:
  assumes w: "watch_ok s" and f: "opened (kern s) f" "f \<noteq> serverfd s"
    and serve: "serve_client chunk r f s = Some (e, t)" and chunk: "0 < chunk" and idle: "writing s = None"
  shows "watch_ok t \<and> answer g e @ in_write g (writing t) @ map toupper (inq (net t) g) = map toupper (inq (net s) g)
    \<and> due g e = []
    \<and> (\<forall>g. g \<noteq> f \<longrightarrow> opened (kern t) g = opened (kern s) g \<and> (has_input (net s) g \<longrightarrow> has_input (net t) g))
    \<and> serverfd t = serverfd s \<and> pending t = pending s \<and> backlog (net t) = backlog (net s)
    \<and> interest (kern t) (serverfd s) = interest (kern s) (serverfd s)"
proof (cases "r_read_fails r")
  case True
  then show ?thesis using serve w idle by (auto simp: serve_client_def)
next
  case False
  then obtain buf n where rd: "read_fd chunk f (net s) = Some (buf, n)"
    using serve by (auto simp: serve_client_def split: option.splits)
  note q = read_fdD [OF rd]
  show ?thesis
  proof (cases "buf = []")
    case True
    then have t: "e = Ended f"
      "t = s\<lparr>net := n, kern := close_fd f (snd (epoll_ctl EPOLL_CTL_DEL f 0 0 (kern s)))\<rparr>"
      using serve False rd by (auto simp: serve_client_def)
    have i: "inq n = inq (net s)" "inq (net s) f = []" using read_fd_empty [of chunk f] rd True chunk by auto
    have "watch_ok t" using w f i unfolding watch_ok_def t(2) by auto
    then show ?thesis using q i f idle by (auto simp: t has_input_def)
  next
    case ne: False
    let ?out = "map toupper buf"
    have "watch_ok (s\<lparr>net := n, writing := u\<rparr>)" for u using w f q unfolding watch_ok_def by auto
    moreover have "watch_ok (s\<lparr>net := n\<rparr>)" using w f q unfolding watch_ok_def by auto
    moreover have "t = s\<lparr>net := n\<rparr> \<and> write_end (r_write r) f ?out = Some e
      \<or> t = s\<lparr>net := n, writing := Some (f, ?out)\<rparr> \<and> e = Quiet"
      using serve False rd ne by (auto simp: serve_client_def Let_def split: option.splits)
    moreover have "map toupper (inq (net s) g) = in_write g (Some (f, ?out)) @ map toupper (inq n g)"
      using q by (cases "g = f") simp_all
    ultimately show ?thesis using q idle write_end_event(1) [of "r_write r" f ?out e g]
      by (elim disjE) (simp_all add: has_input_def)
  qed
qed

lemma es_serve_inv:
  assumes inv: "es_inv s" and pend: "pending s = (f, m, d) # rest"
    and acc: "r_accept r = -1 \<or> fresh_fd (r_accept r) (kern s)"
    and serve: "serve_entry chunk r m d s = Some (e, t)" and chunk: "0 < chunk" and idle: "writing s = None"
  shows "es_inv (t\<lparr>pending := rest\<rparr>)
    \<and> answer g e @ in_write g (writing t) @ map toupper (inq (net t) g) = map toupper (inq (net s) g) @ due g e
    \<and> serverfd t = serverfd s \<and> interest (kern t) (serverfd s) = interest (kern s) (serverfd s)"
proof -
  have w: "watch_ok s" and h: "d = f" "has m EPOLLIN" "opened (kern s) f" "readable s f"
    and rest: "f \<notin> set (map fst rest)" "distinct (map fst rest)" "list_all (entry_ready s) rest"
    using inv pend by (auto simp: es_inv_def entry_ready_def)
  have keep: "list_all (entry_ready t) rest"
    if "\<And>g. g \<noteq> f \<Longrightarrow> opened (kern s) g \<Longrightarrow> readable s g \<Longrightarrow> opened (kern t) g \<and> readable t g"
  proof -
    note other = that
    have "entry_ready t x" if x: "x \<in> set rest" for x
    proof -
      have "fst x \<noteq> f" using x rest(1) by auto
      moreover have "entry_ready s x" using x rest(3) by (simp add: list_all_iff)
      ultimately show ?thesis using other by (auto simp: entry_ready_def)
    qed
    then show ?thesis by (simp add: list_all_iff)
  qed
  show ?thesis
  proof (cases "d = serverfd s")
    case True
    then have "serve_listener r s = Some (e, t)" using serve by (simp add: serve_entry_def)
    note st = es_listener_step [OF w acc this]
    have "list_all (entry_ready t) rest"
      by (rule keep) (use st True h in \<open>auto simp: readable_def\<close>)
    then show ?thesis using st rest(2) idle by (simp add: es_inv_def)
  next
    case False
    then have "serve_client chunk r f s = Some (e, t)" using serve h by (simp add: serve_entry_def)
    note st = es_client_step [OF w h(3) _ this chunk idle]
    have "list_all (entry_ready t) rest"
      by (rule keep) (use st False h in \<open>auto simp: readable_def\<close>)
    then show ?thesis using st False h rest(2) by (simp add: es_inv_def)
  qed
qed

lemma es_inv_frame:
  assumes "es_inv s" "kern t = kern s" "serverfd t = serverfd s" "pending t = pending s" "running t = running s"
    "\<And>f. \<not> opened (kern s) f \<Longrightarrow> inq (net t) f = inq (net s) f"
    "\<And>f. readable s f \<Longrightarrow> readable t f"
  shows "es_inv t"
proof -
  have "watch_ok t" using assms(1-6) by (simp add: es_inv_def watch_ok_def)
  moreover have "list_all (entry_ready t) (pending t)"
    using assms(1,2,4,7) by (auto simp: es_inv_def entry_ready_def list_all_iff)
  ultimately show ?thesis using assms(1,4) by (simp add: es_inv_def)
qed

text \<open>What clients on \<open>g\<close> have sent and the server has not got through \<open>write\<close>, in capitals.\<close>

definition es_held :: "fd \<Rightarrow> eserver \<Rightarrow> string" where
  "es_held g s = in_write g (writing s) @ map toupper (inq (net s) g)"

lemma finish_writeD:
  "finish_write r s = Some (e, t) \<Longrightarrow>
    t = s\<lparr>writing := None\<rparr> \<and> answer g e = in_write g (writing s) \<and> due g e = []"
  using write_end_event(1) by (auto simp: finish_write_def split: option.splits)

lemma eserver_step_inv:
  assumes "0 < chunk"
  shows "eserver_step chunk s e t \<Longrightarrow> es_inv s \<Longrightarrow>
    es_inv t \<and> answer g e @ es_held g t = es_held g s @ due g e
    \<and> serverfd t = serverfd s \<and> interest (kern t) (serverfd s) = interest (kern s) (serverfd s)"
proof (induction rule: eserver_step.induct)
  case (join s)
  have "es_inv (s\<lparr>net := (net s)\<lparr>backlog := backlog (net s) + 1\<rparr>, edge := (edge s)(serverfd s := True)\<rparr>)"
    by (rule es_inv_frame [OF join]) (auto simp: readable_def has_input_def)
  then show ?case by (simp add: es_held_def)
next
  case (arrive s f d)
  have "es_inv (s\<lparr>net := arrive f d (net s), edge := (edge s)(f := True)\<rparr>)"
    by (rule es_inv_frame [OF arrive.prems])
      (use arrive.hyps in \<open>auto simp: readable_def has_input_frame, auto simp: arrive_def\<close>)
  then show ?case by (simp add: arrive_def es_held_def)
next
  case (hangup s f)
  have "es_inv (s\<lparr>net := hang_up f (net s), edge := (edge s)(f := True)\<rparr>)"
    by (rule es_inv_frame [OF hangup.prems])
      (auto simp: readable_def has_input_frame, auto simp: hang_up_def)
  then show ?case by (simp add: hang_up_def es_held_def)
next
  case (wait s b)
  have "entry_ready s x" if "reportable s x" for x
    using that wait.prems by (auto simp: reportable_def entry_ready_def es_inv_def watch_ok_def split: option.splits)
  then have "list_all (entry_ready s) b" using wait.hyps by (auto simp: list_all_iff)
  then show ?case using wait by (simp add: es_inv_def es_held_def)
next
  case (wait_fails s)
  then show ?case by (auto simp: es_inv_def exit1_def watch_ok_def es_held_def)
next
  case (serve s f m d rest r e t)
  then show ?case using es_serve_inv [OF serve.prems serve.hyps(3,4,5) assms serve.hyps(2)]
    by (auto simp: es_held_def)
next
  case (written s r e t)
  then show ?case using finish_writeD [OF written.hyps(2), of g] by (simp add: es_inv_def es_held_def)
qed

interpretation et: conserving_system et_step es_inv "due g" "answer g" "es_held g" for g
  by unfold_locales (use eserver_step_inv [of 5] in auto)

interpretation lt: conserving_system lt_step es_inv "due g" "answer g" "es_held g" for g
  by unfold_locales (use eserver_step_inv [of 512] in auto)

lemma es_setup_inv:
  assumes "server_setup lm f b p = Some s" "has lm EPOLLIN"
  shows "es_inv s \<and> es_held g s = []"
proof -
  have f: "0 \<le> f" "s = \<lparr>kern = snd (epoll_ctl EPOLL_CTL_ADD f lm f (open_fd f no_fds)),
         net = no_streams, edge = (\<lambda>_. False), serverfd = f, pending = [], writing = None, running = True\<rparr>"
    using assms(1) by (auto simp: server_setup_def split: if_splits)
  show ?thesis using assms(2) f(1)
    by (auto simp: f(2) es_inv_def watch_ok_def no_fds_def no_streams_def es_held_def)
qed

lemma et_setup_inv: "et_setup f b p = Some s \<Longrightarrow> es_inv s \<and> es_held g s = []"
  unfolding et_setup_def by (erule es_setup_inv) simp

lemma lt_setup_inv: "lt_setup f b p = Some s \<Longrightarrow> es_inv s \<and> es_held g s = []"
  unfolding lt_setup_def by (erule es_setup_inv) simp

text \<open>The level triggered server keeps the mask of its listening socket.\<close>

definition lt_inv :: "eserver \<Rightarrow> bool" where
  "lt_inv s \<longleftrightarrow> es_inv s \<and> interest (kern s) (serverfd s) = Some (EPOLLIN, serverfd s)"

interpretation ltm: inductive_invariant lt_step lt_inv
  by unfold_locales (use eserver_step_inv [of 512] in \<open>auto simp: lt_inv_def\<close>)

lemma lt_setup_lt_inv: "lt_setup f b p = Some s \<Longrightarrow> lt_inv s"
  using lt_setup_inv [of f b p s]
  by (auto simp: lt_inv_def lt_setup_def server_setup_def no_fds_def split: if_splits)

text \<open>Where clients send nothing there is nothing to read.\<close>

lemma silent_step:
  assumes "eserver_step chunk s e t" "case e of Arrived f d \<Rightarrow> False | Hangup f \<Rightarrow> False | _ \<Rightarrow> True"
    "\<And>f. \<not> has_input (net s) f"
  shows "\<not> has_input (net t) f"
  using assms
  by (cases rule: eserver_step.cases)
    (auto simp: exit1_def serve_entry_def serve_listener_def serve_client_def finish_write_def Let_def
      has_input_def accept_on_def read_fd_def split: if_splits prod.splits option.splits)

lemma silent_run:
  assumes "runs (eserver_step chunk) s es t"
    "list_all (\<lambda>e. case e of Arrived f d \<Rightarrow> False | Hangup f \<Rightarrow> False | _ \<Rightarrow> True) es"
    "\<And>f. \<not> has_input (net s) f"
  shows "\<not> has_input (net t) f"
  using assms
proof (induction arbitrary: f rule: runs.induct)
  case (snoc s es t e u)
  show ?case
    by (rule silent_step [OF snoc.hyps(2)]) (use snoc in auto)
qed

section \<open>Schedules\<close>

datatype es_move = Join | Arrive fd string | Hang fd | Wait "(fd \<times> mask \<times> fd) list" | Serve eio | Finish eio

definition es_exec :: "nat \<Rightarrow> es_move \<Rightarrow> eserver \<Rightarrow> (net_ev \<times> eserver) option" where
  "es_exec chunk mv s =
     (case mv of
        Join \<Rightarrow> Some (Joined, s\<lparr>net := (net s)\<lparr>backlog := backlog (net s) + 1\<rparr>, edge := (edge s)(serverfd s := True)\<rparr>)
      | Arrive f d \<Rightarrow>
          if opened (kern s) f \<and> f \<noteq> serverfd s \<and> \<not> eof (net s) f \<and> d \<noteq> []
          then Some (Arrived f d, s\<lparr>net := arrive f d (net s), edge := (edge s)(f := True)\<rparr>) else None
      | Hang f \<Rightarrow>
          if opened (kern s) f \<and> f \<noteq> serverfd s
          then Some (Hangup f, s\<lparr>net := hang_up f (net s), edge := (edge s)(f := True)\<rparr>) else None
      | Wait b \<Rightarrow>
          if running s \<and> writing s = None \<and> pending s = [] \<and> b \<noteq> [] \<and> length b \<le> 256 \<and> distinct (map fst b) \<and> list_all (reportable s) b
          then Some (Quiet, s\<lparr>pending := b, edge := (\<lambda>f. edge s f \<and> f \<notin> set (map fst b))\<rparr>) else None
      | Serve r \<Rightarrow>
          (case pending s of
             [] \<Rightarrow> None
           | (f, m, d) # rest \<Rightarrow>
               if running s \<and> writing s = None \<and> (r_accept r = -1 \<or> fresh_fd (r_accept r) (kern s))
               then map_option (\<lambda>(e, t). (e, t\<lparr>pending := rest\<rparr>)) (serve_entry chunk r m d s) else None)
      | Finish r \<Rightarrow> if running s then finish_write r s else None)"

lemma es_exec_step: "es_exec chunk mv s = Some (e, t) \<Longrightarrow> eserver_step chunk s e t"
  by (auto simp: es_exec_def
      intro: eserver_step.intros eserver_step.join [simplified] eserver_step.wait [simplified]
      split: es_move.splits list.splits if_splits)

definition es_outcome ::
  "nat \<Rightarrow> es_move list \<Rightarrow> eserver option \<Rightarrow> (net_ev list \<Rightarrow> eserver \<Rightarrow> bool) \<Rightarrow> bool" where
  "es_outcome chunk ms s0 P =
     (case s0 of None \<Rightarrow> False
      | Some s \<Rightarrow> (case follow (es_exec chunk) ms s of None \<Rightarrow> False | Some (es, t) \<Rightarrow> P es t))"

lemma es_outcome_runs:
  "es_outcome chunk ms s0 P \<Longrightarrow> \<exists>s es t. s0 = Some s \<and> runs (eserver_step chunk) s es t \<and> P es t"
  unfolding es_outcome_def
  by (auto split: option.splits intro: follow_runs es_exec_step)

definition gets :: "fd \<Rightarrow> eio" where
  "gets f = \<lparr>r_accept = f, r_read_fails = False, r_write = Writes\<rparr>"

text \<open>A client sends seven bytes; the edge triggered server reads them in two rounds.\<close>

definition es_demo :: "es_move list" where
  "es_demo = [Join, Wait [(3, EPOLLIN, 3)], Serve (gets 4), Arrive 4 ''hello, '', Wait [(4, EPOLLIN, 4)],
     Serve (gets (-1)), Arrive 4 ''you'', Wait [(4, EPOLLIN, 4)]]"

definition stuck :: eio where
  "stuck = \<lparr>r_accept = -1, r_read_fails = False, r_write = Write_blocks\<rparr>"

lemma es_demo_outcome:
  "es_outcome 5 es_demo (et_setup 3 0 5) (\<lambda>es s. pending s = [(4, EPOLLIN, 4)] \<and> writing s = None)"
  "es_outcome 5 (es_demo @ [Serve stuck]) (et_setup 3 0 5)
     (\<lambda>es s. in_write 4 (writing s) = '', YOU'' \<and> inq (net s) 4 = []
        \<and> list_all (\<lambda>e. case e of Unsent f d \<Rightarrow> False | _ \<Rightarrow> True) es)"
  by code_simp+

text \<open>Two clients connect before the listening socket is reported.\<close>

definition es_two :: "es_move list" where
  "es_two = [Join, Join, Wait [(3, EPOLLIN, 3)], Serve (gets 4)]"

lemma es_two_outcome:
  "es_outcome 5 es_two (et_setup 3 0 5)
     (\<lambda>es s. running s \<and> pending s = [] \<and> backlog (net s) = 1 \<and> \<not> edge s (serverfd s)
        \<and> interest (kern s) (serverfd s) = Some (EPOLLIN OR EPOLLET, serverfd s)
        \<and> list_all (\<lambda>e. case e of Arrived f d \<Rightarrow> False | Hangup f \<Rightarrow> False | _ \<Rightarrow> True) es)"
  "es_outcome 512 es_two (lt_setup 3 0 5)
     (\<lambda>es s. running s \<and> pending s = [] \<and> writing s = None \<and> backlog (net s) = 1 \<and> opened (kern s) 3 \<and> serverfd s = 3)"
  by code_simp+

section \<open>Properties\<close>

text \<open>C7: each of the two servers answers in capitals: for each descriptor, what has been through
  \<open>write\<close>, followed by the bytes of a \<open>write\<close> that has not returned and the capitals of the
  bytes that still wait to be read, is at every moment the capitals of what the clients on it
  have sent, in order and without loss or repetition. Where no \<open>write\<close> to the descriptor failed,
  this is what has been sent to the clients; what a failed \<open>write\<close> was given is lost.\<close>

theorem es_uppercases:
  assumes "et_setup f b p = Some s0 \<and> runs et_step s0 es s \<or> lt_setup f b p = Some s0 \<and> runs lt_step s0 es s"
  shows "concat (map (answer g) es) @ in_write g (writing s) @ map toupper (inq (net s) g) = concat (map (due g) es)
    \<and> ((\<forall>d. Unsent g d \<notin> set es) \<longrightarrow>
        concat (map (sent_to g) es) @ in_write g (writing s) @ map toupper (inq (net s) g) = concat (map (due g) es))"
proof -
  have eq: "concat (map (answer g) es) @ es_held g s = concat (map (due g) es)"
    using assms et_setup_inv lt_setup_inv et.run_conserves [of s0 es s g] lt.run_conserves [of s0 es s g] by fastforce
  moreover have "concat (map (sent_to g) es) = concat (map (answer g) es)" if "\<forall>d. Unsent g d \<notin> set es"
    unfolding sent_all [OF that] ..
  ultimately show ?thesis unfolding es_held_def by metis
qed

theorem es_uppercases_witness:
  "\<exists>s0 es s. et_setup 3 0 5 = Some s0 \<and> runs et_step s0 es s \<and> in_write 4 (writing s) = '', YOU''
     \<and> concat (map (sent_to 4) es) @ '', YOU'' = concat (map (due 4) es)"
proof -
  obtain s0 es s where r: "et_setup 3 0 5 = Some s0" "runs et_step s0 es s"
    and q: "in_write 4 (writing s) = '', YOU''" "inq (net s) 4 = []"
    and l: "list_all (\<lambda>e. case e of Unsent f d \<Rightarrow> False | _ \<Rightarrow> True) es"
    using es_outcome_runs [OF es_demo_outcome(2)] by blast
  have "\<forall>d. Unsent 4 d \<notin> set es" using l by (auto simp: list_all_iff)
  then have "concat (map (sent_to 4) es) @ in_write 4 (writing s) @ map toupper (inq (net s) 4) = concat (map (due 4) es)"
    using es_uppercases [of 3 0 5 s0 es s 4] r by blast
  then show ?thesis using r q by auto
qed



text \<open>With level triggering nobody is forgotten: whenever the server is about to wait and a
  client waits to be accepted or to be read, \<open>epoll_wait\<close> may report it at once.\<close>

theorem lt_forgets_nobody:
  assumes "lt_setup f b p = Some s0" and "runs lt_step s0 es s"
    and "running s" and "writing s = None" and "pending s = []" and "opened (kern s) g" and "readable s g"
  shows "\<exists>t. lt_step s Quiet t \<and> pending t = [(g, EPOLLIN, g)]"
proof -
  have i: "lt_inv s" by (rule ltm.run_preserves [OF assms(2) lt_setup_lt_inv [OF assms(1)]])
  then have w: "watch_ok s" by (simp add: lt_inv_def es_inv_def)
  then obtain m d where md: "interest (kern s) g = Some (m, d)"
    using assms(3,6) by (auto simp: watch_ok_def)
  then have "d = g \<and> m = EPOLLIN"
    using w i by (cases "g = serverfd s") (auto simp: watch_ok_def lt_inv_def)
  then have "reportable s (g, EPOLLIN, g)" using md assms(7) by (simp add: reportable_def)
  then show ?thesis using eserver_step.wait [OF assms(3,4,5), of "[(g, EPOLLIN, g)]"] by fastforce
qed

theorem lt_forgets_nobody_witness:
  "\<exists>s0 es s t. lt_setup 3 0 5 = Some s0 \<and> runs lt_step s0 es s \<and> backlog (net s) = 1
     \<and> lt_step s Quiet t \<and> pending t = [(3, EPOLLIN, 3)]"
proof -
  obtain s0 es s where r: "lt_setup 3 0 5 = Some s0" "runs lt_step s0 es s" and i: "running s" "writing s = None" "pending s = []"
    and q: "backlog (net s) = 1" "opened (kern s) 3" "serverfd s = 3"
    using es_outcome_runs [OF es_two_outcome(2)] by blast
  have "readable s 3" using q by (simp add: readable_def)
  from lt_forgets_nobody [OF r i q(2) this] r q show ?thesis by blast
qed

text \<open>With edge triggering on the listening socket a client can be forgotten: there is a
  reachable state in which a client waits to be accepted and \<open>epoll_wait\<close> can report
  nothing, because one \<open>accept\<close> is made for the report of two connections.\<close>

theorem et_forgets_client:
  "\<exists>s0 es s. et_setup 3 0 5 = Some s0 \<and> runs et_step s0 es s \<and> running s \<and> pending s = []
     \<and> backlog (net s) = 1 \<and> \<not> (\<exists>x. reportable s x)"
proof -
  obtain s0 es s where r: "et_setup 3 0 5 = Some s0" "runs et_step s0 es s"
    and s: "running s" "pending s = []" "backlog (net s) = 1" "\<not> edge s (serverfd s)"
      "interest (kern s) (serverfd s) = Some (EPOLLIN OR EPOLLET, serverfd s)"
    and es: "list_all (\<lambda>e. case e of Arrived f d \<Rightarrow> False | Hangup f \<Rightarrow> False | _ \<Rightarrow> True) es"
    using es_outcome_runs [OF es_two_outcome(1)] by blast
  have s0: "\<And>f. \<not> has_input (net s0) f"
    using r(1) by (auto simp: et_setup_def server_setup_def no_streams_def has_input_def split: if_splits)
  have "\<not> has_input (net s) f" for f using silent_run [OF r(2) es s0] .
  then have "\<not> reportable s x" for x
    using s by (cases x) (auto simp: reportable_def readable_def split: option.splits if_splits)
  then show ?thesis using r s by blast
qed

end
