(* ===== verification/TimerList.thy ===== *)
theory TimerList
  imports Prelude "HOL-Library.Monad_Syntax"
begin

text \<open>
  The list of timers of \<open>timer/timer_list/timer_list.h\<close> and \<open>timer_list.cpp\<close>: a doubly
  linked list in the heap, sorted by the time at which the timers expire. An operation
  is \<open>None\<close> when it follows a null or a freed pointer, calls a null callback, or does not
  return.
\<close>

section \<open>Data\<close>

record client_data =
  confd :: fd
  c_timer :: ptr

record timer =
  expireTime :: int
  call_back :: ptr
  user_data :: ptr
  t_pre :: ptr
  t_next :: ptr

record timer_list =
  heap :: "ptr \<Rightarrow> timer option"
  head :: ptr
  tail :: ptr

text \<open>\<open>new MyTimer(et, cb, arg)\<close> and the empty list.\<close>

definition MyTimer :: "int \<Rightarrow> ptr \<Rightarrow> ptr \<Rightarrow> timer" where
  "MyTimer et cb arg =
     \<lparr>expireTime = et, call_back = cb, user_data = arg, t_pre = NULL, t_next = NULL\<rparr>"

definition empty_list :: timer_list where
  "empty_list = \<lparr>heap = (\<lambda>_. None), head = NULL, tail = NULL\<rparr>"

definition new_timer :: "ptr \<Rightarrow> timer \<Rightarrow> timer_list \<Rightarrow> timer_list" where
  "new_timer p tm s = s\<lparr>heap := (heap s)(p := Some tm)\<rparr>"

text \<open>Access through a pointer.\<close>

definition deref :: "ptr \<Rightarrow> timer_list \<Rightarrow> timer option" where
  "deref p s = (if p = NULL then None else heap s p)"

definition modify :: "ptr \<Rightarrow> (timer \<Rightarrow> timer) \<Rightarrow> timer_list \<Rightarrow> timer_list option" where
  "modify p f s =
     (case deref p s of None \<Rightarrow> None | Some t \<Rightarrow> Some (s\<lparr>heap := (heap s)(p := Some (f t))\<rparr>))"

definition set_next :: "ptr \<Rightarrow> ptr \<Rightarrow> timer_list \<Rightarrow> timer_list option" where
  "set_next p q = modify p (\<lambda>t. t\<lparr>t_next := q\<rparr>)"

definition set_pre :: "ptr \<Rightarrow> ptr \<Rightarrow> timer_list \<Rightarrow> timer_list option" where
  "set_pre p q = modify p (\<lambda>t. t\<lparr>t_pre := q\<rparr>)"

definition free_timer :: "ptr \<Rightarrow> timer_list \<Rightarrow> timer_list option" where
  "free_timer p s =
     (case deref p s of None \<Rightarrow> None | Some t \<Rightarrow> Some (s\<lparr>heap := (heap s)(p := None)\<rparr>))"

section \<open>The operations\<close>

definition setExpireTime :: "ptr \<Rightarrow> int \<Rightarrow> timer_list \<Rightarrow> timer_list option" where
  "setExpireTime p et = modify p (\<lambda>t. t\<lparr>expireTime := et\<rparr>)"

text \<open>The search loop of the private \<open>addTimer\<close>: the first timer from \<open>tmp\<close> that does not
  expire before \<open>et\<close>, or null.\<close>

partial_function (option) seek :: "timer_list \<Rightarrow> ptr \<Rightarrow> int \<Rightarrow> ptr option" where
  "seek s p et =
     (if p = NULL then Some NULL
      else case heap s p of
          None \<Rightarrow> None
        | Some t \<Rightarrow> if expireTime t \<ge> et then Some p else seek s (t_next t) et)"

declare seek.simps [code]

definition addTimer_from :: "ptr \<Rightarrow> ptr \<Rightarrow> timer_list \<Rightarrow> timer_list option" where
  "addTimer_from from p s =
     do {
       t \<leftarrow> deref p s;
       tmp \<leftarrow> seek s from (expireTime t);
       if tmp = NULL then
         do {
           s \<leftarrow> set_next (tail s) p s;
           s \<leftarrow> set_pre p (tail s) s;
           Some (s\<lparr>tail := p\<rparr>)
         }
       else
         do {
           s \<leftarrow> set_next p tmp s;
           s \<leftarrow> set_pre tmp p s;
           t \<leftarrow> deref p s;
           s \<leftarrow> set_pre p (t_next t) s;
           set_next (t_next t) p s
         }
     }"

definition addTimer :: "ptr \<Rightarrow> timer_list \<Rightarrow> timer_list option" where
  "addTimer p s =
     (if p = NULL then Some s
      else if head s = NULL then Some (s\<lparr>head := p, tail := p\<rparr>)
      else do {
          t \<leftarrow> deref p s;
          h \<leftarrow> deref (head s) s;
          if expireTime t < expireTime h then
            do {
              s \<leftarrow> set_next p (head s) s;
              s \<leftarrow> Some (s\<lparr>head := p\<rparr>);
              set_pre (head s) NULL s
            }
          else addTimer_from (head s) p s
        })"

definition deleteTimer :: "ptr \<Rightarrow> timer_list \<Rightarrow> timer_list option" where
  "deleteTimer p s =
     (if p = NULL then Some s
      else if head s = p \<and> p = tail s then
        do {
          s \<leftarrow> free_timer p s;
          Some (s\<lparr>head := NULL, tail := NULL\<rparr>)
        }
      else if head s = p then
        do {
          t \<leftarrow> deref p s;
          s \<leftarrow> Some (s\<lparr>head := t_next t\<rparr>);
          s \<leftarrow> set_pre (head s) NULL s;
          free_timer p s
        }
      else if tail s = p then
        do {
          t \<leftarrow> deref (tail s) s;
          s \<leftarrow> Some (s\<lparr>tail := t_pre t\<rparr>);
          s \<leftarrow> set_next (tail s) NULL s;
          free_timer p s
        }
      else
        do {
          t \<leftarrow> deref p s;
          s \<leftarrow> set_pre (t_next t) (t_pre t) s;
          t \<leftarrow> deref p s;
          s \<leftarrow> set_next (t_pre t) (t_next t) s;
          free_timer p s
        })"

definition adjust :: "ptr \<Rightarrow> timer_list \<Rightarrow> timer_list option" where
  "adjust p s =
     (if p = NULL then Some s
      else do {
          t \<leftarrow> deref p s;
          if t_next t = NULL then Some s
          else do {
              n \<leftarrow> deref (t_next t) s;
              if expireTime t < expireTime n then Some s
              else if head s = p then
                do {
                  h \<leftarrow> deref (head s) s;
                  s \<leftarrow> Some (s\<lparr>head := t_next h\<rparr>);
                  s \<leftarrow> set_pre (head s) NULL s;
                  addTimer p s
                }
              else
                do {
                  s \<leftarrow> set_pre (t_next t) (t_pre t) s;
                  t \<leftarrow> deref p s;
                  s \<leftarrow> set_next (t_pre t) (t_next t) s;
                  t \<leftarrow> deref p s;
                  addTimer_from (t_next t) p s
                }
            }
        })"

text \<open>The loop of \<open>tick\<close> from \<open>cur\<close> at time \<open>now\<close>: the callbacks made, with their arguments,
  and the list afterwards. The call of a null callback is a fault.\<close>

partial_function (option) tick_loop ::
  "int \<Rightarrow> ptr \<Rightarrow> timer_list \<Rightarrow> ((ptr \<times> ptr) list \<times> timer_list) option"
where
  "tick_loop now cur s =
     (if cur = NULL then Some ([], s)
      else case heap s cur of
          None \<Rightarrow> None
        | Some t \<Rightarrow>
            if expireTime t > now then Some ([], s)
            else if call_back t = NULL then None
            else do {
                s' \<leftarrow> deleteTimer cur s;
                r \<leftarrow> tick_loop now (t_next t) s';
                Some ((call_back t, user_data t) # fst r, snd r)
              })"

declare tick_loop.simps [code]

definition tick :: "int \<Rightarrow> timer_list \<Rightarrow> ((ptr \<times> ptr) list \<times> timer_list) option" where
  "tick now s = (if head s = NULL then Some ([], s) else tick_loop now (head s) s)"

text \<open>The destructor.\<close>

partial_function (option) destroy :: "ptr \<Rightarrow> timer_list \<Rightarrow> timer_list option" where
  "destroy p s =
     (if head s = NULL then Some s
      else case heap s (head s) of
          None \<Rightarrow> None
        | Some t \<Rightarrow>
            do {
              s' \<leftarrow> free_timer p (s\<lparr>head := t_next t\<rparr>);
              destroy (head s') s'
            })"

declare destroy.simps [code]

section \<open>The list in the heap\<close>

definition first :: "ptr list \<Rightarrow> ptr \<Rightarrow> ptr" where
  "first xs q = (case xs of [] \<Rightarrow> q | x # _ \<Rightarrow> x)"

definition final :: "ptr \<Rightarrow> ptr list \<Rightarrow> ptr" where
  "final p xs = (if xs = [] then p else last xs)"

lemma first_simps [simp]: "first [] q = q" "first (x # xs) q = x"
  "first (xs @ ys) q = first xs (first ys q)"
  by (simp_all add: first_def split: list.split)

lemma final_simps [simp]: "final p [] = p" "final p (x # xs) = final x xs"
  "final p (xs @ ys) = final (final p xs) ys"
  by (simp_all add: final_def)

text \<open>The timers \<open>xs\<close> are chained, between the timers \<open>p\<close> before and \<open>q\<close> after.\<close>

fun linked :: "(ptr \<Rightarrow> timer option) \<Rightarrow> ptr \<Rightarrow> ptr list \<Rightarrow> ptr \<Rightarrow> bool" where
  "linked h p [] q = True"
| "linked h p (x # xs) q \<longleftrightarrow>
     x \<noteq> NULL \<and> (\<exists>t. h x = Some t \<and> t_pre t = p \<and> t_next t = first xs q) \<and> linked h x xs q"

lemma linked_append [simp]:
  "linked h p (xs @ ys) q \<longleftrightarrow> linked h p xs (first ys q) \<and> linked h (final p xs) ys q"
  by (induction xs arbitrary: p) auto

lemma linked_upd [simp]: "a \<notin> set xs \<Longrightarrow> linked (h(a := v)) p xs q = linked h p xs q"
  by (induction xs arbitrary: p) auto

definition tl_repr :: "timer_list \<Rightarrow> ptr list \<Rightarrow> bool" where
  "tl_repr s xs \<longleftrightarrow>
     distinct xs \<and> head s = first xs NULL \<and> tail s = final NULL xs \<and> linked (heap s) NULL xs NULL"

lemma linked_not_NULL: "linked h p xs q \<Longrightarrow> x \<in> set xs \<Longrightarrow> x \<noteq> NULL \<and> h x \<noteq> None"
  by (induction xs arbitrary: p) auto

lemma final_in: "xs \<noteq> [] \<Longrightarrow> final p xs \<in> set xs"
  by (simp add: final_def)

lemma first_in: "xs \<noteq> [] \<Longrightarrow> first xs q \<in> set xs"
  by (cases xs) simp_all

text \<open>Relinking the two ends of a chain.\<close>

lemma linked_set_next:
  "linked h p xs q \<Longrightarrow> distinct xs \<Longrightarrow> xs \<noteq> [] \<Longrightarrow> h (last xs) = Some t \<Longrightarrow>
    linked (h(last xs := Some (t\<lparr>t_next := r\<rparr>))) p xs r"
proof (induction xs arbitrary: p)
  case (Cons x xs)
  then show ?case by (cases xs) (auto split: if_splits)
qed simp

lemma linked_set_pre:
  "linked h p (x # xs) q \<Longrightarrow> distinct (x # xs) \<Longrightarrow> h x = Some t \<Longrightarrow>
    linked (h(x := Some (t\<lparr>t_pre := r\<rparr>))) r (x # xs) q"
  by auto

end
