(* ===== verification/TimerListProps.thy ===== *)
theory TimerListProps
  imports TimerList
begin

text \<open>
  The timer list: what it does right (timers that expire later than all others, deletion,
  the tick over a sorted list, the destructor), and how a timer inserted before another
  closes the list into a cycle.
\<close>

section \<open>Access\<close>

lemma deref_Some [simp]: "p \<noteq> NULL \<Longrightarrow> heap s p = Some t \<Longrightarrow> deref p s = Some t"
  by (simp add: deref_def)

lemma modify_Some [simp]:
  "p \<noteq> NULL \<Longrightarrow> heap s p = Some t \<Longrightarrow> modify p f s = Some (s\<lparr>heap := (heap s)(p := Some (f t))\<rparr>)"
  by (simp add: modify_def)

lemma free_Some [simp]:
  "p \<noteq> NULL \<Longrightarrow> heap s p = Some t \<Longrightarrow> free_timer p s = Some (s\<lparr>heap := (heap s)(p := None)\<rparr>)"
  by (simp add: free_timer_def)

text \<open>What the links do not touch.\<close>

definition payload :: "timer_list \<Rightarrow> ptr \<Rightarrow> (int \<times> ptr \<times> ptr) option" where
  "payload s p = map_option (\<lambda>t. (expireTime t, call_back t, user_data t)) (heap s p)"

definition expiry :: "timer_list \<Rightarrow> ptr \<Rightarrow> int" where
  "expiry s p = (case heap s p of None \<Rightarrow> 0 | Some t \<Rightarrow> expireTime t)"

lemma expiry_payload: "payload s p = payload s' p \<Longrightarrow> expiry s p = expiry s' p"
  by (auto simp: payload_def expiry_def split: option.splits)

lemma repr_nodeD: "tl_repr s xs \<Longrightarrow> x \<in> set xs \<Longrightarrow> x \<noteq> NULL \<and> (\<exists>t. heap s x = Some t)"
  using linked_not_NULL by (fastforce simp: tl_repr_def)

section \<open>Adding a timer that expires last\<close>

lemma seek_none:
  "linked (heap s) p xs NULL \<Longrightarrow> \<forall>x \<in> set xs. expiry s x < et \<Longrightarrow> seek s (first xs NULL) et = Some NULL"
proof (induction xs arbitrary: p)
  case Nil
  show ?case by (simp add: seek.simps)
next
  case (Cons x xs)
  then obtain t where "heap s x = Some t" "t_next t = first xs NULL" "x \<noteq> NULL" by auto
  with Cons show ?case by (subst seek.simps) (auto simp: expiry_def)
qed

lemma add_last:
  assumes r: "tl_repr s xs" and p: "p \<noteq> NULL" "p \<notin> set xs" "heap s p = Some t" "t_pre t = NULL" "t_next t = NULL"
    and later: "\<forall>x \<in> set xs. expiry s x < expireTime t"
  shows "\<exists>s'. addTimer p s = Some s' \<and> tl_repr s' (xs @ [p]) \<and> (\<forall>x. payload s' x = payload s x)"
proof (cases "xs = []")
  case True
  then show ?thesis using r p by (simp add: addTimer_def tl_repr_def payload_def)
next
  case False
  let ?l = "last xs"
  obtain u where u: "?l \<noteq> NULL" "heap s ?l = Some u" using repr_nodeD [OF r] False by (meson last_in_set)
  obtain h where h: "head s \<noteq> NULL" "heap s (head s) = Some h" "\<not> expireTime t < expireTime h"
  proof -
    have "head s \<in> set xs" using r False first_in by (simp add: tl_repr_def)
    then show ?thesis using repr_nodeD [OF r] later that by (fastforce simp: expiry_def)
  qed
  have seek: "seek s (head s) (expireTime t) = Some NULL"
    using seek_none [of s NULL xs] r later by (simp add: tl_repr_def)
  have tl: "tail s = ?l" and l: "?l \<noteq> p" using r False p(2) by (auto simp: tl_repr_def final_def)
  let ?h = "(heap s)(?l := Some (u\<lparr>t_next := p\<rparr>), p := Some (t\<lparr>t_pre := ?l\<rparr>))"
  have "addTimer p s = Some (s\<lparr>heap := ?h, tail := p\<rparr>)"
    using p u h seek tl l by (simp add: addTimer_def addTimer_from_def set_next_def set_pre_def)
  moreover have "linked ?h NULL xs p"
    using linked_set_next [of "heap s" NULL xs NULL u p] r False u(2) p(2) by (simp add: tl_repr_def)
  then have "linked ?h NULL (xs @ [p]) NULL"
    using p l False by (simp add: final_def)
  moreover have "first (xs @ [p]) NULL = first xs NULL" using False by (cases xs) simp_all
  ultimately have "addTimer p s = Some (s\<lparr>heap := ?h, tail := p\<rparr>)"
    "tl_repr (s\<lparr>heap := ?h, tail := p\<rparr>) (xs @ [p])"
    using r p(2) by (simp_all add: tl_repr_def del: first_simps linked_append)
  moreover have "payload (s\<lparr>heap := ?h, tail := p\<rparr>) x = payload s x" for x
    using u p by (simp add: payload_def)
  ultimately show ?thesis by blast
qed

section \<open>Deleting a timer\<close>

lemma delete_repr:
  assumes r: "tl_repr s (as @ p # bs)"
  shows "\<exists>s'. deleteTimer p s = Some s' \<and> tl_repr s' (as @ bs) \<and> heap s' p = None
    \<and> (\<forall>x. x \<noteq> p \<longrightarrow> payload s' x = payload s x)"
proof -
  obtain t where t: "p \<noteq> NULL" "heap s p = Some t" "t_pre t = final NULL as" "t_next t = first bs NULL"
    using r by (auto simp: tl_repr_def)
  have d: "distinct (as @ p # bs)" and la: "linked (heap s) NULL as p"
    and lb: "linked (heap s) p bs NULL" using r by (simp_all add: tl_repr_def)
  have hd: "head s = first as p" and tl: "tail s = final p bs" using r by (simp_all add: tl_repr_def)
  show ?thesis
  proof (cases as rule: rev_cases)
    case Nil
    show ?thesis
    proof (cases bs)
      case bs: Nil
      then show ?thesis using Nil t hd tl
        by (simp add: deleteTimer_def tl_repr_def payload_def)
    next
      case (Cons b bs')
      obtain u where u: "b \<noteq> NULL" "heap s b = Some u" using lb Cons by auto
      have nt: "tail s \<noteq> p" using tl d Cons by (auto simp: final_def split: if_splits)
      let ?h = "(heap s)(b := Some (u\<lparr>t_pre := NULL\<rparr>), p := None)"
      have "deleteTimer p s = Some (s\<lparr>head := b, heap := ?h\<rparr>)"
        using t u nt hd Nil Cons d by (auto simp: deleteTimer_def set_pre_def)
      moreover have "linked ?h NULL bs NULL" using lb d Cons u Nil by auto
      then have "tl_repr (s\<lparr>head := b, heap := ?h\<rparr>) (as @ bs)"
        using d Cons Nil tl by (simp add: tl_repr_def)
      ultimately show ?thesis using u by (auto simp: payload_def)
    qed
  next
    case (snoc as' a)
    obtain v where v: "a \<noteq> NULL" "heap s a = Some v" using la snoc by auto
    have nh: "head s \<noteq> p" using hd d snoc by (cases as') auto
    have la': "linked ((heap s)(a := Some (v\<lparr>t_next := q\<rparr>))) NULL as q" for q
      using linked_set_next [OF la] d snoc v by simp
    show ?thesis
    proof (cases bs)
      case Nil
      let ?h = "(heap s)(a := Some (v\<lparr>t_next := NULL\<rparr>), p := None)"
      have "deleteTimer p s = Some (s\<lparr>tail := a, heap := ?h\<rparr>)"
        using t v nh tl snoc Nil d by (auto simp: deleteTimer_def set_next_def)
      moreover have "tl_repr (s\<lparr>tail := a, heap := ?h\<rparr>) (as @ bs)"
        using la' [of NULL] d Nil snoc hd by (cases as') (auto simp: tl_repr_def)
      ultimately show ?thesis using v by (auto simp: payload_def)
    next
      case (Cons b bs')
      obtain u where u: "b \<noteq> NULL" "heap s b = Some u" using lb Cons by auto
      have ab: "a \<noteq> b" "a \<noteq> p" "b \<noteq> p" using d snoc Cons by auto
      have nt: "tail s \<noteq> p" using tl d Cons by (auto simp: final_def split: if_splits)
      let ?h = "(heap s)(b := Some (u\<lparr>t_pre := a\<rparr>), a := Some (v\<lparr>t_next := b\<rparr>), p := None)"
      have "deleteTimer p s = Some (s\<lparr>heap := ?h\<rparr>)"
        using t u v nh nt ab snoc Cons by (simp add: deleteTimer_def set_next_def set_pre_def)
      moreover have "linked ?h NULL as b"
        using la' [of b] d snoc Cons by (auto simp: fun_upd_twist [OF ab(1)])
      moreover have "linked ?h a bs NULL" using lb d snoc Cons u by auto
      ultimately show ?thesis
        using d hd tl snoc Cons u v ab by (cases as') (auto simp: tl_repr_def payload_def)
    qed
  qed
qed

section \<open>The tick\<close>

definition calls_of :: "timer_list \<Rightarrow> ptr list \<Rightarrow> (ptr \<times> ptr) list" where
  "calls_of s xs = map (\<lambda>x. case heap s x of None \<Rightarrow> (NULL, NULL) | Some t \<Rightarrow> (call_back t, user_data t)) xs"

lemma calls_of_payload:
  "(\<And>x. x \<in> set xs \<Longrightarrow> payload s' x = payload s x) \<Longrightarrow> calls_of s' xs = calls_of s xs"
  by (fastforce simp: calls_of_def payload_def split: option.splits)

lemma tick_loop_repr:
  "tl_repr s xs \<Longrightarrow> NULL \<notin> fst ` set (calls_of s (takeWhile (\<lambda>x. expiry s x \<le> now) xs)) \<Longrightarrow>
    \<exists>s'. tick_loop now (first xs NULL) s = Some (calls_of s (takeWhile (\<lambda>x. expiry s x \<le> now) xs), s')
      \<and> tl_repr s' (dropWhile (\<lambda>x. expiry s x \<le> now) xs)
      \<and> (\<forall>x. x \<notin> set (takeWhile (\<lambda>x. expiry s x \<le> now) xs) \<longrightarrow> payload s' x = payload s x)"
proof (induction xs arbitrary: s)
  case Nil
  then show ?case by (simp add: tick_loop.simps calls_of_def)
next
  case (Cons x xs)
  obtain t where t: "x \<noteq> NULL" "heap s x = Some t" "t_next t = first xs NULL"
    using Cons.prems(1) by (auto simp: tl_repr_def)
  have e: "expiry s x = expireTime t" using t by (simp add: expiry_def)
  show ?case
  proof (cases "expireTime t \<le> now")
    case False
    then show ?thesis using t e Cons.prems(1)
      by (subst tick_loop.simps) (simp add: calls_of_def)
  next
    case True
    obtain s1 where s1: "deleteTimer x s = Some s1" "tl_repr s1 xs"
      "\<And>y. y \<noteq> x \<Longrightarrow> payload s1 y = payload s y"
      using delete_repr [of s "[]" x xs] Cons.prems(1) by auto
    have nx: "x \<notin> set xs" using Cons.prems(1) by (simp add: tl_repr_def)
    have same: "expiry s1 y = expiry s y" if "y \<in> set xs" for y
      using s1(3) nx that expiry_payload by (metis (full_types))
    have tw: "takeWhile (\<lambda>y. expiry s1 y \<le> now) xs = takeWhile (\<lambda>y. expiry s y \<le> now) xs"
      "dropWhile (\<lambda>y. expiry s1 y \<le> now) xs = dropWhile (\<lambda>y. expiry s y \<le> now) xs"
      using same by (auto intro: takeWhile_cong dropWhile_cong)
    have c: "calls_of s1 (takeWhile (\<lambda>y. expiry s y \<le> now) xs) = calls_of s (takeWhile (\<lambda>y. expiry s y \<le> now) xs)"
    proof (rule calls_of_payload)
      fix y assume "y \<in> set (takeWhile (\<lambda>y. expiry s y \<le> now) xs)"
      then have "y \<in> set xs" by (auto dest: set_takeWhileD)
      then show "payload s1 y = payload s y" using nx s1(3) by metis
    qed
    have nn: "call_back t \<noteq> NULL" "NULL \<notin> fst ` set (calls_of s1 (takeWhile (\<lambda>y. expiry s1 y \<le> now) xs))"
      using Cons.prems(2) True e t c tw by (auto simp: calls_of_def)
    obtain s' where s': "tick_loop now (first xs NULL) s1 =
        Some (calls_of s1 (takeWhile (\<lambda>y. expiry s y \<le> now) xs), s')"
      "tl_repr s' (dropWhile (\<lambda>y. expiry s y \<le> now) xs)"
      "\<And>y. y \<notin> set (takeWhile (\<lambda>y. expiry s y \<le> now) xs) \<Longrightarrow> payload s' y = payload s1 y"
      using Cons.IH [OF s1(2) nn(2)] tw by auto
    have "tick_loop now x s = Some (calls_of s (x # takeWhile (\<lambda>y. expiry s y \<le> now) xs), s')"
      using t True s1(1) s'(1) c nn(1) by (subst tick_loop.simps) (simp add: calls_of_def)
    then show ?thesis using s' s1(3) True e by auto
  qed
qed

text \<open>The destructor frees every timer of the list and nothing else.\<close>

lemma destroy_chain:
  "linked (heap s) p xs NULL \<Longrightarrow> distinct xs \<Longrightarrow> head s = first xs NULL \<Longrightarrow>
    \<exists>s'. destroy (head s) s = Some s' \<and> (\<forall>x. heap s' x = (if x \<in> set xs then None else heap s x))"
proof (induction xs arbitrary: s p)
  case Nil
  then show ?case by (simp add: destroy.simps)
next
  case (Cons x xs)
  obtain t where t: "x \<noteq> NULL" "heap s x = Some t" "t_next t = first xs NULL" using Cons.prems by auto
  let ?s1 = "s\<lparr>head := first xs NULL, heap := (heap s)(x := None)\<rparr>"
  have l: "linked (heap ?s1) x xs NULL" using Cons.prems by simp
  have "distinct xs" "head ?s1 = first xs NULL" using Cons.prems by simp_all
  from Cons.IH [OF l this] obtain s' where s': "destroy (first xs NULL) ?s1 = Some s'"
    "\<And>y. heap s' y = (if y \<in> set xs then None else heap ?s1 y)" by auto
  have "destroy (head s) s = Some s'" using Cons.prems t s'(1) by (subst destroy.simps) simp
  moreover have "heap s' y = (if y \<in> set (x # xs) then None else heap s y)" for y
    using s'(2) [of y] by simp
  ultimately show ?case by blast
qed

section \<open>The specification\<close>

type_synonym entry = "ptr \<times> int \<times> ptr \<times> ptr"  \<comment> \<open>address, time, callback, argument\<close>

datatype tl_op = Add ptr int ptr ptr | Del ptr | Tick int

text \<open>The operations of the code, and of a queue of entries in the order of their times.\<close>

fun tl_exec :: "tl_op \<Rightarrow> timer_list \<Rightarrow> ((ptr \<times> ptr) list \<times> timer_list) option" where
  "tl_exec (Add p et cb a) s =
     map_option (Pair []) (addTimer p (new_timer p (MyTimer et cb a) s))"
| "tl_exec (Del p) s = map_option (Pair []) (deleteTimer p s)"
| "tl_exec (Tick now) s = tick now s"

fun tl_spec :: "tl_op \<Rightarrow> entry list \<Rightarrow> ((ptr \<times> ptr) list \<times> entry list) option" where
  "tl_spec (Add p et cb a) es =
     (if p \<noteq> NULL \<and> p \<notin> fst ` set es \<and> list_all (\<lambda>(q, t, v). t < et) es
      then Some ([], es @ [(p, et, cb, a)]) else None)"
| "tl_spec (Del p) es = (if p \<in> fst ` set es then Some ([], filter (\<lambda>e. fst e \<noteq> p) es) else None)"
| "tl_spec (Tick now) es =
     (if list_all (\<lambda>(p, t, cb, a). t \<le> now \<longrightarrow> cb \<noteq> NULL) es
      then Some (map (\<lambda>(p, t, v). v) (filter (\<lambda>(p, t, v). t \<le> now) es), filter (\<lambda>(p, t, v). \<not> t \<le> now) es)
      else None)"

definition represents :: "timer_list \<Rightarrow> entry list \<Rightarrow> bool" where
  "represents s es \<longleftrightarrow>
     tl_repr s (map fst es) \<and> (\<forall>(p, v) \<in> set es. payload s p = Some v)
     \<and> sorted_wrt (\<lambda>(p, t, v) (q, u, w). t < u) es"

lemma represents_expiry:
  "represents s es \<Longrightarrow> (p, t, v) \<in> set es \<Longrightarrow> expiry s p = t"
  by (fastforce simp: represents_def payload_def expiry_def split: option.splits)

lemma sorted_takeWhile:
  "sorted_wrt (\<lambda>(p, t, v) (q, u, w). t < u) es \<Longrightarrow>
    takeWhile (\<lambda>(p, t, v). t \<le> (now::int)) es = filter (\<lambda>(p, t, v). t \<le> now) es
    \<and> dropWhile (\<lambda>(p, t, v). t \<le> now) es = filter (\<lambda>(p, t, v). \<not> t \<le> now) es"
proof (induction es)
  case (Cons e es)
  obtain p t v where e: "e = (p, t, v)" by (cases e)
  show ?case
  proof (cases "t \<le> now")
    case False
    then have "list_all (\<lambda>(q, u, w). \<not> u \<le> now) es"
      using Cons.prems e by (auto simp: list_all_iff)
    then have "filter (\<lambda>(p, t, v). t \<le> now) es = []" "filter (\<lambda>(p, t, v). \<not> t \<le> now) es = es"
      by (auto simp: list_all_iff filter_empty_conv filter_id_conv)
    with False e show ?thesis by simp
  qed (use Cons e in auto)
qed simp

lemma refine_add:
  assumes r: "represents s es" and a: "tl_spec (Add p et cb a) es = Some (cs, es')"
  shows "\<exists>s'. tl_exec (Add p et cb a) s = Some (cs, s') \<and> represents s' es'"
proof -
  have a': "p \<noteq> NULL" "p \<notin> set (map fst es)" "list_all (\<lambda>(q, t, v). t < et) es" "cs = []"
    "es' = es @ [(p, et, cb, a)]" using a by (auto split: if_splits)
  let ?s = "new_timer p (MyTimer et cb a) s"
  have same: "payload ?s x = payload s x" if "x \<noteq> p" for x using that by (simp add: payload_def new_timer_def)
  have rs: "tl_repr ?s (map fst es)" using r a'(2) by (simp add: represents_def tl_repr_def new_timer_def)
  have later: "expiry ?s x < et" if x: "x \<in> set (map fst es)" for x
  proof -
    obtain t v where e: "(x, t, v) \<in> set es" using x by auto
    then have "t < et" using a'(3) by (auto simp: list_all_iff)
    moreover have "x \<noteq> p" using x a'(2) by auto
    ultimately show ?thesis using represents_expiry [OF r e] expiry_payload [OF same] by simp
  qed
  obtain s' where s': "addTimer p ?s = Some s'" "tl_repr s' (map fst es @ [p])" "\<And>x. payload s' x = payload ?s x"
    using add_last [OF rs a'(1,2), of "MyTimer et cb a"] later by (auto simp: new_timer_def MyTimer_def)
  have "payload s' q = Some v" if "(q, v) \<in> set es'" for q v
  proof (cases "q = p")
    case True
    then have "v = (et, cb, a)" using that a'(2,5) by force
    then show ?thesis using s'(3) True by (simp add: payload_def new_timer_def MyTimer_def)
  next
    case False
    then have "(q, v) \<in> set es" using that a'(5) by auto
    then have "payload s q = Some v" using r unfolding represents_def by blast
    then show ?thesis using s'(3) same [OF False] by simp
  qed
  moreover have "sorted_wrt (\<lambda>(p, t, v) (q, u, w). t < u) es'"
    using r a'(3,5) by (auto simp: represents_def sorted_wrt_append list_all_iff)
  ultimately have "represents s' es'" using s'(2) a'(5) by (auto simp: represents_def)
  then show ?thesis using s'(1) a'(4) by simp
qed

lemma refine_del:
  assumes r: "represents s es" and a: "tl_spec (Del p) es = Some (cs, es')"
  shows "\<exists>s'. tl_exec (Del p) s = Some (cs, s') \<and> represents s' es'"
proof -
  have a': "p \<in> fst ` set es" "cs = []" "es' = filter (\<lambda>e. fst e \<noteq> p) es" using a by (auto split: if_splits)
  obtain as e bs where es: "es = as @ e # bs" "fst e = p" using a'(1) by (metis imageE split_list)
  have d: "distinct (map fst es)" and rp: "tl_repr s (map fst as @ p # map fst bs)"
    using r es by (simp_all add: represents_def tl_repr_def)
  have es': "es' = as @ bs" using d es a'(3)
    by (simp add: filter_id_conv) (metis (mono_tags, lifting) filter_True image_eqI)
  obtain s' where s': "deleteTimer p s = Some s'" "tl_repr s' (map fst as @ map fst bs)"
    "\<And>x. x \<noteq> p \<Longrightarrow> payload s' x = payload s x" using delete_repr [OF rp] by blast
  have "payload s' q = Some v" if "(q, v) \<in> set es'" for q v
  proof -
    have "(q, v) \<in> set es" "q \<noteq> p" using that a'(3) by auto
    then show ?thesis using r s'(3) unfolding represents_def by auto
  qed
  moreover have "sorted_wrt (\<lambda>(p, t, v) (q, u, w). t < u) es'"
    using r es es' by (auto simp: represents_def sorted_wrt_append)
  ultimately have "represents s' es'" using s'(2) es' by (auto simp: represents_def)
  then show ?thesis using s'(1) a'(2) by simp
qed

lemma takeWhile_fst:
  "(\<And>p t v. (p, t, v) \<in> set es \<Longrightarrow> f p = t) \<Longrightarrow>
    takeWhile (\<lambda>p. f p \<le> (now::int)) (map fst es) = map fst (takeWhile (\<lambda>(p, t, v). t \<le> now) es)
    \<and> dropWhile (\<lambda>p. f p \<le> now) (map fst es) = map fst (dropWhile (\<lambda>(p, t, v). t \<le> now) es)"
proof (induction es)
  case (Cons e es)
  obtain p t v where e: "e = (p, t, v)" by (cases e)
  then have "f p = t" using Cons.prems by force
  with e Cons show ?case by auto
qed simp

lemma refine_tick:
  assumes r: "represents s es" and nn: "list_all (\<lambda>(p, t, cb, a). t \<le> now \<longrightarrow> cb \<noteq> NULL) es"
  shows "\<exists>s'. tl_exec (Tick now) s = Some (map (\<lambda>(p, t, v). v) (filter (\<lambda>(p, t, v). t \<le> now) es), s')
    \<and> represents s' (filter (\<lambda>(p, t, v). \<not> t \<le> now) es)"
proof -
  let ?due = "filter (\<lambda>(p, t, v). t \<le> now) es" and ?rest = "filter (\<lambda>(p, t, v). \<not> t \<le> now) es"
  have rp: "tl_repr s (map fst es)" and srt: "sorted_wrt (\<lambda>(p, t, v) (q, u, w). t < u) es"
    using r by (simp_all add: represents_def)
  have d: "distinct (map fst es)" using rp by (simp add: tl_repr_def)
  note tw = takeWhile_fst [of es "expiry s" now, OF represents_expiry [OF r]]
    and f = sorted_takeWhile [OF srt, of now]
  have c: "calls_of s (map fst ?due) = map (\<lambda>(p, t, v). v) ?due"
    using r by (fastforce simp: calls_of_def represents_def payload_def split: option.splits)
  have "NULL \<notin> fst ` set (calls_of s (map fst ?due))"
    unfolding c using nn by (force simp: list_all_iff)
  then obtain s' where s': "tick_loop now (first (map fst es) NULL) s = Some (calls_of s (map fst ?due), s')"
    "tl_repr s' (map fst ?rest)" "\<And>x. x \<notin> set (map fst ?due) \<Longrightarrow> payload s' x = payload s x"
    using tick_loop_repr [OF rp, of now] tw f by force
  have "tick now s = tick_loop now (head s) s"
    by (simp add: tick_def tick_loop.simps)
  then have t: "tick now s = Some (map (\<lambda>(p, t, v). v) ?due, s')"
    using s'(1) c rp by (simp add: tl_repr_def)
  have "payload s' q = Some v" if q: "(q, v) \<in> set ?rest" for q v
  proof -
    have "q \<notin> set (map fst ?due)"
    proof
      assume "q \<in> set (map fst ?due)"
      then obtain w where "(q, w) \<in> set es" "fst w \<le> now" by auto
      moreover have "(q, v) \<in> set es" "\<not> fst v \<le> now" using q by auto
      ultimately show False using d by (metis eq_key_imp_eq_value)
    qed
    then show ?thesis using s'(3) q r unfolding represents_def by auto
  qed
  moreover have "sorted_wrt (\<lambda>(p, t, v) (q, u, w). t < u) ?rest"
    using srt by (rule sorted_wrt_filter)
  ultimately have "represents s' ?rest" using s'(2) by (auto simp: represents_def)
  then show ?thesis using t by simp
qed

lemma refine_op:
  "represents s es \<Longrightarrow> tl_spec opn es = Some (cs, es') \<Longrightarrow>
    \<exists>s'. tl_exec opn s = Some (cs, s') \<and> represents s' es'"
proof (cases opn)
  case (Tick now)
  then show "represents s es \<Longrightarrow> tl_spec opn es = Some (cs, es') \<Longrightarrow> ?thesis"
    using refine_tick [of s es now] by (auto split: if_splits)
qed (auto dest: refine_add refine_del simp del: tl_spec.simps tl_exec.simps)

lemma refine_ops:
  "represents s es \<Longrightarrow> follow tl_spec ops es = Some (css, es') \<Longrightarrow>
    \<exists>s'. follow tl_exec ops s = Some (css, s') \<and> represents s' es'"
proof (induction ops arbitrary: s es css)
  case (Cons opn ops)
  obtain cs es1 where 1: "tl_spec opn es = Some (cs, es1)"
    using Cons.prems(2) by (auto split: option.splits)
  then obtain css' where 2: "follow tl_spec ops es1 = Some (css', es')" "css = cs # css'"
    using Cons.prems(2) by (auto split: option.splits)
  obtain s1 where 3: "tl_exec opn s = Some (cs, s1)" "represents s1 es1"
    using refine_op [OF Cons.prems(1) 1] by blast
  obtain s' where 4: "follow tl_exec ops s1 = Some (css', s')" "represents s' es'"
    using Cons.IH [OF 3(2) 2(1)] by blast
  then show ?case using 2 3 by simp
qed simp

lemma empty_represents: "represents empty_list []"
  by (simp add: represents_def tl_repr_def empty_list_def)

section \<open>Following the links\<close>

definition walk :: "timer_list \<Rightarrow> ptr \<Rightarrow> ptr" where
  "walk s p = (case heap s p of None \<Rightarrow> NULL | Some t \<Rightarrow> t_next t)"

lemma linked_closed:
  "linked (heap s) q xs r \<Longrightarrow> x \<in> set xs \<Longrightarrow> walk s x \<in> set xs \<union> {r}"
proof (induction xs arbitrary: q)
  case (Cons y ys)
  then show ?case by (cases "x = y"; cases ys) (auto simp: walk_def)
qed simp

lemma stays_in: "(\<And>x. x \<in> A \<Longrightarrow> f x \<in> A) \<Longrightarrow> a \<in> A \<Longrightarrow> (f ^^ n) a \<in> A"
  by (induction n) auto

lemma never_NULL:
  "(\<And>x. x \<in> A \<Longrightarrow> f x \<in> A) \<Longrightarrow> a \<in> A \<Longrightarrow> NULL \<notin> A \<Longrightarrow> \<forall>n. (f ^^ n) a \<noteq> NULL"
  using stays_in [of A f a] by metis

lemma seek_found:
  "linked (heap s) q (as @ b # bs) r \<Longrightarrow> \<forall>x \<in> set as. expiry s x < et \<Longrightarrow> et \<le> expiry s b \<Longrightarrow>
    seek s (first as b) et = Some b"
proof (induction as arbitrary: q)
  case Nil
  then show ?case by (auto simp: seek.simps expiry_def)
next
  case (Cons x as)
  then obtain t where "heap s x = Some t" "t_next t = first as b" "x \<noteq> NULL" by auto
  with Cons show ?case by (subst seek.simps) (auto simp: expiry_def)
qed

section \<open>A search that does not return\<close>

lemma seek_diverges:
  assumes "\<And>q. q \<in> A \<Longrightarrow> q \<noteq> NULL \<and> (\<exists>t. heap s q = Some t \<and> t_next t \<in> A \<and> expireTime t < et)"
    and "p \<in> A"
  shows "seek s p et = None"
proof (rule ccontr)
  assume "seek s p et \<noteq> None"
  then obtain y where y: "seek s p et = Some y" by blast
  have "(\<forall>q \<in> A. q \<noteq> NULL \<and> (\<exists>t. heap s q = Some t \<and> t_next t \<in> A \<and> expireTime t < et)) \<longrightarrow> p \<notin> A"
  proof (rule seek.raw_induct [of "\<lambda>s p et y. (\<forall>q \<in> A. q \<noteq> NULL \<and> (\<exists>t. heap s q = Some t
        \<and> t_next t \<in> A \<and> expireTime t < et)) \<longrightarrow> p \<notin> A", OF _ y], goal_cases)
    case (1 loop s p et y)
    show ?case
    proof (intro impI notI)
      assume a: "\<forall>q \<in> A. q \<noteq> NULL \<and> (\<exists>t. heap s q = Some t \<and> t_next t \<in> A \<and> expireTime t < et)" "p \<in> A"
      then obtain t where t: "p \<noteq> NULL" "heap s p = Some t" "t_next t \<in> A" "expireTime t < et" by blast
      then have "loop s (t_next t) et = Some y" using 1(2) by simp
      then show False using 1(1) a(1) t(3) by blast
    qed
  qed
  then show False using assms by blast
qed

section \<open>Properties\<close>

text \<open>C4: used with timers that expire later than all in the list, the timer list is a sorted
  queue: any sequence of additions, deletions of listed timers and ticks that the queue
  allows (no tick may find a null callback due, which the code would call) succeeds (no null
  or freed pointer is followed and every loop ends), makes the
  callbacks of the queue, at each tick those of all expired timers in the order of
  their times, and leaves a list that represents the queue.\<close>

theorem timer_list_refines_queue:
  assumes "follow tl_spec ops [] = Some (css, es)"
  shows "\<exists>s. follow tl_exec ops empty_list = Some (css, s) \<and> represents s es"
  by (rule refine_ops [OF empty_represents assms])

theorem timer_list_refines_queue_witness:
  "\<exists>s. follow tl_exec [Add 1 10 7 71, Add 2 20 7 72, Add 3 30 7 73, Del 2, Tick 15] empty_list
      = Some ([[], [], [], [], [(7, 71)]], s) \<and> represents s [(3, 30, 7, 73)]"
  by (rule timer_list_refines_queue) (simp add: follow.simps)

text \<open>C28: a timer that expires no earlier than the first of the list, but no later than some
  other, closes the list into a cycle: \<open>addTimer\<close> succeeds, the timer and the one it should
  precede then point to each other, following the links from the head one stays among valid
  timers for ever, and the search for the place of a timer that is later than these does not
  return: no pointer of the cycle is null or dangling, and the search has no result.\<close>

theorem add_closes_cycle:
  assumes r: "tl_repr s (as @ b # bs)"
    and p: "p \<noteq> NULL" "p \<notin> set (as @ b # bs)" "heap s p = Some t"
    and between: "\<forall>x \<in> set as. expiry s x < expireTime t" "expireTime t \<le> expiry s b"
    and not_first: "as \<noteq> [] \<or> expireTime t = expiry s b"
  shows "\<exists>s'. addTimer p s = Some s' \<and> walk s' b = p \<and> walk s' p = b
    \<and> (\<forall>n. (walk s' ^^ n) (head s') \<noteq> NULL \<and> heap s' ((walk s' ^^ n) (head s')) \<noteq> None)
    \<and> (\<forall>et. (\<forall>x \<in> set as \<union> {b, p}. expiry s x < et) \<longrightarrow> seek s' (head s') et = None)"
proof -
  obtain u where u: "b \<noteq> NULL" "heap s b = Some u" using repr_nodeD [OF r] by auto
  have bp: "b \<noteq> p" using p(2) by auto
  have hd: "head s = first as b" using r by (simp add: tl_repr_def)
  then have hin: "head s \<in> set (as @ [b])" using first_in [of as b] by (cases as) auto
  have "head s \<in> set (as @ b # bs)" using hin by auto
  then obtain h where h: "head s \<noteq> NULL" "heap s (head s) = Some h" using repr_nodeD [OF r] by blast
  have late: "\<not> expireTime t < expireTime h"
  proof (cases "as = []")
    case False
    then have "head s \<in> set as" using hd first_in by simp
    then show ?thesis using between(1) h by (force simp: expiry_def)
  qed (use hd not_first h in \<open>auto simp: expiry_def\<close>)
  have seek: "seek s (head s) (expireTime t) = Some b"
    using seek_found [of s NULL as b bs NULL] r between by (simp add: tl_repr_def)
  let ?h = "(heap s)(p := Some (t\<lparr>t_next := b, t_pre := b\<rparr>), b := Some (u\<lparr>t_pre := p, t_next := p\<rparr>))"
  let ?s = "s\<lparr>heap := ?h\<rparr>"
  have add: "addTimer p s = Some ?s"
    using p u h late seek bp
    by (simp add: addTimer_def addTimer_from_def set_next_def set_pre_def fun_upd_twist [OF bp])
  have l: "linked ?h NULL as b" using r p(2) by (simp add: tl_repr_def)
  let ?A = "set as \<union> {b, p}"
  have closed: "walk ?s x \<in> ?A" if "x \<in> ?A" for x
    using that linked_closed [of ?s NULL as b x] l bp by (auto simp: walk_def)
  have hd': "head ?s \<in> ?A" using hin by auto
  have valid: "x \<noteq> NULL \<and> (\<exists>v. ?h x = Some v \<and> expireTime v = expiry s x)" if "x \<in> ?A" for x
    using that repr_nodeD [OF r, of x] p u bp by (auto simp: expiry_def)
  have "(walk ?s ^^ n) (head ?s) \<in> ?A" for n by (rule stays_in [OF closed hd'])
  then have "\<forall>n. (walk ?s ^^ n) (head ?s) \<noteq> NULL \<and> heap ?s ((walk ?s ^^ n) (head ?s)) \<noteq> None"
    using valid by fastforce
  moreover have "seek ?s (head ?s) et = None" if late: "\<forall>x \<in> ?A. expiry s x < et" for et
  proof (rule seek_diverges [of ?A])
    fix q assume q: "q \<in> ?A"
    then obtain v where v: "q \<noteq> NULL" "heap ?s q = Some v" "expireTime v = expiry s q" using valid [OF q] by auto
    then show "q \<noteq> NULL \<and> (\<exists>t. heap ?s q = Some t \<and> t_next t \<in> ?A \<and> expireTime t < et)"
      using closed [OF q] late q by (auto simp: walk_def)
  qed (rule hd')
  moreover have "walk ?s b = p" "walk ?s p = b" using bp by (simp_all add: walk_def)
  ultimately show ?thesis using add by blast
qed

theorem add_closes_cycle_witness:
  "\<exists>s s'. follow tl_exec [Add 1 10 7 71, Add 2 20 7 72] empty_list = Some ([[], []], s)
     \<and> addTimer 3 (new_timer 3 (MyTimer 20 7 73) s) = Some s'
     \<and> walk s' 2 = 3 \<and> walk s' 3 = 2 \<and> seek s' (head s') 21 = None"
proof -
  obtain s where s: "follow tl_exec [Add 1 10 7 71, Add 2 20 7 72] empty_list = Some ([[], []], s)"
    and r: "represents s [(1, 10, 7, 71), (2, 20, 7, 72)]"
    using refine_ops [OF empty_represents, of "[Add 1 10 7 71, Add 2 20 7 72]"] by auto
  let ?s = "new_timer 3 (MyTimer 20 7 73) s"
  have "tl_repr ?s ([1] @ 2 # [])" using r by (simp add: represents_def tl_repr_def new_timer_def)
  moreover have e: "expiry ?s 1 = 10" "expiry ?s 2 = 20" "expiry ?s 3 = 20"
    using represents_expiry [OF r, of 1] represents_expiry [OF r, of 2]
    by (simp_all add: expiry_def new_timer_def MyTimer_def)
  ultimately obtain s' where s': "addTimer 3 ?s = Some s'" "walk s' 2 = 3" "walk s' 3 = 2"
    and all: "\<forall>et. (\<forall>x \<in> set [1] \<union> {2, 3}. expiry ?s x < et) \<longrightarrow> seek s' (head s') et = None"
    using add_closes_cycle [of ?s "[1]" 2 "[]" 3 "MyTimer 20 7 73"]
    by (auto simp: new_timer_def MyTimer_def)
  have "seek s' (head s') 21 = None" using all e by simp
  then show ?thesis using s s' by blast
qed

text \<open>Prolonging a timer makes a cycle too: when the first timer of the list comes to expire
  after all others, \<open>adjust\<close> appends it without clearing its link to its former successor,
  and the list never ends again.\<close>

theorem adjust_closes_cycle:
  assumes r: "tl_repr s (p # b # bs)" and t: "heap s p = Some t"
    and last: "\<forall>x \<in> set (b # bs). expiry s x < expireTime t"
  shows "\<exists>s'. adjust p s = Some s' \<and> head s' = b \<and> tail s' = p \<and> walk s' p = b
    \<and> (\<forall>n. (walk s' ^^ n) (head s') \<noteq> NULL)"
proof -
  let ?xs = "b # bs"
  have pn: "p \<noteq> NULL" and nx: "t_next t = b" and d: "p \<notin> set ?xs" "distinct ?xs"
    and l: "linked (heap s) p ?xs NULL" and hd: "head s = p" and tl: "tail s = last ?xs"
    using r t by (auto simp: tl_repr_def final_def)
  obtain u where u: "b \<noteq> NULL" "heap s b = Some u" using l by auto
  let ?s1 = "s\<lparr>head := b, heap := (heap s)(b := Some (u\<lparr>t_pre := NULL\<rparr>))\<rparr>"
  have l1: "linked (heap ?s1) NULL ?xs NULL" using linked_set_pre [OF l d(2) u(2)] by simp
  have e1: "expiry ?s1 x = expiry s x" for x using u by (simp add: expiry_def)
  have seek: "seek ?s1 b (expireTime t) = Some NULL"
    using seek_none [OF l1] last e1 by simp
  obtain v where v: "last ?xs \<noteq> NULL" "heap ?s1 (last ?xs) = Some v"
  proof -
    have "last ?xs \<in> set ?xs" by (rule last_in_set) simp
    from linked_not_NULL [OF l1 this] show ?thesis using that by blast
  qed
  have "last ?xs \<in> set ?xs" by (rule last_in_set) simp
  then have lp: "last ?xs \<noteq> p" using d(1) by metis
  let ?h = "(heap ?s1)(last ?xs := Some (v\<lparr>t_next := p\<rparr>), p := Some (t\<lparr>t_pre := last ?xs\<rparr>))"
  let ?s = "?s1\<lparr>heap := ?h, tail := p\<rparr>"
  have p1: "heap ?s1 p = Some t" using t d by auto
  have "\<not> expireTime t < expireTime u" using last u by (simp add: expiry_def)
  then have add: "addTimer p ?s1 = Some ?s"
    using pn u p1 seek v lp tl
    by (simp add: addTimer_def addTimer_from_def set_next_def set_pre_def del: last.simps)
  have "\<not> expireTime t < expireTime u" by fact
  then have "adjust p s = addTimer p ?s1"
    using pn t u nx hd by (simp add: adjust_def set_pre_def)
  moreover have "linked ((heap ?s1)(last ?xs := Some (v\<lparr>t_next := p\<rparr>))) NULL ?xs p"
    by (rule linked_set_next [OF l1 d(2) _ v(2)]) simp
  then have lh: "linked ?h NULL ?xs p" by (simp only: linked_upd [OF d(1)])
  have "heap ?s = ?h" by simp
  with lh have l2: "linked (heap ?s) NULL ?xs p" by metis
  have wp: "walk ?s p = b" using nx by (simp add: walk_def)
  have "\<forall>n. (walk ?s ^^ n) (head ?s) \<noteq> NULL"
  proof (rule never_NULL [of "set ?xs \<union> {p}"])
    show "walk ?s x \<in> set ?xs \<union> {p}" if "x \<in> set ?xs \<union> {p}" for x
      using that linked_closed [OF l2, of x] wp by auto
    show "NULL \<notin> set ?xs \<union> {p}" using repr_nodeD [OF r] by fastforce
  qed simp
  moreover have "head ?s = b" "tail ?s = p" by simp_all
  ultimately show ?thesis using add wp by metis
qed

theorem adjust_closes_cycle_witness:
  "\<exists>s s0 s'. follow tl_exec [Add 1 10 7 71, Add 2 20 7 72] empty_list = Some ([[], []], s0)
     \<and> setExpireTime 1 25 s0 = Some s \<and> adjust 1 s = Some s'
     \<and> head s' = 2 \<and> walk s' 1 = 2 \<and> (\<forall>n. (walk s' ^^ n) (head s') \<noteq> NULL)"
proof -
  obtain s0 where s: "follow tl_exec [Add 1 10 7 71, Add 2 20 7 72] empty_list = Some ([[], []], s0)"
    and r: "represents s0 [(1, 10, 7, 71), (2, 20, 7, 72)]"
    using refine_ops [OF empty_represents, of "[Add 1 10 7 71, Add 2 20 7 72]"] by auto
  have rp: "tl_repr s0 [1, 2]" using r by (simp add: represents_def)
  obtain t where t: "heap s0 1 = Some t" using repr_nodeD [OF rp, of 1] by auto
  let ?s = "s0\<lparr>heap := (heap s0)(1 := Some (t\<lparr>expireTime := 25\<rparr>))\<rparr>"
  have "tl_repr ?s [1, 2]" using rp t by (simp add: tl_repr_def)
  moreover have "expiry ?s 2 = 20" using represents_expiry [OF r, of 2] by (simp add: expiry_def)
  ultimately show ?thesis
    using adjust_closes_cycle [of ?s 1 2 "[]" "t\<lparr>expireTime := 25\<rparr>"] s t
    by (auto simp: setExpireTime_def)
qed

end
