(* ===== verification/TimerWheel.thy ===== *)
theory TimerWheel
  imports Prelude "HOL-Library.Monad_Syntax"
begin

text \<open>
  The timing wheel of \<open>timer/timer_wheel/timer_wheel.h\<close> and \<open>timer_wheel.cpp\<close>: slots of
  doubly linked timers, each with the number of rounds it still has to wait. An operation
  is \<open>None\<close> when it leaves the vector, follows a null or freed pointer or calls a null
  function.
\<close>

section \<open>Data\<close>

record wtimer =
  round :: int
  slot :: int
  w_next :: ptr
  w_pre :: ptr
  clientData :: ptr
  w_call_back :: ptr

record wheel =
  slots_n :: int
  cur :: int
  wheel_vec :: "ptr list"            \<comment> \<open>the vector \<open>wheel\<close>\<close>
  SI :: int
  wheap :: "ptr \<Rightarrow> wtimer option"

text \<open>\<open>new Timer(round, slot)\<close>: the callback defaults to null.\<close>

definition Timer :: "int \<Rightarrow> int \<Rightarrow> wtimer" where
  "Timer r sl = \<lparr>round = r, slot = sl, w_next = NULL, w_pre = NULL, clientData = NULL, w_call_back = NULL\<rparr>"

section \<open>Construction\<close>

text \<open>The loop of both constructors, which stores into a vector of size 0.\<close>

definition vec_store :: "int \<Rightarrow> ptr \<Rightarrow> ptr list \<Rightarrow> ptr list option" where
  "vec_store i p v = (if 0 \<le> i \<and> i < int (length v) then Some (v[nat i := p]) else None)"

definition vec_load :: "int \<Rightarrow> ptr list \<Rightarrow> ptr option" where
  "vec_load i v = (if 0 \<le> i \<and> i < int (length v) then Some (v ! nat i) else None)"

function clear_slots :: "int \<Rightarrow> int \<Rightarrow> ptr list \<Rightarrow> ptr list option" where
  "clear_slots i n v =
     (if n \<le> i then Some v
      else case vec_store i NULL v of None \<Rightarrow> None | Some w \<Rightarrow> clear_slots (i + 1) n w)"
  by pat_completeness auto
termination by (relation "measure (\<lambda>(i, n, v). nat (n - i))") auto

declare clear_slots.simps [simp del]

definition TimerWheel :: "int \<Rightarrow> int \<Rightarrow> wheel option" where
  "TimerWheel n si =
     map_option (\<lambda>v. \<lparr>slots_n = n, cur = 0, wheel_vec = v, SI = si, wheap = (\<lambda>_. None)\<rparr>)
       (clear_slots 0 n [])"

text \<open>The wheel the class means to have: a vector of \<open>n\<close> empty slots.\<close>

definition sized_wheel :: "int \<Rightarrow> int \<Rightarrow> wheel" where
  "sized_wheel n si =
     \<lparr>slots_n = n, cur = 0, wheel_vec = replicate (nat n) NULL, SI = si, wheap = (\<lambda>_. None)\<rparr>"

section \<open>The operations\<close>

definition w_deref :: "ptr \<Rightarrow> wheel \<Rightarrow> wtimer option" where
  "w_deref p s = (if p = NULL then None else wheap s p)"

definition w_modify :: "ptr \<Rightarrow> (wtimer \<Rightarrow> wtimer) \<Rightarrow> wheel \<Rightarrow> wheel option" where
  "w_modify p f s = map_option (\<lambda>t. s\<lparr>wheap := (wheap s)(p := Some (f t))\<rparr>) (w_deref p s)"

definition set_slot :: "int \<Rightarrow> ptr \<Rightarrow> wheel \<Rightarrow> wheel option" where
  "set_slot i p s = map_option (\<lambda>v. s\<lparr>wheel_vec := v\<rparr>) (vec_store i p (wheel_vec s))"

text \<open>Rounds and slot for a timeout, computed by \<open>addTimer\<close>; \<open>None\<close> on a division by 0.\<close>

definition place :: "int \<Rightarrow> wheel \<Rightarrow> (int \<times> int) option" where
  "place timeout s =
     (if (\<not> timeout < SI s \<and> SI s = 0) \<or> slots_n s = 0 then None
      else
        (let ticks = (if timeout < SI s then 0 else c_div timeout (SI s));
             r = c_div ticks (slots_n s)
         in Some (r, if r < 1 then cur s + c_rem (cur s + ticks) (slots_n s)
                     else cur s + c_rem ticks (slots_n s))))"

text \<open>\<open>p\<close> is the address that \<open>new\<close> returns.\<close>

definition w_addTimer :: "int \<Rightarrow> ptr \<Rightarrow> wheel \<Rightarrow> wheel option" where
  "w_addTimer timeout p s =
     (if timeout < 0 then Some s
      else do {
          (r, sl) \<leftarrow> place timeout s;
          s \<leftarrow> Some (s\<lparr>wheap := (wheap s)(p := Some (Timer r sl))\<rparr>);
          q \<leftarrow> vec_load sl (wheel_vec s);
          if q = NULL then set_slot sl p s
          else do {
              s \<leftarrow> w_modify q (\<lambda>t. t\<lparr>w_pre := p\<rparr>) s;
              s \<leftarrow> w_modify p (\<lambda>t. t\<lparr>w_next := q\<rparr>) s;
              set_slot sl p s
            }
        })"

definition w_deleteTimer :: "ptr \<Rightarrow> wheel \<Rightarrow> wheel option" where
  "w_deleteTimer p s =
     (if p = NULL then Some s
      else do {
          t \<leftarrow> w_deref p s;
          s \<leftarrow> (if w_pre t = NULL then
                  do {
                    s \<leftarrow> set_slot (slot t) (w_next t) s;
                    q \<leftarrow> vec_load (slot t) (wheel_vec s);
                    w_modify q (\<lambda>u. u\<lparr>w_pre := NULL\<rparr>) s
                  }
                else
                  do {
                    s \<leftarrow> w_modify (w_pre t) (\<lambda>u. u\<lparr>w_next := w_next t\<rparr>) s;
                    if w_next t \<noteq> NULL then w_modify (w_next t) (\<lambda>u. u\<lparr>w_pre := w_pre t\<rparr>) s
                    else Some s
                  });
          Some (s\<lparr>wheap := (wheap s)(p := None)\<rparr>)
        })"

text \<open>\<open>adjust\<close> has an empty body.\<close>

definition w_adjust :: "ptr \<Rightarrow> int \<Rightarrow> wheel \<Rightarrow> wheel" where
  "w_adjust p timeout s = s"

text \<open>The loop of \<open>tick\<close> from \<open>p\<close>: the arguments of the callbacks made, and the wheel.\<close>

partial_function (option) w_tick_loop :: "ptr \<Rightarrow> wheel \<Rightarrow> (ptr list \<times> wheel) option" where
  "w_tick_loop p s =
     (if p = NULL then Some ([], s)
      else case wheap s p of
          None \<Rightarrow> None
        | Some t \<Rightarrow>
            if round t > 0
            then w_tick_loop (w_next t) (s\<lparr>wheap := (wheap s)(p := Some (t\<lparr>round := round t - 1\<rparr>))\<rparr>)
            else if w_call_back t = NULL then None
            else do {
                s' \<leftarrow> w_deleteTimer p s;
                r \<leftarrow> w_tick_loop (w_next t) s';
                Some (clientData t # fst r, snd r)
              })"

declare w_tick_loop.simps [code]

definition w_tick :: "wheel \<Rightarrow> (ptr list \<times> wheel) option" where
  "w_tick s = do { p \<leftarrow> vec_load (cur s) (wheel_vec s); w_tick_loop p s }"

section \<open>Where timers go\<close>

lemma place_cur_0:
  assumes "cur s = 0" "0 < slots_n s" "0 < SI s" "0 \<le> timeout"
  shows "place timeout s = Some (timeout div SI s div slots_n s, timeout div SI s mod slots_n s)"
proof -
  have "timeout < SI s \<Longrightarrow> timeout div SI s = 0" using assms(4) by simp
  then show ?thesis using assms by (auto simp: place_def Let_def pos_imp_zdiv_nonneg_iff)
qed

lemma constructor_fails: "0 < n \<Longrightarrow> TimerWheel n si = None"
  by (simp add: TimerWheel_def clear_slots.simps [of 0 n] vec_store_def)

section \<open>No timer ever fires\<close>

datatype wheel_op = WAdd int ptr | WDel ptr | WTick

fun w_exec :: "wheel_op \<Rightarrow> wheel \<Rightarrow> (ptr list \<times> wheel) option" where
  "w_exec (WAdd timeout p) s = map_option (Pair []) (w_addTimer timeout p s)"
| "w_exec (WDel p) s = map_option (Pair []) (w_deleteTimer p s)"
| "w_exec WTick s = w_tick s"

text \<open>No callback is set, and the hand of the wheel stands at slot 0.\<close>

definition silent :: "wheel \<Rightarrow> bool" where
  "silent s \<longleftrightarrow> cur s = 0 \<and> (\<forall>p t. wheap s p = Some t \<longrightarrow> w_call_back t = NULL)"

lemma silent_modify:
  assumes "silent s" "w_modify p f s = Some s'" "\<And>t. w_call_back (f t) = w_call_back t"
  shows "silent s' \<and> slots_n s' = slots_n s \<and> SI s' = SI s"
  using assms by (auto simp: silent_def w_modify_def w_deref_def split: if_splits)

lemma silent_slot: "silent s \<Longrightarrow> set_slot i p s = Some s' \<Longrightarrow> silent s' \<and> slots_n s' = slots_n s \<and> SI s' = SI s"
  by (auto simp: silent_def set_slot_def)

lemma silent_add: "silent s \<Longrightarrow> w_addTimer timeout p s = Some s' \<Longrightarrow> silent s'"
proof (cases "timeout < 0")
  case False
  assume i: "silent s" and a: "w_addTimer timeout p s = Some s'"
  obtain r sl q where pl: "place timeout s = Some (r, sl)"
    and q: "vec_load sl (wheel_vec s) = Some q"
    using a False by (auto simp: w_addTimer_def bind_eq_Some_conv)
  let ?s = "s\<lparr>wheap := (wheap s)(p := Some (Timer r sl))\<rparr>"
  have s1: "silent ?s" using i by (auto simp: silent_def Timer_def)
  show ?thesis
  proof (cases "q = NULL")
    case True
    then have "set_slot sl p ?s = Some s'" using a False pl q by (simp add: w_addTimer_def)
    then show ?thesis using silent_slot [OF s1] by blast
  next
    case False
    obtain s2 s3 where s2: "w_modify q (\<lambda>t. t\<lparr>w_pre := p\<rparr>) ?s = Some s2"
      and s3: "w_modify p (\<lambda>t. t\<lparr>w_next := q\<rparr>) s2 = Some s3" and s4: "set_slot sl p s3 = Some s'"
      using a False \<open>\<not> timeout < 0\<close> pl q by (auto simp: w_addTimer_def bind_eq_Some_conv)
    have "silent s2" using silent_modify [OF s1 s2] by simp
    then have "silent s3" using silent_modify [OF _ s3] by simp
    then show ?thesis using silent_slot [OF _ s4] by simp
  qed
qed (simp add: w_addTimer_def)

lemma silent_delete: "silent s \<Longrightarrow> w_deleteTimer p s = Some s' \<Longrightarrow> silent s'"
  by (auto simp: w_deleteTimer_def silent_def w_modify_def set_slot_def w_deref_def bind_eq_Some_conv
      split: if_splits)

lemma tick_loop_silent:
  assumes "w_tick_loop p s = Some r"
  shows "silent s \<longrightarrow> fst r = [] \<and> silent (snd r)"
proof (rule w_tick_loop.raw_induct
    [of "\<lambda>p s r. silent s \<longrightarrow> fst r = [] \<and> silent (snd r)", OF _ assms, case_names step], goal_cases)
  case step: (1 loop p s r)
  show ?case
  proof
    assume i: "silent s"
    show "fst r = [] \<and> silent (snd r)"
    proof (cases "p = NULL")
      case True
      then show ?thesis using step(2) i by auto
    next
      case False
      then obtain t where t: "wheap s p = Some t" using step(2) by (auto split: option.splits)
      then have cb: "w_call_back t = NULL" using i by (simp add: silent_def)
      have rd: "round t > 0"
      proof (rule ccontr)
        assume "\<not> round t > 0"
        then show False using step(2) False t cb by simp
      qed
      let ?s = "s\<lparr>wheap := (wheap s)(p := Some (t\<lparr>round := round t - 1\<rparr>))\<rparr>"
      have "loop (w_next t) ?s = Some r" using step(2) False t rd by simp
      moreover have "silent ?s" using i cb by (auto simp: silent_def)
      ultimately show ?thesis using step(1) by blast
    qed
  qed
qed

lemma silent_exec: "silent s \<Longrightarrow> w_exec opn s = Some (cs, s') \<Longrightarrow> cs = [] \<and> silent s'"
proof (cases opn)
  case WTick
  assume "silent s" "w_exec opn s = Some (cs, s')"
  then show ?thesis using WTick tick_loop_silent by (fastforce simp: w_tick_def bind_eq_Some_conv)
qed (auto dest: silent_add silent_delete)

lemma silent_follow:
  "silent s \<Longrightarrow> follow w_exec ops s = Some (css, s') \<Longrightarrow> concat css = [] \<and> silent s'"
proof (induction ops arbitrary: s css)
  case (Cons opn ops)
  then obtain cs s1 css' where "w_exec opn s = Some (cs, s1)" "follow w_exec ops s1 = Some (css', s')"
    "css = cs # css'" by (auto split: option.splits)
  then show ?case using Cons silent_exec by fastforce
qed simp

section \<open>Properties\<close>

text \<open>C29: the wheel computes where a timer belongs correctly but never fires it: with the hand
  at slot 0 the rounds and the slot of a timeout give back its number of ticks and the slot
  is inside the wheel; yet no constructor succeeds (the vector has no slots), and on a
  wheel that had its slots no sequence of additions, deletions and ticks ever makes a
  callback or moves the hand from slot 0.\<close>

theorem wheel_never_fires:
  assumes "0 < n" and "0 < si" and "0 \<le> timeout"
    and "follow w_exec ops (sized_wheel n si) = Some (css, s)"
  shows "TimerWheel n si = None
    \<and> (\<exists>r sl. place timeout (sized_wheel n si) = Some (r, sl) \<and> r * n + sl = timeout div si
          \<and> 0 \<le> sl \<and> sl < n \<and> 0 \<le> r)
    \<and> concat css = [] \<and> cur s = 0"
proof -
  have "silent (sized_wheel n si)" by (simp add: silent_def sized_wheel_def)
  then have "concat css = [] \<and> cur s = 0" using silent_follow [OF _ assms(4)] by (simp add: silent_def)
  moreover have "place timeout (sized_wheel n si) = Some (timeout div si div n, timeout div si mod n)"
    using place_cur_0 [of "sized_wheel n si" timeout] assms(1-3) by (simp add: sized_wheel_def)
  ultimately show ?thesis using constructor_fails [OF assms(1)] assms(1-3)
    by (simp add: pos_imp_zdiv_nonneg_iff)
qed

theorem wheel_never_fires_witness:
  "TimerWheel 30 1 = None
     \<and> (\<exists>css s. follow w_exec [WAdd 90 1, WAdd 30 2, WTick] (sized_wheel 30 1) = Some (css, s)
          \<and> concat css = [] \<and> cur s = 0)"
proof -
  have "(case follow w_exec [WAdd 90 1, WAdd 30 2, WTick] (sized_wheel 30 1) of None \<Rightarrow> False | Some r \<Rightarrow> True)"
    by code_simp
  then obtain css s where "follow w_exec [WAdd 90 1, WAdd 30 2, WTick] (sized_wheel 30 1) = Some (css, s)"
    by (auto split: option.splits)
  with wheel_never_fires [of 30 1 90 "[WAdd 90 1, WAdd 30 2, WTick]" css s] show ?thesis by simp
qed

end
