(* ===== verification/PollServer.thy ===== *)
theory PollServer
  imports Sockets
begin

text \<open>
  The server of \<open>poll/server.c\<close>: an array of 100 descriptors for \<open>poll\<close>, of which the first
  is the listening socket, and the largest index in use as the program keeps it.
\<close>

section \<open>State\<close>

definition CLIENT_COUNT :: nat where "CLIENT_COUNT = 100"

definition POLLIN :: "16 word" where "POLLIN = 1"

record pollfd =
  pfd :: fd
  events :: "16 word"
  revents :: "16 word"

definition pollin :: "pollfd \<Rightarrow> bool" where
  "pollin c \<longleftrightarrow> revents c AND POLLIN \<noteq> 0"

text \<open>Where the loop is: about to call \<open>poll\<close>, at the test of the listening socket, at index
  \<open>i\<close> of the loop over the clients, in a \<open>write\<close> to a client that has not returned, with the
  index the loop goes on at, or left by \<open>exit(1)\<close>.\<close>

datatype poll_pc = PPoll | PListener | PScan nat | PWrite nat fd string | PExit

record pserver =
  p_open :: "fd \<Rightarrow> bool"
  p_net :: streams
  p_serverfd :: fd
  client :: "pollfd list"
  maxindex :: nat
  retfd :: int
  p_pc :: poll_pc

text \<open>Results of the calls in one step.\<close>

record pio =
  p_accept :: fd
  p_read_fails :: bool
  p_write :: write_result

text \<open>The set-up; the events and results of the slots are whatever the stack held. \<open>None\<close> is
  \<open>exit(1)\<close>.\<close>

definition poll_setup :: "fd \<Rightarrow> int \<Rightarrow> pollfd list \<Rightarrow> pserver option" where
  "poll_setup sockfd bind_result stack =
     (if sockfd = -1 \<or> bind_result < 0 then None
      else (let c = map (\<lambda>x. x\<lparr>pfd := -1\<rparr>) stack
            in Some \<lparr>p_open = (\<lambda>f. f = sockfd), p_net = no_streams, p_serverfd = sockfd,
                 client = c[0 := (c ! 0)\<lparr>pfd := sockfd, events := POLLIN\<rparr>],
                 maxindex = 0, retfd = 0, p_pc = PPoll\<rparr>))"

section \<open>The call of poll\<close>

definition p_readable :: "pserver \<Rightarrow> fd \<Rightarrow> bool" where
  "p_readable s f = (if f = p_serverfd s then 0 < backlog (p_net s) else has_input (p_net s) f)"

text \<open>What \<open>poll\<close> reports on one entry: nothing for a negative descriptor, otherwise whether it
  can be read, when that was asked for.\<close>

definition poll_entry :: "pserver \<Rightarrow> pollfd \<Rightarrow> pollfd" where
  "poll_entry s c = c\<lparr>revents := (if 0 \<le> pfd c \<and> events c AND POLLIN \<noteq> 0 \<and> p_readable s (pfd c) then POLLIN else 0)\<rparr>"

definition polled :: "pserver \<Rightarrow> pollfd list" where
  "polled s = map (poll_entry s) (take (maxindex s + 1) (client s)) @ drop (maxindex s + 1) (client s)"

definition poll_count :: "pserver \<Rightarrow> int" where
  "poll_count s = count_if (\<lambda>c. revents c \<noteq> 0) (take (maxindex s + 1) (polled s))"

text \<open>\<open>None\<close> when the call blocks.\<close>

definition poll_call :: "bool \<Rightarrow> pserver \<Rightarrow> (net_ev \<times> pserver) option" where
  "poll_call fails s =
     (if fails then Some (Quiet, s\<lparr>p_pc := PExit\<rparr>)
      else if poll_count s = 0 then None
      else Some (Quiet, s\<lparr>client := polled s, retfd := poll_count s, p_pc := PListener\<rparr>))"

section \<open>The listening socket\<close>

definition free_slot :: "pollfd list \<Rightarrow> nat option" where
  "free_slot c = List.find (\<lambda>i. pfd (c ! i) = -1) [1..<CLIENT_COUNT]"

text \<open>The loop that keeps \<open>confd\<close>: nothing happens when there is no free slot.\<close>

definition keep_client :: "fd \<Rightarrow> pserver \<Rightarrow> pserver" where
  "keep_client confd s =
     (case free_slot (client s) of
        None \<Rightarrow> s
      | Some i \<Rightarrow> s\<lparr>client := (client s)[i := (client s ! i)\<lparr>pfd := confd, events := POLLIN\<rparr>], maxindex := i\<rparr>)"

definition count_down :: "nat \<Rightarrow> pserver \<Rightarrow> pserver" where
  "count_down i s = s\<lparr>retfd := retfd s - 1, p_pc := (if retfd s - 1 = 0 then PPoll else PScan i)\<rparr>"

definition poll_listener :: "pio \<Rightarrow> pserver \<Rightarrow> (net_ev \<times> pserver) option" where
  "poll_listener r s =
     (if \<not> pollin (client s ! 0) then Some (Quiet, s\<lparr>p_pc := PScan 1\<rparr>)
      else if backlog (p_net s) = 0 then None
      else if p_accept r < 0 then Some (Quiet, s\<lparr>p_pc := PExit\<rparr>)
      else (let confd = p_accept r;
                s = s\<lparr>p_open := (p_open s)(confd := True), p_net := accept_on confd (p_net s)\<rparr>
            in Some (Accepted confd, count_down 1 (keep_client confd s))))"

section \<open>The clients\<close>

definition poll_client :: "pio \<Rightarrow> nat \<Rightarrow> pserver \<Rightarrow> (net_ev \<times> pserver) option" where
  "poll_client r i s =
     (if CLIENT_COUNT \<le> i then Some (Quiet, s\<lparr>p_pc := PPoll\<rparr>)
      else if pfd (client s ! i) = -1 \<or> \<not> pollin (client s ! i) then Some (Quiet, s\<lparr>p_pc := PScan (i + 1)\<rparr>)
      else (let f = pfd (client s ! i)
            in case capital_turn 1024 (p_read_fails r) (p_write r) f (p_net s) of
                 None \<Rightarrow> None
               | Some (c, e, n) \<Rightarrow>
                   (let s = s\<lparr>p_net := n\<rparr>
                    in Some (e, case c of
                         Goes_on \<Rightarrow> count_down (i + 1) s
                       | Peer_left \<Rightarrow>
                           count_down (i + 1) (s\<lparr>p_open := (p_open s)(f := False),
                             client := (client s)[i := (client s ! i)\<lparr>pfd := -1\<rparr>]\<rparr>)
                       | In_write out \<Rightarrow> s\<lparr>p_pc := PWrite (i + 1) f out\<rparr>))))"

text \<open>The \<open>write\<close> that blocked comes to its end.\<close>

definition poll_written :: "pio \<Rightarrow> nat \<Rightarrow> fd \<Rightarrow> string \<Rightarrow> pserver \<Rightarrow> (net_ev \<times> pserver) option" where
  "poll_written r i f out s = map_option (\<lambda>e. (e, count_down i s)) (write_end (p_write r) f out)"

text \<open>One step of the program.\<close>

definition poll_main :: "pio \<Rightarrow> bool \<Rightarrow> pserver \<Rightarrow> (net_ev \<times> pserver) option" where
  "poll_main r fails s =
     (case p_pc s of
        PPoll \<Rightarrow> poll_call fails s
      | PListener \<Rightarrow> poll_listener r s
      | PScan i \<Rightarrow> poll_client r i s
      | PWrite i f out \<Rightarrow> poll_written r i f out s
      | PExit \<Rightarrow> None)"

definition p_results :: "pio \<Rightarrow> pserver \<Rightarrow> bool" where
  "p_results r s \<longleftrightarrow> p_accept r = -1 \<or> 0 \<le> p_accept r \<and> \<not> p_open s (p_accept r)"

inductive pserver_step :: "pserver \<Rightarrow> net_ev \<Rightarrow> pserver \<Rightarrow> bool" where
  clients: "net_env (p_serverfd s) (p_open s) (p_net s) e n \<Longrightarrow> pserver_step s e (s\<lparr>p_net := n\<rparr>)"
| main: "p_results r s \<Longrightarrow> poll_main r fails s = Some (e, t) \<Longrightarrow> pserver_step s e t"

end
