(* ===== verification/PollServerProps.thy ===== *)
theory PollServerProps
  imports PollServer
begin

text \<open>
  Every run of the poll server: it answers in capitals and, besides \<open>poll\<close>, blocks only in \<open>write\<close>, because
  the count that \<open>poll\<close> returned keeps the loop away from the entries that were not
  polled; as long as no client leaves every client is polled; and what is lost when one does.
\<close>

section \<open>Invariant\<close>

text \<open>The array: the listening socket first, then clients, each with a descriptor of its own.\<close>

definition alone :: "pserver \<Rightarrow> nat \<Rightarrow> bool" where
  "alone s k \<longleftrightarrow> (\<forall>j. 1 \<le> j \<longrightarrow> j < CLIENT_COUNT \<longrightarrow> pfd (client s ! j) = pfd (client s ! k) \<longrightarrow> j = k)"

definition used_ok :: "pserver \<Rightarrow> pollfd \<Rightarrow> bool" where
  "used_ok s c \<longleftrightarrow> 0 \<le> pfd c \<and> p_open s (pfd c) \<and> pfd c \<noteq> p_serverfd s \<and> events c = POLLIN"

definition slot_ok :: "pserver \<Rightarrow> nat \<Rightarrow> bool" where
  "slot_ok s k \<longleftrightarrow> pfd (client s ! k) = -1 \<or> used_ok s (client s ! k) \<and> alone s k"

definition base_ok :: "pserver \<Rightarrow> bool" where
  "base_ok s \<longleftrightarrow> length (client s) = CLIENT_COUNT \<and> maxindex s < CLIENT_COUNT
     \<and> pfd (client s ! 0) = p_serverfd s \<and> events (client s ! 0) = POLLIN
     \<and> 0 \<le> p_serverfd s \<and> p_open s (p_serverfd s)
     \<and> (\<forall>k. 1 \<le> k \<longrightarrow> k < CLIENT_COUNT \<longrightarrow> slot_ok s k)
     \<and> (\<forall>f. \<not> p_open s f \<longrightarrow> inq (p_net s) f = [])"

text \<open>From index \<open>i\<close> on, \<open>retfd\<close> of the entries up to \<open>pm\<close> (those that were polled) were
  reported and not yet served, and all of these can be read.\<close>

definition scan_ok :: "pserver \<Rightarrow> nat \<Rightarrow> nat \<Rightarrow> bool" where
  "scan_ok s i pm \<longleftrightarrow> pm < CLIENT_COUNT \<and> 0 < retfd s
     \<and> retfd s = count_if (\<lambda>k. pollin (client s ! k)) [i..<Suc pm]
     \<and> (\<forall>k. i \<le> k \<longrightarrow> k \<le> pm \<longrightarrow> pollin (client s ! k) \<longrightarrow>
          0 \<le> pfd (client s ! k) \<and> p_readable s (pfd (client s ! k)))"

definition phase_at :: "pserver \<Rightarrow> nat \<Rightarrow> bool" where
  "phase_at s pm \<longleftrightarrow> (case p_pc s of
       PListener \<Rightarrow> scan_ok s 0 pm
     | PScan i \<Rightarrow> 1 \<le> i \<and> scan_ok s i pm
     | PWrite i f out \<Rightarrow> 1 \<le> i \<and> (retfd s - 1 = 0 \<or> scan_ok (s\<lparr>retfd := retfd s - 1\<rparr>) i pm)
     | _ \<Rightarrow> True)"

definition ps_inv :: "pserver \<Rightarrow> bool" where
  "ps_inv s \<longleftrightarrow> base_ok s \<and> (\<exists>pm. phase_at s pm)"

lemma CLIENT_COUNT_pos [simp]: "0 < CLIENT_COUNT" "Suc 0 < CLIENT_COUNT"
  by (simp_all add: CLIENT_COUNT_def)

section \<open>The scan\<close>

lemma scan_okD:
  "scan_ok s i pm \<Longrightarrow> i \<le> k \<Longrightarrow> k \<le> pm \<Longrightarrow> pollin (client s ! k) \<Longrightarrow>
    0 \<le> pfd (client s ! k) \<and> p_readable s (pfd (client s ! k))"
  unfolding scan_ok_def by blast

lemma scan_okI:
  assumes "pm < CLIENT_COUNT" "retfd s \<noteq> 0"
    "retfd s = count_if (\<lambda>k. pollin (client s ! k)) [i..<Suc pm]"
    "\<And>k. i \<le> k \<Longrightarrow> k \<le> pm \<Longrightarrow> pollin (client s ! k) \<Longrightarrow>
      0 \<le> pfd (client s ! k) \<and> p_readable s (pfd (client s ! k))"
  shows "scan_ok s i pm"
proof -
  have "0 < retfd s" using assms(2,3) count_if_pos_iff by metis
  then show ?thesis unfolding scan_ok_def using assms(1,3,4) by blast
qed

lemma scan_in: "scan_ok s i pm \<Longrightarrow> i \<le> pm"
  by (cases "i \<le> pm") (simp_all add: scan_ok_def)

lemma scan_split:
  assumes "scan_ok s i pm"
  shows "retfd s = (if pollin (client s ! i) then 1 else 0)
     + count_if (\<lambda>k. pollin (client s ! k)) [Suc i..<Suc pm]"
proof -
  have "[i..<Suc pm] = i # [Suc i..<Suc pm]" using scan_in [OF assms] upt_conv_Cons by simp
  then show ?thesis using assms by (simp only: scan_ok_def count_if_Cons)
qed

lemma scan_skip: "scan_ok s i pm \<Longrightarrow> \<not> pollin (client s ! i) \<Longrightarrow> scan_ok s (Suc i) pm"
  using scan_split [of s i pm] unfolding scan_ok_def by simp

text \<open>One entry is done: the others, with the same entries and still readable, remain.\<close>

lemma scan_next:
  assumes "scan_ok s i pm" "pollin (client s ! i)" "retfd t = retfd s - 1" "retfd t \<noteq> 0"
    and same: "\<And>k. i < k \<Longrightarrow> k \<le> pm \<Longrightarrow> revents (client t ! k) = revents (client s ! k)
      \<and> (pollin (client s ! k) \<longrightarrow> pfd (client t ! k) = pfd (client s ! k) \<and> p_readable t (pfd (client s ! k)))"
  shows "scan_ok t (Suc i) pm"
proof -
  have p: "\<And>k. i < k \<Longrightarrow> k \<le> pm \<Longrightarrow> pollin (client t ! k) = pollin (client s ! k)"
    using same by (simp add: pollin_def)
  have "count_if (\<lambda>k. pollin (client t ! k)) [Suc i..<Suc pm] = count_if (\<lambda>k. pollin (client s ! k)) [Suc i..<Suc pm]"
    by (rule count_if_cong) (simp add: p del: upt_Suc)
  then have c: "retfd t = count_if (\<lambda>k. pollin (client t ! k)) [Suc i..<Suc pm]"
    using scan_split [OF assms(1)] assms(2,3) by (simp del: upt_Suc)
  have old: "pm < CLIENT_COUNT" using assms(1) unfolding scan_ok_def by blast
  show ?thesis
  proof (rule scan_okI [OF old assms(4) c])
    fix k assume k: "Suc i \<le> k" "k \<le> pm" "pollin (client t ! k)"
    then have "i < k" "i \<le> k" by simp_all
    then have "pollin (client s ! k)" using p k by simp
    with scan_okD [OF assms(1) \<open>i \<le> k\<close> k(2)] same [OF \<open>i < k\<close> k(2)]
    show "0 \<le> pfd (client t ! k) \<and> p_readable t (pfd (client t ! k))" by simp
  qed
qed

lemma scan_readable:
  "scan_ok s i pm \<Longrightarrow> pollin (client s ! i) \<Longrightarrow> 0 \<le> pfd (client s ! i) \<and> p_readable s (pfd (client s ! i))"
  using scan_okD [OF _ order_refl] scan_in by blast

section \<open>Steps\<close>

text \<open>The bytes in a \<open>write\<close>, and all that came for \<open>g\<close> and has not been through \<open>write\<close>.\<close>

definition p_writing :: "pserver \<Rightarrow> (fd \<times> string) option" where
  "p_writing s = (case p_pc s of PWrite i f out \<Rightarrow> Some (f, out) | _ \<Rightarrow> None)"

definition p_held :: "fd \<Rightarrow> pserver \<Rightarrow> string" where
  "p_held g s = in_write g (p_writing s) @ map toupper (inq (p_net s) g)"

lemma p_writing_simps [simp]:
  "p_writing (count_down i s) = None" "p_writing (s\<lparr>p_net := n\<rparr>) = p_writing s"
  "p_pc s = PWrite i f out \<Longrightarrow> p_writing s = Some (f, out)"
  "p_pc s \<in> {PPoll, PListener, PExit} \<Longrightarrow> p_writing s = None" "p_pc s = PScan j \<Longrightarrow> p_writing s = None"
  by (auto simp: p_writing_def count_down_def)

lemma env_step:
  assumes inv: "base_ok s" and env: "net_env (p_serverfd s) (p_open s) (p_net s) e n"
  shows "base_ok (s\<lparr>p_net := n\<rparr>) \<and> (phase_at s pm \<longrightarrow> phase_at (s\<lparr>p_net := n\<rparr>) pm)"
proof -
  let ?t = "s\<lparr>p_net := n\<rparr>"
  have b: "base_ok ?t" using inv net_env_frame(3) [OF env]
    by (simp add: base_ok_def slot_ok_def used_ok_def alone_def)
  have rd: "p_readable s f \<Longrightarrow> p_readable ?t f" for f
    using net_env_frame(1,2) [OF env] by (auto simp: p_readable_def split: if_splits)
  have "scan_ok (s\<lparr>retfd := c\<rparr>) i pm \<Longrightarrow> scan_ok (?t\<lparr>retfd := c\<rparr>) i pm" for c i pm
  proof (rule scan_okI)
    assume a: "scan_ok (s\<lparr>retfd := c\<rparr>) i pm"
    then show "pm < CLIENT_COUNT" "retfd (?t\<lparr>retfd := c\<rparr>) \<noteq> 0"
      "retfd (?t\<lparr>retfd := c\<rparr>) = count_if (\<lambda>k. pollin (client (?t\<lparr>retfd := c\<rparr>) ! k)) [i..<Suc pm]"
      unfolding scan_ok_def by simp_all
    have same: "p_readable (x\<lparr>retfd := c\<rparr>) = p_readable x" for x by (simp add: fun_eq_iff p_readable_def)
    show "0 \<le> pfd (client (?t\<lparr>retfd := c\<rparr>) ! k) \<and> p_readable (?t\<lparr>retfd := c\<rparr>) (pfd (client (?t\<lparr>retfd := c\<rparr>) ! k))"
      if "i \<le> k" "k \<le> pm" "pollin (client (?t\<lparr>retfd := c\<rparr>) ! k)" for k
      using scan_okD [OF a that(1,2)] that(3) rd by (simp add: same)
  qed
  note scan = this this [of "retfd s", simplified]
  then have "phase_at s pm \<longrightarrow> phase_at ?t pm" unfolding phase_at_def by (auto split: poll_pc.splits)
  with b show ?thesis by blast
qed

lemma polled_nth:
  assumes "length (client s) = CLIENT_COUNT" "k < CLIENT_COUNT"
  shows "polled s ! k = (if k \<le> maxindex s then poll_entry s (client s ! k) else client s ! k)"
  using assms by (auto simp: polled_def nth_append min_def)

lemma pfd_poll_entry [simp]: "pfd (poll_entry s c) = pfd c" "events (poll_entry s c) = events c"
  by (simp_all add: poll_entry_def)

lemma POLLIN_nonzero [simp]: "POLLIN \<noteq> 0" "POLLIN AND POLLIN = POLLIN"
  by (simp_all add: POLLIN_def)

lemma poll_entry_pollin:
  "pollin (poll_entry s c) \<longleftrightarrow> 0 \<le> pfd c \<and> events c AND POLLIN \<noteq> 0 \<and> p_readable s (pfd c)"
  "pollin (poll_entry s c) \<longleftrightarrow> revents (poll_entry s c) \<noteq> 0"
  by (simp_all add: poll_entry_def pollin_def)

lemma count_if_nth:
  "n \<le> length xs \<Longrightarrow> count_if P (take n xs) = count_if (\<lambda>k. P (xs ! k)) [0..<n]"
  by (induction n) (simp_all add: take_Suc_conv_app_nth)

lemma call_step:
  assumes inv: "base_ok s" and call: "poll_call fails s = Some (e, t)"
  shows "base_ok t \<and> phase_at t (maxindex s) \<and> maxindex t = maxindex s
    \<and> map pfd (client t) = map pfd (client s)"
proof (cases fails)
  case True
  then show ?thesis
    using assms by (auto simp: poll_call_def base_ok_def slot_ok_def used_ok_def alone_def phase_at_def)
next
  case False
  then have ne: "poll_count s \<noteq> 0"
    and t: "t = s\<lparr>client := polled s, retfd := poll_count s, p_pc := PListener\<rparr>"
    using call by (auto simp: poll_call_def split: if_splits)
  have len: "length (client s) = CLIENT_COUNT" "maxindex s < CLIENT_COUNT"
    using inv by (simp_all add: base_ok_def)
  have lp: "length (polled s) = CLIENT_COUNT" using len by (simp add: polled_def)
  have same: "pfd (polled s ! k) = pfd (client s ! k)" "events (polled s ! k) = events (client s ! k)"
    if "k < CLIENT_COUNT" for k
    using polled_nth [OF len(1) that] by simp_all
  have "base_ok t" using inv same lp by (simp add: base_ok_def slot_ok_def used_ok_def alone_def t)
  moreover have "scan_ok t 0 (maxindex s)"
  proof (rule scan_okI)
    have "pollin (polled s ! k) = (revents (polled s ! k) \<noteq> 0)" if "k \<le> maxindex s" for k
      using polled_nth [OF len(1), of k] that len poll_entry_pollin(2) by simp
    then have "count_if (\<lambda>k. pollin (polled s ! k)) [0..<Suc (maxindex s)]
      = count_if (\<lambda>k. revents (polled s ! k) \<noteq> 0) [0..<Suc (maxindex s)]"
      by (intro count_if_cong) (simp del: upt_Suc)
    also have "\<dots> = poll_count s"
      using count_if_nth [of "Suc (maxindex s)" "polled s"] len lp by (simp add: poll_count_def)
    finally show "retfd t = count_if (\<lambda>k. pollin (client t ! k)) [0..<Suc (maxindex s)]"
      by (simp add: t del: upt_Suc)
    show "retfd t \<noteq> 0" using ne by (simp add: t)
    fix k assume k: "k \<le> maxindex s" "pollin (client t ! k)"
    have "polled s ! k = poll_entry s (client s ! k)" using polled_nth [OF len(1), of k] k len by simp
    then show "0 \<le> pfd (client t ! k) \<and> p_readable t (pfd (client t ! k))"
      using k poll_entry_pollin(1) [of s "client s ! k"] by (simp add: t p_readable_def)
  qed (use len in simp)
  moreover have "map pfd (polled s) = map pfd (client s)"
    by (rule nth_equalityI) (use lp len same in simp_all)
  ultimately show ?thesis by (simp add: phase_at_def t)
qed

text \<open>A change of other slots, of \<open>p_pc\<close> and of the counters is harmless for \<open>base_ok\<close>.\<close>

lemma base_count_down [simp]: "base_ok (count_down i s) = base_ok s"
  by (simp add: base_ok_def slot_ok_def used_ok_def alone_def count_down_def)

lemma base_pc [simp]: "base_ok (s\<lparr>p_pc := c\<rparr>) = base_ok s"
  by (simp add: base_ok_def slot_ok_def used_ok_def alone_def)

lemma phase_count_down:
  assumes "scan_ok s i pm" "pollin (client s ! i)"
    and "retfd t = retfd s"
    and same: "\<And>k. i < k \<Longrightarrow> k \<le> pm \<Longrightarrow> revents (client t ! k) = revents (client s ! k)
      \<and> (pollin (client s ! k) \<longrightarrow> pfd (client t ! k) = pfd (client s ! k) \<and> p_readable t (pfd (client s ! k)))"
  shows "phase_at (count_down (Suc i) t) pm"
proof (cases "retfd s - 1 = 0")
  case True
  then show ?thesis using assms(3) by (simp add: phase_at_def count_down_def)
next
  case False
  have "scan_ok (count_down (Suc i) t) (Suc i) pm"
    by (rule scan_next [OF assms(1,2)])
      (use assms(3) False same in \<open>simp_all add: count_down_def p_readable_def\<close>)
  then show ?thesis using assms(3) False by (simp add: phase_at_def count_down_def)
qed

text \<open>A \<open>write\<close> that blocks leaves the count as it is; its end counts down.\<close>

lemma phase_write:
  assumes "phase_at (count_down i t) pm" "1 \<le> i"
  shows "phase_at (t\<lparr>p_pc := PWrite i f out\<rparr>) pm"
  using assms by (auto simp: phase_at_def count_down_def scan_ok_def p_readable_def split: if_splits)

lemma phase_written:
  assumes "phase_at s pm" "p_pc s = PWrite i f out"
  shows "phase_at (count_down i s) pm"
  using assms by (auto simp: phase_at_def count_down_def scan_ok_def p_readable_def)

lemma free_slotD:
  assumes "free_slot c = Some i"
  shows "1 \<le> i" "i < CLIENT_COUNT" "pfd (c ! i) = -1" "\<And>j. 1 \<le> j \<Longrightarrow> j < i \<Longrightarrow> pfd (c ! j) \<noteq> -1"
proof -
  obtain n where n: "n < length [1..<CLIENT_COUNT]" "pfd (c ! ([1..<CLIENT_COUNT] ! n)) = -1"
    "i = [1..<CLIENT_COUNT] ! n" "\<And>m. m < n \<Longrightarrow> pfd (c ! ([1..<CLIENT_COUNT] ! m)) \<noteq> -1"
    using assms by (auto simp: free_slot_def find_Some_iff)
  then have i: "i = Suc n" by simp
  show "1 \<le> i" "i < CLIENT_COUNT" "pfd (c ! i) = -1" using n by auto
  show "pfd (c ! j) \<noteq> -1" if "1 \<le> j" "j < i" for j
    using n(4) [of "j - 1"] n(1) that i by simp
qed

lemma keep_client_base:
  assumes b: "base_ok s" and f: "0 \<le> f" "p_open s f" "f \<noteq> p_serverfd s"
    and new: "\<And>k. 1 \<le> k \<Longrightarrow> k < CLIENT_COUNT \<Longrightarrow> pfd (client s ! k) \<noteq> f"
  shows "base_ok (keep_client f s)"
proof (cases "free_slot (client s)")
  case None
  then show ?thesis using b by (simp add: keep_client_def)
next
  case (Some i)
  note i = free_slotD [OF Some]
  have len: "length (client s) = CLIENT_COUNT" using b by (simp add: base_ok_def)
  have t: "keep_client f s = s\<lparr>client := (client s)[i := (client s ! i)\<lparr>pfd := f, events := POLLIN\<rparr>], maxindex := i\<rparr>"
    by (simp add: keep_client_def Some)
  have "slot_ok (keep_client f s) k" if k: "1 \<le> k" "k < CLIENT_COUNT" for k
  proof (cases "k = i")
    case True
    then show ?thesis using f new len i k by (auto simp: slot_ok_def used_ok_def alone_def t nth_list_update)
  next
    case False
    have k0: "slot_ok s k" using b k by (simp add: base_ok_def)
    have ck: "client (keep_client f s) ! k = client s ! k" using False by (simp add: t)
    show ?thesis
    proof (cases "pfd (client s ! k) = -1")
      case True
      then show ?thesis by (simp add: slot_ok_def ck)
    next
      case used: False
      have "j = k" if j: "1 \<le> j" "j < CLIENT_COUNT" "pfd (client (keep_client f s) ! j) = pfd (client s ! k)" for j
      proof (cases "j = i")
        case True
        then have "pfd (client s ! k) = f" using j(3) len i by (simp add: t)
        then show ?thesis using new [OF k] by simp
      next
        case False
        then have "pfd (client s ! j) = pfd (client s ! k)" using j(3) by (simp add: t)
        then show ?thesis using k0 used j(1,2) unfolding slot_ok_def alone_def by blast
      qed
      then have "alone (keep_client f s) k" by (simp add: alone_def ck)
      moreover have "used_ok s (client s ! k)" using k0 used by (simp add: slot_ok_def)
      then have "used_ok (keep_client f s) (client s ! k)" by (simp add: used_ok_def t)
      ultimately show ?thesis by (simp add: slot_ok_def ck)
    qed
  qed
  then show ?thesis using b i unfolding base_ok_def t by simp
qed

lemma keep_client_simps [simp]:
  "p_open (keep_client f s) = p_open s" "p_net (keep_client f s) = p_net s" "retfd (keep_client f s) = retfd s"
  "p_serverfd (keep_client f s) = p_serverfd s" "p_pc (keep_client f s) = p_pc s"
  by (simp_all add: keep_client_def split: option.splits)

lemma ps_listener_step:
  assumes b: "base_ok s" and sc: "scan_ok s 0 pm" and res: "p_results r s"
    and step: "poll_listener r s = Some (e, t)"
  shows "base_ok t \<and> phase_at t pm
    \<and> (\<forall>g. inq (p_net t) g = inq (p_net s) g \<and> answer g e = [] \<and> due g e = [])"
proof (cases "pollin (client s ! 0)")
  case False
  then have t: "e = Quiet" "t = s\<lparr>p_pc := PScan 1\<rparr>" using step by (simp_all add: poll_listener_def)
  have "scan_ok s 1 pm" using scan_skip [OF sc False] by simp
  then have "scan_ok t 1 pm" unfolding scan_ok_def t p_readable_def by simp
  then show ?thesis using b by (simp add: phase_at_def t)
next
  case True
  show ?thesis
  proof (cases "p_accept r < 0")
    case acc: True
    then have "e = Quiet \<and> t = s\<lparr>p_pc := PExit\<rparr>" using step True by (simp add: poll_listener_def split: if_splits)
    then show ?thesis using b by (simp add: phase_at_def)
  next
    case False
    define f where "f = p_accept r"
    have f: "0 \<le> f" "\<not> p_open s f" using res False by (auto simp: p_results_def f_def)
    have "p_open s (p_serverfd s)" "\<not> p_open s f \<longrightarrow> inq (p_net s) f = []" using b by (simp_all add: base_ok_def)
    then have fs: "f \<noteq> p_serverfd s" and q: "inq (p_net s) f = []" using f by auto
    let ?s = "s\<lparr>p_open := (p_open s)(f := True), p_net := accept_on f (p_net s)\<rparr>"
    have t: "e = Accepted f" "t = count_down 1 (keep_client f ?s)"
      using step True False by (auto simp: poll_listener_def f_def Let_def split: if_splits)
    have inq: "inq (accept_on f (p_net s)) g = inq (p_net s) g" for g using q by (simp add: accept_on_def)
    have new: "pfd (client s ! k) \<noteq> f" if "1 \<le> k" "k < CLIENT_COUNT" for k
      using b that f unfolding base_ok_def slot_ok_def used_ok_def alone_def by fastforce
    have bs: "base_ok ?s" using b f inq unfolding base_ok_def slot_ok_def used_ok_def alone_def by auto
    then have bt: "base_ok t" using keep_client_base [OF bs f(1)] fs new by (simp add: t)
    have "phase_at (count_down (Suc 0) (keep_client f ?s)) pm"
    proof (rule phase_count_down [OF sc True])
      show "retfd (keep_client f ?s) = retfd s" by simp
      fix k assume k: "0 < k" "k \<le> pm"
      have kc: "k < CLIENT_COUNT" using k sc unfolding scan_ok_def by simp
      have len: "length (client s) = CLIENT_COUNT" using b by (simp add: base_ok_def)
      have kk: "client (keep_client f ?s) ! k
          = (if free_slot (client s) = Some k then (client s ! k)\<lparr>pfd := f, events := POLLIN\<rparr> else client s ! k)"
        using len kc by (simp add: keep_client_def nth_list_update split: option.splits)
      then have rev: "revents (client (keep_client f ?s) ! k) = revents (client s ! k)" by simp
      have "pfd (client (keep_client f ?s) ! k) = pfd (client s ! k) \<and> p_readable (keep_client f ?s) (pfd (client s ! k))"
        if p: "pollin (client s ! k)"
      proof -
        note rk = scan_okD [OF sc _ k(2) p, simplified]
        have "free_slot (client s) \<noteq> Some k"
        proof
          assume "free_slot (client s) = Some k"
          then show False using free_slotD(3) [of "client s" k] rk by simp
        qed
        then have "pfd (client (keep_client f ?s) ! k) = pfd (client s ! k)" using kk by simp
        moreover have "pfd (client s ! k) \<noteq> p_serverfd s \<and> pfd (client s ! k) \<noteq> f"
        proof -
          have "slot_ok s k" using b k kc by (simp add: base_ok_def)
          then show ?thesis using rk new [of k] k kc by (auto simp: slot_ok_def used_ok_def)
        qed
        ultimately show ?thesis using rk by (simp add: p_readable_def has_input_frame)
      qed
      with rev show "revents (client (keep_client f ?s) ! k) = revents (client s ! k)
        \<and> (pollin (client s ! k) \<longrightarrow> pfd (client (keep_client f ?s) ! k) = pfd (client s ! k)
          \<and> p_readable (keep_client f ?s) (pfd (client s ! k)))" by blast
    qed
    then have "phase_at t pm" by (simp add: t)
    then show ?thesis using bt inq by (simp add: t count_down_def)
  qed
qed

lemma base_close:
  assumes b: "base_ok s" and i: "1 \<le> i" "i < CLIENT_COUNT" and f: "f \<noteq> p_serverfd s" "inq (p_net s) f = []"
    and c: "pfd (client s ! i) = f" "f \<noteq> -1"
  shows "base_ok (s\<lparr>p_open := (p_open s)(f := False), client := (client s)[i := (client s ! i)\<lparr>pfd := -1\<rparr>]\<rparr>)"
    (is "base_ok ?t")
proof -
  have len: "length (client s) = CLIENT_COUNT" using b by (simp add: base_ok_def)
  have "slot_ok ?t k" if k: "1 \<le> k" "k < CLIENT_COUNT" for k
  proof (cases "k = i")
    case True
    then show ?thesis using len i by (simp add: slot_ok_def)
  next
    case False
    have ck: "client ?t ! k = client s ! k" using False by simp
    have old: "slot_ok s k" "slot_ok s i" using b k i by (simp_all add: base_ok_def)
    show ?thesis
    proof (cases "pfd (client s ! k) = -1")
      case True
      then show ?thesis unfolding slot_ok_def ck by blast
    next
      case used: False
      then have u: "used_ok s (client s ! k)" "alone s k" using old by (simp_all add: slot_ok_def)
      have "pfd (client s ! k) \<noteq> f" using old(2) c k False unfolding slot_ok_def alone_def by metis
      then have "used_ok ?t (client s ! k)" using u(1) by (simp add: used_ok_def)
      moreover have "alone ?t k"
      proof -
        have "j = k" if j: "1 \<le> j" "j < CLIENT_COUNT" "pfd (client ?t ! j) = pfd (client s ! k)" for j
        proof (cases "j = i")
          case True
          then show ?thesis using j(3) used len i by simp
        next
          case False
          then have "pfd (client s ! j) = pfd (client s ! k)" using j(3) by simp
          then show ?thesis using u(2) j(1,2) unfolding alone_def by blast
        qed
        then show ?thesis unfolding alone_def ck by blast
      qed
      ultimately show ?thesis unfolding slot_ok_def ck by blast
    qed
  qed
  moreover have "inq (p_net ?t) g = []" if "\<not> p_open ?t g" for g
    using that f(2) b by (cases "g = f") (simp_all add: base_ok_def)
  ultimately show ?thesis using b i f len unfolding base_ok_def by simp
qed

lemma base_net:
  "base_ok s \<Longrightarrow> (\<And>f. \<not> p_open s f \<Longrightarrow> inq (p_net s) f = [] \<Longrightarrow> inq n f = []) \<Longrightarrow> base_ok (s\<lparr>p_net := n\<rparr>)"
  by (simp add: base_ok_def slot_ok_def used_ok_def alone_def)

lemma ps_client_step:
  assumes b: "base_ok s" and i1: "1 \<le> i" and sc: "scan_ok s i pm"
    and step: "poll_client r i s = Some (e, t)"
  shows "base_ok t \<and> phase_at t pm
    \<and> (\<forall>g. answer g e @ p_held g t = map toupper (inq (p_net s) g) \<and> due g e = [])"
proof -
  have i: "i < CLIENT_COUNT" using scan_in [OF sc] sc unfolding scan_ok_def by simp
  have len: "length (client s) = CLIENT_COUNT" and si: "slot_ok s i" using b i i1 by (simp_all add: base_ok_def)
  show ?thesis
  proof (cases "pollin (client s ! i)")
    case False
    then have t: "e = Quiet" "t = s\<lparr>p_pc := PScan (Suc i)\<rparr>" using step i by (simp_all add: poll_client_def)
    have "scan_ok t (Suc i) pm" using scan_skip [OF sc False] unfolding scan_ok_def t p_readable_def by simp
    then show ?thesis using b i1 by (simp add: phase_at_def p_held_def t)
  next
    case True
    define f where "f = pfd (client s ! i)"
    have f: "0 \<le> f" "p_open s f" "f \<noteq> p_serverfd s" "alone s i"
      using scan_readable [OF sc True] si by (auto simp: f_def slot_ok_def used_ok_def)
    obtain c n where turn: "capital_turn 1024 (p_read_fails r) (p_write r) f (p_net s) = Some (c, e, n)"
      and t: "t = (case c of
           Goes_on \<Rightarrow> count_down (Suc i) (s\<lparr>p_net := n\<rparr>)
         | Peer_left \<Rightarrow> count_down (Suc i) (s\<lparr>p_net := n, p_open := (p_open s)(f := False),
             client := (client s)[i := (client s ! i)\<lparr>pfd := -1\<rparr>]\<rparr>)
         | In_write out \<Rightarrow> s\<lparr>p_net := n, p_pc := PWrite (Suc i) f out\<rparr>)"
      using step i True f(1)
      by (auto simp: poll_client_def f_def [symmetric] Let_def split: option.splits prod.splits cong: turn.case_cong)
    define ended where "ended = (c = Peer_left)"
    let ?s = "s\<lparr>p_net := n\<rparr>"
    let ?t = "if ended then ?s\<lparr>p_open := (p_open s)(f := False), client := (client s)[i := (client s ! i)\<lparr>pfd := -1\<rparr>]\<rparr> else ?s"
    note d = capital_turnD [OF turn, simplified]
    have bs: "base_ok ?s" by (rule base_net [OF b]) (use d in blast)
    have "base_ok ?t"
    proof (cases ended)
      case True
      then have "inq n f = []" using d unfolding ended_def by blast
      then show ?thesis using base_close [OF bs i1 i, of f] f True by (simp add: f_def)
    qed (use bs in simp)
    moreover have "phase_at (count_down (Suc i) ?t) pm"
    proof (rule phase_count_down [OF sc True])
      show "retfd ?t = retfd s" by simp
      fix k assume k: "i < k" "k \<le> pm"
      have kc: "1 \<le> k" "k < CLIENT_COUNT" using k sc unfolding scan_ok_def by simp_all
      have ck: "client ?t ! k = client s ! k" using k by simp
      have "p_readable ?t (pfd (client s ! k))" if p: "pollin (client s ! k)"
      proof -
        have ik: "i \<le> k" using k by simp
        note rk = scan_okD [OF sc ik k(2) p]
        have "slot_ok s k" using b kc by (simp add: base_ok_def)
        then have "pfd (client s ! k) \<noteq> p_serverfd s" using rk by (auto simp: slot_ok_def used_ok_def)
        moreover have "pfd (client s ! k) \<noteq> f" using f(4) kc k unfolding alone_def f_def by blast
        moreover have "eof n = eof (p_net s)" "pfd (client s ! k) \<noteq> f \<Longrightarrow> inq n (pfd (client s ! k)) = inq (p_net s) (pfd (client s ! k))"
          using d by blast+
        ultimately show ?thesis using rk by (simp add: p_readable_def has_input_def)
      qed
      then show "revents (client ?t ! k) = revents (client s ! k) \<and> (pollin (client s ! k) \<longrightarrow>
          pfd (client ?t ! k) = pfd (client s ! k) \<and> p_readable ?t (pfd (client s ! k)))" unfolding ck by blast
    qed
    ultimately have r: "base_ok ?t" "phase_at (count_down (Suc i) ?t) pm" by blast+
    show ?thesis
    proof (cases "\<exists>out. c = In_write out")
      case True
      then obtain out where c: "c = In_write out" by blast
      then have "phase_at (?s\<lparr>p_pc := PWrite (Suc i) f out\<rparr>) pm"
        using phase_write [of "Suc i" ?s pm f out] r(2) by (simp add: ended_def)
      then show ?thesis using d bs by (simp add: t c p_held_def p_writing_def)
    next
      case False
      then have c: "c = Goes_on \<or> c = Peer_left" by (cases c) auto
      then have "t = count_down (Suc i) ?t" by (auto simp: t ended_def)
      moreover have "p_net (count_down (Suc i) ?t) = n" by (simp add: count_down_def)
      moreover have "left_writing f c = None" using c by auto
      ultimately show ?thesis using d r by (simp add: p_held_def)
    qed
  qed
qed

lemma main_step:
  assumes b: "base_ok s" and ph: "phase_at s pm" and res: "p_results r s"
    and step: "poll_main r fails s = Some (e, t)"
  shows "base_ok t \<and> phase_at t (if p_pc s = PPoll then maxindex s else pm)
    \<and> answer g e @ p_held g t = p_held g s @ due g e"
proof (cases "p_pc s")
  case PPoll
  then have c: "poll_call fails s = Some (e, t)" using step by (simp add: poll_main_def)
  then have "p_net t = p_net s" "e = Quiet" "p_pc t \<in> {PExit, PListener}"
    by (auto simp: poll_call_def split: if_splits)
  then show ?thesis using call_step [OF b c] PPoll by (auto simp: p_held_def)
next
  case PListener
  then have "scan_ok s 0 pm" using ph by (simp add: phase_at_def)
  moreover have "p_writing t = None"
    using step PListener
    by (auto simp: poll_main_def poll_listener_def p_writing_def count_down_def Let_def split: if_splits)
  ultimately show ?thesis using ps_listener_step [of s pm r e t] b res step PListener
    by (simp add: poll_main_def p_held_def)
next
  case (PScan i)
  then have "1 \<le> i" "scan_ok s i pm" using ph by (simp_all add: phase_at_def)
  then show ?thesis using ps_client_step [of s i pm r e t] b step PScan
    by (simp add: poll_main_def p_held_def)
next
  case (PWrite i f out)
  then obtain e' where w: "write_end (p_write r) f out = Some e'" and t: "e = e'" "t = count_down i s"
    using step by (auto simp: poll_main_def poll_written_def)
  have "p_net t = p_net s" by (simp add: t count_down_def)
  then show ?thesis
    using b phase_written [OF ph PWrite] write_end_event(1) [OF w, of g] PWrite by (simp add: t p_held_def)
qed (use step in \<open>simp add: poll_main_def\<close>)

lemma ps_step:
  assumes inv: "ps_inv s" and step: "pserver_step s e t"
  shows "ps_inv t \<and> answer g e @ p_held g t = p_held g s @ due g e"
proof -
  obtain pm where i: "base_ok s" "phase_at s pm" using inv by (auto simp: ps_inv_def)
  from step show ?thesis
  proof cases
    case (clients n)
    have "answer g e = []" using clients(2) by cases simp_all
    then show ?thesis
      using env_step [OF i(1) clients(2), of pm] i(2) net_env_frame(4) [OF clients(2), of g] clients(1)
      by (auto simp: ps_inv_def p_held_def)
  next
    case (main r fails)
    then show ?thesis using main_step [OF i main] by (auto simp: ps_inv_def)
  qed
qed

interpretation ps: conserving_system pserver_step ps_inv "due g" "answer g" "p_held g"
  for g
  by unfold_locales (use ps_step in blast)+

section \<open>Clients beyond the largest index\<close>

definition left_out :: "nat \<Rightarrow> fd \<Rightarrow> pserver \<Rightarrow> bool" where
  "left_out k f s \<longleftrightarrow> base_ok s \<and> k < CLIENT_COUNT \<and> maxindex s < k \<and> pfd (client s ! k) = f \<and> f \<noteq> -1
     \<and> in_write f (p_writing s) = [] \<and> (\<exists>pm < k. phase_at s pm)"

lemma left_out_main:
  assumes lo: "left_out k f s" and res: "p_results r s"
    and step: "poll_main r fails s = Some (e, t)" and na: "\<not> accepting e"
  shows "maxindex t = maxindex s \<and> pfd (client t ! k) = pfd (client s ! k) \<and> answer f e = []
    \<and> in_write f (p_writing t) = []"
proof -
  obtain pm where i: "base_ok s" "phase_at s pm" "pm < k" and k: "k < CLIENT_COUNT" "pfd (client s ! k) = f" "f \<noteq> -1"
    and nw: "in_write f (p_writing s) = []"
    using lo by (auto simp: left_out_def)
  have len: "length (client s) = CLIENT_COUNT" using i by (simp add: base_ok_def)
  show ?thesis
  proof (cases "p_pc s")
    case PPoll
    then have c: "poll_call fails s = Some (e, t)" using step by (simp add: poll_main_def)
    note cs = call_step [OF i(1) c]
    then have "length (client t) = CLIENT_COUNT" by (simp add: base_ok_def)
    then have "pfd (client t ! k) = pfd (client s ! k)" using cs k len nth_map by metis
    moreover have "e = Quiet" "p_writing t = None"
      using c by (auto simp: poll_call_def p_writing_def split: if_splits)
    ultimately show ?thesis using cs by simp
  next
    case PListener
    then have "poll_listener r s = Some (e, t)" using step by (simp add: poll_main_def)
    then show ?thesis using na
      by (auto simp: poll_listener_def accepting_def p_writing_def Let_def split: if_splits)
  next
    case (PScan j)
    then have j: "1 \<le> j" "scan_ok s j pm" using i by (simp_all add: phase_at_def)
    then have jk: "j < k" "j < CLIENT_COUNT" using scan_in [OF j(2)] i(3) k by simp_all
    have st: "poll_client r j s = Some (e, t)" using step PScan by (simp add: poll_main_def)
    show ?thesis
    proof (cases "pfd (client s ! j) = -1 \<or> \<not> pollin (client s ! j)")
      case True
      then show ?thesis using st jk by (auto simp: poll_client_def p_writing_def)
    next
      case False
      let ?f = "pfd (client s ! j)"
      obtain c n where turn: "capital_turn 1024 (p_read_fails r) (p_write r) ?f (p_net s) = Some (c, e, n)"
        and t: "t = (case c of
             Goes_on \<Rightarrow> count_down (Suc j) (s\<lparr>p_net := n\<rparr>)
           | Peer_left \<Rightarrow> count_down (Suc j) (s\<lparr>p_net := n, p_open := (p_open s)(?f := False),
               client := (client s)[j := (client s ! j)\<lparr>pfd := -1\<rparr>]\<rparr>)
           | In_write out \<Rightarrow> s\<lparr>p_net := n, p_pc := PWrite (Suc j) ?f out\<rparr>)"
        using st False jk
        by (auto simp: poll_client_def Let_def split: option.splits prod.splits cong: turn.case_cong)
      have "slot_ok s k" using i(1) k jk j by (simp add: base_ok_def)
      then have "alone s k" using k by (simp add: slot_ok_def)
      then have "pfd (client s ! j) = pfd (client s ! k) \<longrightarrow> j = k" using j(1) jk(2) by (simp add: alone_def)
      then have "?f \<noteq> f" using jk(1) k(2) by auto
      then have "answer f e = []" using turn_others [OF turn] by simp
      then show ?thesis using jk \<open>?f \<noteq> f\<close>
        by (cases c) (simp_all add: t count_down_def p_writing_def)
    qed
  next
    case (PWrite j g out)
    then obtain e' where w: "write_end (p_write r) g out = Some e'" and t: "e = e'" "t = count_down j s"
      using step by (auto simp: poll_main_def poll_written_def)
    show ?thesis using nw write_end_event(1) [OF w, of f] PWrite by (simp add: t) (simp add: count_down_def)
  qed (use step in \<open>simp add: poll_main_def\<close>)
qed

lemma left_out_step:
  assumes lo: "left_out k f s" and step: "pserver_step s e t" and na: "\<not> accepting e"
  shows "left_out k f t \<and> answer f e = []"
proof -
  obtain pm where i: "base_ok s" "phase_at s pm" "pm < k" and k: "k < CLIENT_COUNT" "maxindex s < k"
    using lo by (auto simp: left_out_def)
  from step show ?thesis
  proof cases
    case (clients n)
    have "answer f e = []" using clients(2) by cases simp_all
    moreover have "base_ok t \<and> phase_at t pm" using env_step [OF i(1) clients(2), of pm] i clients(1) by simp
    moreover have "p_writing t = p_writing s" by (simp add: clients(1))
    ultimately show ?thesis using lo i(3) clients(1) unfolding left_out_def by fastforce
  next
    case (main r fails)
    note m = left_out_main [OF lo main na]
    have "phase_at t (if p_pc s = PPoll then maxindex s else pm)" "base_ok t"
      using main_step [OF i(1,2) main] by blast+
    moreover have "(if p_pc s = PPoll then maxindex s else pm) < k" using i k by simp
    ultimately show ?thesis using lo m unfolding left_out_def by fastforce
  qed
qed

lemma left_out_runs:
  "runs pserver_step s es t \<Longrightarrow> left_out k f s \<Longrightarrow> list_all (\<lambda>e. \<not> accepting e) es \<Longrightarrow>
    left_out k f t \<and> concat (map (answer f) es) = []"
proof (induction rule: runs.induct)
  case (snoc s es t e u)
  then have "left_out k f t \<and> concat (map (answer f) es) = []" "\<not> accepting e" by auto
  then show ?case using left_out_step [of k f t e u] snoc.hyps(2) by simp
qed simp

section \<open>Runs that are followed step by step\<close>

datatype p_sched = PJoin | PArrive fd string | PHangup fd | PStep fd

definition p_follow :: "p_sched \<Rightarrow> pserver \<Rightarrow> (net_ev \<times> pserver) option" where
  "p_follow c s =
     (case c of
        PJoin \<Rightarrow> Some (Joined, s\<lparr>p_net := (p_net s)\<lparr>backlog := backlog (p_net s) + 1\<rparr>\<rparr>)
      | PArrive f d \<Rightarrow>
          if p_open s f \<and> f \<noteq> p_serverfd s \<and> \<not> eof (p_net s) f \<and> d \<noteq> []
          then Some (Arrived f d, s\<lparr>p_net := arrive f d (p_net s)\<rparr>) else None
      | PHangup f \<Rightarrow>
          if p_open s f \<and> f \<noteq> p_serverfd s then Some (Hangup f, s\<lparr>p_net := hang_up f (p_net s)\<rparr>) else None
      | PStep a \<Rightarrow>
          let r = \<lparr>p_accept = a, p_read_fails = False, p_write = Writes\<rparr>
          in if a = -1 \<or> 0 \<le> a \<and> \<not> p_open s a then poll_main r False s else None)"

lemma p_follow_step: "p_follow c s = Some (e, t) \<Longrightarrow> pserver_step s e t"
proof (cases c)
  case (PStep a)
  assume "p_follow c s = Some (e, t)"
  then have "p_results \<lparr>p_accept = a, p_read_fails = False, p_write = Writes\<rparr> s"
    "poll_main \<lparr>p_accept = a, p_read_fails = False, p_write = Writes\<rparr> False s = Some (e, t)"
    using PStep by (auto simp: p_follow_def Let_def p_results_def split: if_splits)
  then show ?thesis by (rule pserver_step.main)
next
  case PJoin
  assume "p_follow c s = Some (e, t)"
  then show ?thesis using PJoin pserver_step.clients [OF net_env.ne_join] by (auto simp: p_follow_def)
qed (auto simp: p_follow_def split: if_splits intro: pserver_step.clients net_env.intros)

lemma p_follow_runs: "follow p_follow cs s = Some (es, t) \<Longrightarrow> runs pserver_step s es t"
  by (rule follow_runs [of p_follow]) (rule p_follow_step)

definition p_stack :: "pollfd list" where
  "p_stack = replicate 100 \<lparr>pfd = 0, events = 0, revents = 0\<rparr>"

definition p_outcome :: "p_sched list \<Rightarrow> (net_ev list \<Rightarrow> pserver \<Rightarrow> bool) \<Rightarrow> bool" where
  "p_outcome cs P \<longleftrightarrow>
     (case poll_setup 3 0 p_stack of None \<Rightarrow> False
      | Some s0 \<Rightarrow> (case follow p_follow cs s0 of None \<Rightarrow> False | Some (es, s) \<Rightarrow> P es s))"

lemma p_outcome_runs:
  assumes "p_outcome cs P"
  shows "\<exists>s0 es s. poll_setup 3 0 p_stack = Some s0 \<and> runs pserver_step s0 es s \<and> P es s"
  using assms p_follow_runs by (fastforce simp: p_outcome_def split: option.splits)

text \<open>Two clients; the first leaves and a third takes its slot; the second sends.\<close>

definition p_strand :: "p_sched list" where
  "p_strand = [PJoin, PStep (-1), PStep 4, PJoin, PStep (-1), PStep 5,
     PHangup 4, PStep (-1), PStep (-1), PStep (-1), PJoin, PStep (-1), PStep 4, PArrive 5 ''hi'']"

text \<open>Two clients; the first is served and the second waits for its turn in the same round.\<close>

definition p_demo :: "p_sched list" where
  "p_demo = [PJoin, PStep (-1), PStep 4, PJoin, PStep (-1), PStep 5,
     PArrive 5 ''you'', PArrive 4 ''me'', PStep (-1), PStep (-1), PStep (-1)]"

lemma p_runs_outcome:
  "p_outcome p_strand (\<lambda>es s. p_pc s = PPoll \<and> maxindex s = 1 \<and> pfd (client s ! 2) = 5 \<and> inq (p_net s) 5 = ''hi''
     \<and> p_open s 5 \<and> p_serverfd s \<noteq> 5 \<and> \<not> eof (p_net s) 5)"
  "p_outcome p_demo (\<lambda>es s. p_pc s = PScan 2 \<and> inq (p_net s) 4 = [] \<and> inq (p_net s) 5 = ''you''
     \<and> concat (map (answer 4) es) = ''ME''
     \<and> list_all (\<lambda>e. case e of Unsent f d \<Rightarrow> False | _ \<Rightarrow> True) es)"
  by code_simp+


lemma ps_setup_inv:
  assumes "poll_setup f b stack = Some s" "0 \<le> f" "length stack = CLIENT_COUNT"
  shows "ps_inv s \<and> p_held g s = []"
proof -
  let ?c = "(map (\<lambda>x. x\<lparr>pfd := -1\<rparr>) stack)[0 := (map (\<lambda>x. x\<lparr>pfd := -1\<rparr>) stack ! 0)\<lparr>pfd := f, events := POLLIN\<rparr>]"
  have s: "s = \<lparr>p_open = (\<lambda>g. g = f), p_net = no_streams, p_serverfd = f, client = ?c,
      maxindex = 0, retfd = 0, p_pc = PPoll\<rparr>"
    using assms(1) by (auto simp: poll_setup_def Let_def split: if_splits)
  have "slot_ok s k" if "1 \<le> k" "k < CLIENT_COUNT" for k
    using that assms(3) by (simp add: slot_ok_def s)
  then show ?thesis using assms(2,3)
    by (simp add: ps_inv_def base_ok_def phase_at_def p_held_def p_writing_def s no_streams_def)
qed

section \<open>Properties\<close>



text \<open>But a client can be lost: when a client sits in a slot beyond the largest index that
  the program keeps (which an arrival into a lower slot reduces) it is not served in any
  continuation without a further arrival: no answer ever leaves for it, and what it sends
  piles up.\<close>

theorem poll_strands:
  assumes "poll_setup f b stack = Some s0" and "0 \<le> f" and "length stack = CLIENT_COUNT"
    and "runs pserver_step s0 es s" and "p_pc s = PPoll" and "maxindex s < k" and "k < CLIENT_COUNT"
    and "pfd (client s ! k) = g" and "g \<noteq> -1"
    and "runs pserver_step s es' t" and "list_all (\<lambda>e. \<not> accepting e) es'"
  shows "concat (map (answer g) es') = []
    \<and> map toupper (inq (p_net t) g) = map toupper (inq (p_net s) g) @ concat (map (due g) es')
    \<and> pfd (client t ! k) = g \<and> maxindex t < k"
proof -
  have inv: "ps_inv s" using ps.run_preserves [OF assms(4)] ps_setup_inv [OF assms(1-3)] by blast
  have "phase_at s (maxindex s)" using assms(5) by (simp add: phase_at_def)
  then have "left_out k g s" using assms inv by (auto simp: left_out_def ps_inv_def p_writing_def)
  then have lo: "left_out k g t" "concat (map (answer g) es') = []"
    using left_out_runs [OF assms(10)] assms(11) by blast+
  moreover have "concat (map (answer g) es') @ map toupper (inq (p_net t) g)
      = map toupper (inq (p_net s) g) @ concat (map (due g) es')"
    using ps.run_conserves [OF assms(10) inv, of g] lo(1) assms(5)
    by (simp add: p_held_def left_out_def)
  then have "map toupper (inq (p_net t) g) = map toupper (inq (p_net s) g) @ concat (map (due g) es')"
    unfolding lo(2) by simp
  ultimately show ?thesis by (simp add: left_out_def)
qed

theorem poll_strands_witness:
  "\<exists>s0 es s t. poll_setup 3 0 p_stack = Some s0 \<and> runs pserver_step s0 es s \<and> p_pc s = PPoll
     \<and> runs pserver_step s [Arrived 5 ''?''] t \<and> map toupper (inq (p_net t) 5) = map toupper ''hi?''"
proof -
  have l: "(0::int) \<le> 3" "length p_stack = CLIENT_COUNT" "2 < CLIENT_COUNT" "(5::int) \<noteq> -1"
    "list_all (\<lambda>e. \<not> accepting e) [Arrived 5 ''?'']"
    by (simp_all add: p_stack_def CLIENT_COUNT_def accepting_def)
  obtain s0 es s where r: "poll_setup 3 0 p_stack = Some s0" "runs pserver_step s0 es s"
    and q: "p_pc s = PPoll" "maxindex s = 1" "pfd (client s ! 2) = 5" "inq (p_net s) 5 = ''hi''"
    and o: "p_open s 5" "p_serverfd s \<noteq> 5" "\<not> eof (p_net s) 5"
    using p_outcome_runs [OF p_runs_outcome(1)] by blast
  have m: "maxindex s < 2" using q by simp
  have "net_env (p_serverfd s) (p_open s) (p_net s) (Arrived 5 ''?'') (arrive 5 ''?'' (p_net s))"
    using o by (intro ne_arrive) simp_all
  from pserver_step.clients [OF this] runs.refl have "runs pserver_step s [Arrived 5 ''?'']
    (s\<lparr>p_net := arrive 5 ''?'' (p_net s)\<rparr>)" by (rule runs_Cons)
  then obtain t where t: "runs pserver_step s [Arrived 5 ''?''] t" by blast
  from poll_strands [OF r(1) l(1,2) r(2) q(1) m l(3) q(3) l(4) t l(5)]
  have "map toupper (inq (p_net t) 5) = map toupper ''hi?''" by (simp add: q(4))
  then show ?thesis using r q(1) t by blast
qed

end
