(* ===== verification/SelectServer.thy ===== *)
theory SelectServer
  imports Sockets
begin

text \<open>
  The server of \<open>select/server.c\<close>. Its one set of descriptors is both what it asks
  \<open>select\<close> about and where \<open>select\<close> answers. What \<open>select\<close> does to the bits of the set from
  \<open>nfds\<close> on is not specified: \<open>kept nfds f\<close> says whether the bit of \<open>f\<close> stays as it was; otherwise
  it is cleared.
\<close>

section \<open>State\<close>

definition S_CLIENTS :: nat where "S_CLIENTS = 100"

definition FD_SETSIZE :: int where "FD_SETSIZE = 1024"

text \<open>Where the loop is; \<open>SWrite\<close> is a \<open>write\<close> to a client that has not returned, with the index the
  loop goes on at, and \<open>SFault\<close> a store outside the set.\<close>

datatype sel_pc = SSelect | SListener | SScan nat | SWrite nat fd string | SExit | SFault

record sserver =
  s_open :: "fd \<Rightarrow> bool"
  s_net :: streams
  s_serverfd :: fd
  reset :: "fd \<Rightarrow> bool"
  maxfd :: int
  s_client :: "fd list"
  s_retfd :: int
  s_pc :: sel_pc

record sio =
  s_accept :: fd
  s_read_fails :: bool
  s_write :: write_result

text \<open>The set-up. A socket takes the lowest free descriptor, so those below it are in use.\<close>

definition select_setup :: "fd \<Rightarrow> int \<Rightarrow> sserver option" where
  "select_setup sockfd bind_result =
     (if sockfd = -1 \<or> bind_result < 0 then None
      else Some \<lparr>s_open = (\<lambda>f. 0 \<le> f \<and> f \<le> sockfd), s_net = no_streams, s_serverfd = sockfd,
        reset = (\<lambda>f. f = sockfd), maxfd = sockfd + 1, s_client = replicate S_CLIENTS (-1),
        s_retfd = 0, s_pc = SSelect\<rparr>)"

section \<open>The call of select\<close>

definition s_readable :: "sserver \<Rightarrow> fd \<Rightarrow> bool" where
  "s_readable s f = (if f = s_serverfd s then 0 < backlog (s_net s) else has_input (s_net s) f)"

definition selected :: "sserver \<Rightarrow> fd \<Rightarrow> bool" where
  "selected s f \<longleftrightarrow> 0 \<le> f \<and> f < maxfd s \<and> reset s f \<and> s_readable s f"

definition select_count :: "sserver \<Rightarrow> int" where
  "select_count s = count_if (selected s) [0..maxfd s - 1]"

definition select_call :: "(int \<Rightarrow> fd \<Rightarrow> bool) \<Rightarrow> bool \<Rightarrow> sserver \<Rightarrow> (net_ev \<times> sserver) option" where
  "select_call kept fails s =
     (if fails then Some (Quiet, s\<lparr>s_pc := SExit\<rparr>)
      else if select_count s = 0 then None
      else Some (Quiet, s\<lparr>reset := (\<lambda>f. selected s f \<or> maxfd s \<le> f \<and> reset s f \<and> kept (maxfd s) f),
             s_retfd := select_count s, s_pc := SListener\<rparr>))"

section \<open>The listening socket\<close>

definition FD_SET :: "fd \<Rightarrow> sserver \<Rightarrow> sserver" where
  "FD_SET f s = (if FD_SETSIZE \<le> f then s\<lparr>s_pc := SFault\<rparr> else s\<lparr>reset := (reset s)(f := True)\<rparr>)"

definition FD_CLR :: "fd \<Rightarrow> sserver \<Rightarrow> sserver" where
  "FD_CLR f s = s\<lparr>reset := (reset s)(f := False)\<rparr>"

definition s_keep_client :: "fd \<Rightarrow> sserver \<Rightarrow> sserver" where
  "s_keep_client confd s =
     (case List.find (\<lambda>i. s_client s ! i = -1) [0..<S_CLIENTS] of
        None \<Rightarrow> s
      | Some i \<Rightarrow> s\<lparr>s_client := (s_client s)[i := confd]\<rparr>)"

definition s_count_down :: "nat \<Rightarrow> sserver \<Rightarrow> sserver" where
  "s_count_down i s =
     (if s_pc s = SFault then s
      else s\<lparr>s_retfd := s_retfd s - 1, s_pc := (if s_retfd s - 1 = 0 then SSelect else SScan i)\<rparr>)"

definition select_listener :: "sio \<Rightarrow> sserver \<Rightarrow> (net_ev \<times> sserver) option" where
  "select_listener r s =
     (if \<not> reset s (s_serverfd s) then Some (Quiet, s\<lparr>s_pc := SScan 0\<rparr>)
      else if backlog (s_net s) = 0 then None
      else if s_accept r < 0 then Some (Quiet, s\<lparr>s_pc := SExit\<rparr>)
      else
        (let confd = s_accept r;
             s = s\<lparr>s_open := (s_open s)(confd := True), s_net := accept_on confd (s_net s)\<rparr>;
             s = s_keep_client confd s;
             s = FD_SET confd s;
             s = (if confd > maxfd s then s\<lparr>maxfd := confd\<rparr> else s)
         in Some (Accepted confd, s_count_down 0 s)))"

section \<open>The clients\<close>

definition select_client :: "sio \<Rightarrow> nat \<Rightarrow> sserver \<Rightarrow> (net_ev \<times> sserver) option" where
  "select_client r i s =
     (if S_CLIENTS \<le> i then Some (Quiet, s\<lparr>s_pc := SSelect\<rparr>)
      else if s_client s ! i = -1 \<or> \<not> reset s (s_client s ! i) then Some (Quiet, s\<lparr>s_pc := SScan (i + 1)\<rparr>)
      else (let f = s_client s ! i
            in case capital_turn 1024 (s_read_fails r) (s_write r) f (s_net s) of
                 None \<Rightarrow> None
               | Some (c, e, n) \<Rightarrow>
                   (let s = s\<lparr>s_net := n\<rparr>
                    in Some (e, case c of
                         Goes_on \<Rightarrow> s_count_down (i + 1) s
                       | Peer_left \<Rightarrow>
                           s_count_down (i + 1)
                             ((FD_CLR f (s\<lparr>s_open := (s_open s)(f := False)\<rparr>))\<lparr>s_client := (s_client s)[i := -1]\<rparr>)
                       | In_write out \<Rightarrow> s\<lparr>s_pc := SWrite (i + 1) f out\<rparr>))))"

text \<open>The \<open>write\<close> that blocked comes to its end.\<close>

definition select_written :: "sio \<Rightarrow> nat \<Rightarrow> fd \<Rightarrow> string \<Rightarrow> sserver \<Rightarrow> (net_ev \<times> sserver) option" where
  "select_written r i f out s = map_option (\<lambda>e. (e, s_count_down i s)) (write_end (s_write r) f out)"

definition select_main :: "(int \<Rightarrow> fd \<Rightarrow> bool) \<Rightarrow> sio \<Rightarrow> bool \<Rightarrow> sserver \<Rightarrow> (net_ev \<times> sserver) option" where
  "select_main kept r fails s =
     (case s_pc s of
        SSelect \<Rightarrow> select_call kept fails s
      | SListener \<Rightarrow> select_listener r s
      | SScan i \<Rightarrow> select_client r i s
      | SWrite i f out \<Rightarrow> select_written r i f out s
      | SExit \<Rightarrow> None
      | SFault \<Rightarrow> None)"

text \<open>\<open>accept\<close> fails or returns the lowest descriptor that is not in use.\<close>

definition s_results :: "sio \<Rightarrow> sserver \<Rightarrow> bool" where
  "s_results r s \<longleftrightarrow> s_accept r = -1 \<or>
     0 \<le> s_accept r \<and> \<not> s_open s (s_accept r) \<and> (\<forall>g. 0 \<le> g \<longrightarrow> g < s_accept r \<longrightarrow> s_open s g)"

inductive sserver_step :: "(int \<Rightarrow> fd \<Rightarrow> bool) \<Rightarrow> sserver \<Rightarrow> net_ev \<Rightarrow> sserver \<Rightarrow> bool" for kept where
  clients: "net_env (s_serverfd s) (s_open s) (s_net s) e n \<Longrightarrow> sserver_step kept s e (s\<lparr>s_net := n\<rparr>)"
| main: "s_results r s \<Longrightarrow> select_main kept r fails s = Some (e, t) \<Longrightarrow> sserver_step kept s e t"

text \<open>What Linux does on a 64-bit machine: it writes whole words back, so that the bits from
  \<open>nfds\<close> to the end of the last word are cleared and later ones are left alone.\<close>

definition linux_kept :: "int \<Rightarrow> fd \<Rightarrow> bool" where
  "linux_kept n f \<longleftrightarrow> 64 * ((n + 63) div 64) \<le> f"

end
