(* ===== verification/SelectServerProps.thy ===== *)
theory SelectServerProps
  imports SelectServer
begin

text \<open>
  Every run of the select server: what it answers is in capitals, a client that is not ready
  when \<open>select\<close> returns is lost, and in practice it never serves anyone.
\<close>

section \<open>Flow\<close>

text \<open>The bytes in a \<open>write\<close>, and all that came for \<open>g\<close> and has not been through \<open>write\<close>.\<close>

definition s_writing :: "sserver \<Rightarrow> (fd \<times> string) option" where
  "s_writing s = (case s_pc s of SWrite i f out \<Rightarrow> Some (f, out) | _ \<Rightarrow> None)"

definition s_held :: "fd \<Rightarrow> sserver \<Rightarrow> string" where
  "s_held g s = in_write g (s_writing s) @ map toupper (inq (s_net s) g)"

definition ss_inv :: "sserver \<Rightarrow> bool" where
  "ss_inv s \<longleftrightarrow> (\<forall>f. \<not> s_open s f \<longrightarrow> inq (s_net s) f = [])"

lemma set_frame [simp]:
  "s_open (FD_SET f s) = s_open s" "s_net (FD_SET f s) = s_net s" "s_serverfd (FD_SET f s) = s_serverfd s"
  "s_client (FD_SET f s) = s_client s" "maxfd (FD_SET f s) = maxfd s" "s_retfd (FD_SET f s) = s_retfd s"
  "s_open (FD_CLR f s) = s_open s" "s_net (FD_CLR f s) = s_net s" "s_serverfd (FD_CLR f s) = s_serverfd s"
  "maxfd (FD_CLR f s) = maxfd s" "s_retfd (FD_CLR f s) = s_retfd s" "s_pc (FD_CLR f s) = s_pc s"
  "s_client (FD_CLR f s) = s_client s" "reset (FD_CLR f s) = (reset s)(f := False)"
  by (simp_all add: FD_SET_def FD_CLR_def)

lemma keep_frame [simp]:
  "s_open (s_keep_client f s) = s_open s" "s_net (s_keep_client f s) = s_net s"
  "s_serverfd (s_keep_client f s) = s_serverfd s" "maxfd (s_keep_client f s) = maxfd s"
  "s_retfd (s_keep_client f s) = s_retfd s" "s_pc (s_keep_client f s) = s_pc s"
  "reset (s_keep_client f s) = reset s"
  by (simp_all add: s_keep_client_def split: option.splits)

lemma FD_SET_pc: "s_pc (FD_SET f s) = SFault \<or> s_pc (FD_SET f s) = s_pc s"
  by (simp add: FD_SET_def)

lemma down_writing:
  "s_writing (s_count_down i s) = None"
  by (auto simp: s_count_down_def s_writing_def)

lemma s_writing_pc: "s_pc s \<in> {SSelect, SListener, SExit, SFault} \<Longrightarrow> s_writing s = None"
  "s_pc s = SScan i \<Longrightarrow> s_writing s = None" "s_writing (s\<lparr>s_net := n\<rparr>) = s_writing s"
  "s_pc s = SWrite i f out \<Longrightarrow> s_writing s = Some (f, out)"
  by (auto simp: s_writing_def)

lemma down_frame [simp]:
  "s_open (s_count_down i s) = s_open s" "s_net (s_count_down i s) = s_net s"
  "s_serverfd (s_count_down i s) = s_serverfd s" "maxfd (s_count_down i s) = maxfd s"
  "reset (s_count_down i s) = reset s"
  by (simp_all add: s_count_down_def)

text \<open>The five ways a step of the program can go.\<close>

lemma main_cases:
  assumes "select_main kept r fails s = Some (e, t)"
  obtains (quiet) c where "e = Quiet" "t = s\<lparr>s_pc := c\<rparr>" "s_writing s = None" "s_writing t = None"
    | (written) i f out where "s_pc s = SWrite i f out" "t = s_count_down i s" "write_end (s_write r) f out = Some e"
    | (selected) "e = Quiet" "s_pc s = SSelect" "select_call kept False s = Some (e, t)"
      "s_open t = s_open s" "s_net t = s_net s" "s_serverfd t = s_serverfd s"
      "\<And>f. reset t f \<Longrightarrow> reset s f \<and> (f < maxfd s \<longrightarrow> selected s f)" "s_writing t = None"
    | (accepted) f where "f = s_accept r" "0 \<le> f" "e = Accepted f" "s_pc s = SListener" "s_open t = (s_open s)(f := True)"
      "s_net t = accept_on f (s_net s)" "s_serverfd t = s_serverfd s" "\<And>g. g \<noteq> f \<Longrightarrow> reset t g \<Longrightarrow> reset s g" "s_writing t = None"
    | (served) i c n f where "f = s_client s ! i" "s_pc s = SScan i" "reset s f"
      "capital_turn 1024 (s_read_fails r) (s_write r) f (s_net s) = Some (c, e, n)"
      "s_open t = (if c = Peer_left then (s_open s)(f := False) else s_open s)" "s_net t = n" "s_serverfd t = s_serverfd s"
      "\<And>g. reset t g \<Longrightarrow> reset s g" "s_writing t = left_writing f c"
proof (cases "s_pc s")
  case SSelect
  then have c: "select_call kept fails s = Some (e, t)" using assms by (simp add: select_main_def)
  show ?thesis
  proof (cases fails)
    case True
    then show ?thesis using c SSelect quiet by (auto simp: select_call_def s_writing_def)
  next
    case False
    then show ?thesis using c SSelect
      by (intro selected) (auto simp: select_call_def selected_def s_writing_def split: if_splits)
  qed
next
  case SListener
  then have c: "select_listener r s = Some (e, t)" using assms by (simp add: select_main_def)
  show ?thesis
  proof (cases "reset s (s_serverfd s) \<and> backlog (s_net s) \<noteq> 0 \<and> 0 \<le> s_accept r")
    case True
    let ?f = "s_accept r"
    have t: "e = Accepted ?f" "t = s_count_down 0 (let s = FD_SET ?f (s_keep_client ?f
        (s\<lparr>s_open := (s_open s)(?f := True), s_net := accept_on ?f (s_net s)\<rparr>))
        in if ?f > maxfd s then s\<lparr>maxfd := ?f\<rparr> else s)"
      using c True by (auto simp: select_listener_def Let_def)
    have "reset t g \<Longrightarrow> reset s g" if "g \<noteq> ?f" for g
      using that by (auto simp: t Let_def FD_SET_def split: if_splits)
    then show ?thesis using True SListener
      by (intro accepted [of ?f]) (simp_all add: t Let_def down_writing)
  next
    case False
    then show ?thesis using c SListener quiet
      by (auto simp: select_listener_def s_writing_def split: if_splits)
  qed
next
  case (SScan i)
  then have c: "select_client r i s = Some (e, t)" using assms by (simp add: select_main_def)
  show ?thesis
  proof (cases "S_CLIENTS \<le> i \<or> s_client s ! i = -1 \<or> \<not> reset s (s_client s ! i)")
    case True
    then show ?thesis using c SScan quiet by (auto simp: select_client_def s_writing_def split: if_splits)
  next
    case False
    let ?f = "s_client s ! i"
    obtain d n where turn: "capital_turn 1024 (s_read_fails r) (s_write r) ?f (s_net s) = Some (d, e, n)"
      and t: "t = (case d of
           Goes_on \<Rightarrow> s_count_down (Suc i) (s\<lparr>s_net := n\<rparr>)
         | Peer_left \<Rightarrow> s_count_down (Suc i)
             ((FD_CLR ?f (s\<lparr>s_net := n, s_open := (s_open s)(?f := False)\<rparr>))\<lparr>s_client := (s_client s)[i := -1]\<rparr>)
         | In_write out \<Rightarrow> s\<lparr>s_net := n, s_pc := SWrite (Suc i) ?f out\<rparr>)"
      using c False by (auto simp: select_client_def Let_def split: option.splits prod.splits cong: turn.case_cong)
    have "reset t g \<Longrightarrow> reset s g" for g by (cases d) (auto simp: t split: if_splits)
    moreover have "s_writing t = left_writing ?f d"
      by (cases d) (simp_all add: t down_writing, simp add: s_writing_def)
    moreover have "s_open t = (if d = Peer_left then (s_open s)(?f := False) else s_open s)"
      "s_net t = n" "s_serverfd t = s_serverfd s"
      by (cases d; simp add: t)+
    ultimately show ?thesis using False SScan turn by (intro served [of ?f i d n]) simp_all
  qed
next
  case (SWrite i f out)
  then show ?thesis using assms by (intro written [of i f out]) (auto simp: select_main_def select_written_def)
qed (use assms in \<open>simp_all add: select_main_def\<close>)

lemma ss_step:
  assumes inv: "ss_inv s" and step: "sserver_step kept s e t"
  shows "ss_inv t \<and> answer g e @ s_held g t = s_held g s @ due g e"
  using step
proof cases
  case (clients n)
  have "answer g e = []" using clients(2) by cases simp_all
  then show ?thesis
    using inv net_env_frame(3) [OF clients(2)] net_env_frame(4) [OF clients(2), of g] clients(1)
    by (auto simp: ss_inv_def s_held_def s_writing_pc(3))
next
  case (main r fails)
  from main(2) show ?thesis
  proof (cases rule: main_cases)
    case (accepted f)
    then have "inq (s_net s) f = []" using main(1) inv by (auto simp: s_results_def ss_inv_def)
    then have "inq (accept_on f (s_net s)) h = inq (s_net s) h" for h by (simp add: accept_on_def)
    then show ?thesis using inv accepted s_writing_pc(1) [of s] by (auto simp: ss_inv_def s_held_def)
  next
    case (served i c n f)
    note d = capital_turnD [OF served(4), simplified]
    have "inq n h = []" if "\<not> s_open t h" for h
      using that d inv served(5) by (cases "h = f"; cases "c = Peer_left") (auto simp: ss_inv_def)
    then show ?thesis using d s_writing_pc(2) [OF served(2)]
      by (simp add: ss_inv_def s_held_def served(6,9))
  next
    case (written i f out)
    then show ?thesis
      using inv write_end_event(1) [OF written(3), of g] s_writing_pc(4) [OF written(1)]
      by (simp add: ss_inv_def s_held_def down_writing)
  next
    case selected
    then show ?thesis using inv s_writing_pc(1) [of s] by (simp add: ss_inv_def s_held_def)
  next
    case (quiet c)
    then show ?thesis using inv by (simp add: ss_inv_def s_held_def)
  qed
qed

interpretation ss: conserving_system "sserver_step kept" ss_inv "due g" "answer g" "s_held g" for kept g
  by unfold_locales (use ss_step in blast)+

section \<open>A client whose bit is gone\<close>

definition dropped :: "fd \<Rightarrow> sserver \<Rightarrow> bool" where
  "dropped f s \<longleftrightarrow> s_open s f \<and> f \<noteq> s_serverfd s \<and> \<not> reset s f \<and> in_write f (s_writing s) = []"

lemma dropped_step:
  assumes d: "dropped f s" and step: "sserver_step kept s e t"
  shows "dropped f t \<and> answer f e = []"
  using step
proof cases
  case (clients n)
  from clients(2) show ?thesis by cases (use d clients(1) in \<open>simp_all add: dropped_def s_writing_pc(3)\<close>)
next
  case (main r fails)
  from main(2) show ?thesis
  proof (cases rule: main_cases)
    case (accepted g)
    then have "g \<noteq> f" using main(1) d by (auto simp: s_results_def dropped_def)
    then show ?thesis using d accepted by (auto simp: dropped_def)
  next
    case (served i c n g)
    then have "f \<noteq> g" using d by (auto simp: dropped_def)
    then show ?thesis using d served turn_others [OF served(4)] by (cases c) (auto simp: dropped_def)
  next
    case (written i g out)
    then show ?thesis
      using d write_end_event(1) [OF written(3), of f] s_writing_pc(4) [OF written(1)]
      by (simp add: dropped_def down_writing)
  qed (use d in \<open>auto simp: dropped_def\<close>)
qed

lemma dropped_runs:
  "runs (sserver_step kept) s es t \<Longrightarrow> dropped f s \<Longrightarrow> dropped f t \<and> concat (map (answer f) es) = []"
proof (induction rule: runs.induct)
  case (snoc s es t e u)
  then show ?case using dropped_step [of f t kept e u] by simp
qed simp

section \<open>Lowest descriptors and whole words\<close>

text \<open>The descriptors in use are those up to \<open>n\<close>, and \<open>select\<close> looks below the last one.\<close>

definition unheard :: "int \<Rightarrow> sserver \<Rightarrow> bool" where
  "unheard n s \<longleftrightarrow> 0 \<le> s_serverfd s \<and> s_serverfd s \<le> n \<and> s_open s = (\<lambda>f. 0 \<le> f \<and> f \<le> n)
     \<and> maxfd s = max (s_serverfd s + 1) n
     \<and> (\<forall>f. reset s f \<longrightarrow> f = s_serverfd s \<or> (s_pc s \<noteq> SListener \<and> f = n))
     \<and> (s_pc s = SSelect \<or> (s_pc s = SListener \<and> reset s (s_serverfd s) \<and> s_retfd s = 1) \<or> s_pc s = SExit \<or> s_pc s = SFault)"

lemma unheard_writing:
  assumes "unheard n s"
  shows "s_writing s = None"
proof -
  have "s_pc s \<in> {SSelect, SListener, SExit, SFault}" using assms unfolding unheard_def by blast
  then show ?thesis by (rule s_writing_pc(1))
qed

lemma count_one:
  assumes "distinct xs" "\<And>x. P x \<Longrightarrow> x = a"
  shows "count_if P xs = (if P a \<and> a \<in> set xs then 1 else 0)"
  using assms(1)
proof (induction xs)
  case (Cons x xs)
  then have ih: "count_if P xs = (if P a \<and> a \<in> set xs then 1 else 0)" "x \<notin> set xs" by simp_all
  show ?case
  proof (cases "P x")
    case True
    then have "x = a" by (rule assms(2))
    then show ?thesis using ih True by simp
  next
    case False
    then have "x = a \<Longrightarrow> \<not> P a" by simp
    then show ?thesis using ih False by auto
  qed
qed simp

lemma unheard_exit: "unheard n s \<Longrightarrow> unheard n (s\<lparr>s_pc := SExit\<rparr>)"
  unfolding unheard_def by simp blast

lemma unheard_call:
  assumes u: "unheard n s" and n: "n < 64" and pc: "s_pc s = SSelect"
    and c: "select_call linux_kept False s = Some (e, t)"
  shows "unheard n t \<and> s_pc t \<noteq> SSelect"
proof -
  have ne: "select_count s \<noteq> 0" and t: "t = s\<lparr>reset := (\<lambda>f. selected s f \<or> maxfd s \<le> f \<and> reset s f \<and> linux_kept (maxfd s) f),
      s_retfd := select_count s, s_pc := SListener\<rparr>"
    using c by (auto simp: select_call_def split: if_splits)
  have only: "selected s f \<Longrightarrow> f = s_serverfd s" for f
    using u pc by (auto simp: selected_def unheard_def)
  have one: "select_count s = (if selected s (s_serverfd s) \<and> s_serverfd s \<in> set [0..maxfd s - 1] then 1 else 0)"
    unfolding select_count_def by (rule count_one) (use only in simp_all)
  then have cnt: "select_count s = 1" "selected s (s_serverfd s)" using ne by (auto split: if_splits)
  have "1 \<le> maxfd s" using u unfolding unheard_def by linarith
  then have word: "1 \<le> (maxfd s + 63) div 64" by simp
  have low: "f < 64" if "reset s f" for f
  proof -
    have "f = s_serverfd s \<or> f = n" "s_serverfd s \<le> n" using u that unfolding unheard_def by blast+
    then show ?thesis using n by auto
  qed
  have "\<not> linux_kept (maxfd s) f" if "reset s f" for f
    using low [OF that] word unfolding linux_kept_def by linarith
  then have "reset t f \<longleftrightarrow> selected s f" for f by (auto simp: t)
  then have "reset t f \<longleftrightarrow> f = s_serverfd s" for f using only [of f] cnt(2) by auto
  then show ?thesis using u cnt by (simp add: unheard_def t)
qed

lemma unheard_step:
  assumes u: "unheard n s" and n: "n < 64" and step: "sserver_step linux_kept s e t"
  shows "unheard (if accepting e then n + 1 else n) t \<and> \<not> serving e"
  using step
proof cases
  case (clients m)
  from clients(2) show ?thesis
    by cases (use u clients(1) in \<open>simp_all add: unheard_def accepting_def serving_def\<close>)
next
  case (main r fails)
  consider "s_pc s = SSelect" | "s_pc s = SListener" "reset s (s_serverfd s)" "s_retfd s = 1"
    using u main(2) by (auto simp: unheard_def select_main_def)
  then show ?thesis
  proof cases
    case 1
    then have c: "select_call linux_kept fails s = Some (e, t)" using main(2) by (simp add: select_main_def)
    then have "e = Quiet" by (auto simp: select_call_def split: if_splits)
    moreover have "unheard n t"
    proof (cases fails)
      case True
      then have "t = s\<lparr>s_pc := SExit\<rparr>" using c by (simp add: select_call_def)
      then show ?thesis using unheard_exit [OF u] by simp
    next
      case False
      then show ?thesis using unheard_call [OF u n 1] c by simp
    qed
    ultimately show ?thesis by (simp add: accepting_def serving_def)
  next
    case 2
    then have c: "select_listener r s = Some (e, t)" using main(2) by (simp add: select_main_def)
    show ?thesis
    proof (cases "s_accept r < 0")
      case True
      then have "e = Quiet" "t = s\<lparr>s_pc := SExit\<rparr>" using c 2 by (auto simp: select_listener_def split: if_splits)
      then show ?thesis using unheard_exit [OF u] by (simp add: accepting_def serving_def)
    next
      case False
      define f where "f = s_accept r"
      have "f \<noteq> -1" using False by (simp add: f_def)
      then have f: "0 \<le> f" "\<not> s_open s f" "\<And>g. 0 \<le> g \<Longrightarrow> g < f \<Longrightarrow> s_open s g"
        using main(1) unfolding s_results_def f_def by blast+
      have fn: "f = n + 1"
      proof -
        have o: "s_open s = (\<lambda>f. 0 \<le> f \<and> f \<le> n)" "0 \<le> n" using u by (auto simp: unheard_def)
        then have "n < f" using f(1,2) by simp
        moreover have "\<not> n + 1 < f" using f(3) [of "n + 1"] o by fastforce
        ultimately show ?thesis by simp
      qed
      have t: "e = Accepted f" "t = s_count_down 0 (let s = FD_SET f (s_keep_client f
          (s\<lparr>s_open := (s_open s)(f := True), s_net := accept_on f (s_net s)\<rparr>))
          in if f > maxfd s then s\<lparr>maxfd := f\<rparr> else s)"
        using c 2 False by (auto simp: select_listener_def Let_def f_def split: if_splits)
      have small: "\<not> FD_SETSIZE \<le> f" using fn n by (simp add: FD_SETSIZE_def)
      have u4: "0 \<le> s_serverfd s" "s_serverfd s \<le> n" "s_open s = (\<lambda>f. 0 \<le> f \<and> f \<le> n)"
        "maxfd s = max (s_serverfd s + 1) n"
        using u unfolding unheard_def by blast+
      have old: "reset s g \<Longrightarrow> g = s_serverfd s" for g using u 2(1) unfolding unheard_def by blast
      have "s_pc t = SSelect" using 2 small by (simp add: t Let_def FD_SET_def s_count_down_def)
      moreover have "s_open t = (\<lambda>g. 0 \<le> g \<and> g \<le> n + 1)" using u4(1,2) by (auto simp: t Let_def u4(3) fn fun_eq_iff)
      moreover have "maxfd t = max (s_serverfd s + 1) (n + 1)" using u4(1,2) by (simp add: t Let_def u4(4) fn)
      moreover have "s_serverfd t = s_serverfd s" by (simp add: t Let_def)
      moreover have "reset t = (reset s)(f := True)" using small by (simp add: t Let_def FD_SET_def)
      then have "reset t g \<Longrightarrow> g = s_serverfd s \<or> g = n + 1" for g using old [of g] fn by (auto split: if_splits)
      ultimately have "unheard (n + 1) t" using u4(1,2) unfolding unheard_def by simp
      then show ?thesis by (simp add: t(1) accepting_def serving_def)
    qed
  qed
qed

lemma unheard_runs:
  "runs (sserver_step linux_kept) s es t \<Longrightarrow> unheard n s \<Longrightarrow> n + count_if accepting es < 64 \<Longrightarrow>
    unheard (n + count_if accepting es) t \<and> list_all (\<lambda>e. \<not> serving e) es"
proof (induction rule: runs.induct)
  case (snoc s es t e u)
  have less: "n + count_if accepting es < 64" using snoc.prems(2) by (auto split: if_splits)
  then have "unheard (n + count_if accepting es) t" "list_all (\<lambda>e. \<not> serving e) es"
    using snoc.IH snoc.prems(1) by blast+
  then show ?case using unheard_step [OF _ less snoc.hyps(2)] by (auto simp: algebra_simps split: if_splits)
qed simp

section \<open>Runs that are followed step by step\<close>

datatype s_sched = SJoin | SArrive fd string | SStep fd

text \<open>The descriptors below the listening socket, and those of the run, are checked up to 64.\<close>

definition s_fresh :: "fd \<Rightarrow> sserver \<Rightarrow> bool" where
  "s_fresh a s \<longleftrightarrow> 0 \<le> a \<and> \<not> s_open s a \<and> list_all (s_open s) [0..a - 1]"

definition s_follow :: "(int \<Rightarrow> fd \<Rightarrow> bool) \<Rightarrow> s_sched \<Rightarrow> sserver \<Rightarrow> (net_ev \<times> sserver) option" where
  "s_follow kept c s =
     (case c of
        SJoin \<Rightarrow> Some (Joined, s\<lparr>s_net := (s_net s)\<lparr>backlog := backlog (s_net s) + 1\<rparr>\<rparr>)
      | SArrive f d \<Rightarrow>
          if s_open s f \<and> f \<noteq> s_serverfd s \<and> \<not> eof (s_net s) f \<and> d \<noteq> []
          then Some (Arrived f d, s\<lparr>s_net := arrive f d (s_net s)\<rparr>) else None
      | SStep a \<Rightarrow>
          let r = \<lparr>s_accept = a, s_read_fails = False, s_write = Writes\<rparr>
          in if a = -1 \<or> s_fresh a s then select_main kept r False s else None)"

lemma s_follow_step: "s_follow kept c s = Some (e, t) \<Longrightarrow> sserver_step kept s e t"
proof (cases c)
  case (SStep a)
  assume "s_follow kept c s = Some (e, t)"
  then have a: "a = -1 \<or> s_fresh a s" and
    m: "select_main kept \<lparr>s_accept = a, s_read_fails = False, s_write = Writes\<rparr> False s = Some (e, t)"
    using SStep by (auto simp: s_follow_def Let_def split: if_splits)
  have "s_results \<lparr>s_accept = a, s_read_fails = False, s_write = Writes\<rparr> s"
    using a by (auto simp: s_results_def s_fresh_def list_all_iff)
  then show ?thesis using m by (rule sserver_step.main)
next
  case SJoin
  assume "s_follow kept c s = Some (e, t)"
  then show ?thesis using SJoin sserver_step.clients [OF net_env.ne_join] by (auto simp: s_follow_def)
qed (auto simp: s_follow_def split: if_splits intro: sserver_step.clients net_env.intros)

lemma s_follow_runs: "follow (s_follow kept) cs s = Some (es, t) \<Longrightarrow> runs (sserver_step kept) s es t"
  by (rule follow_runs [of "s_follow kept"]) (rule s_follow_step)

definition s_outcome :: "(int \<Rightarrow> fd \<Rightarrow> bool) \<Rightarrow> s_sched list \<Rightarrow> (net_ev list \<Rightarrow> sserver \<Rightarrow> bool) \<Rightarrow> bool" where
  "s_outcome kept cs P \<longleftrightarrow>
     (case select_setup 3 0 of None \<Rightarrow> False
      | Some s0 \<Rightarrow> (case follow (s_follow kept) cs s0 of None \<Rightarrow> False | Some (es, s) \<Rightarrow> P es s))"

lemma s_outcome_runs:
  assumes "s_outcome kept cs P"
  shows "\<exists>s0 es s. select_setup 3 0 = Some s0 \<and> runs (sserver_step kept) s0 es s \<and> P es s"
  using assms s_follow_runs by (fastforce simp: s_outcome_def split: option.splits)

text \<open>Two clients come, both send, and a third comes.\<close>

definition s_demo :: "s_sched list" where
  "s_demo = [SJoin, SStep (-1), SStep 4, SArrive 4 ''hi'', SJoin, SStep (-1), SStep 5, SArrive 5 ''you'',
     SJoin, SStep (-1), SStep 6]"

text \<open>Whatever becomes of the upper bits, the first client is passed over and then sends.\<close>

definition s_drop :: "s_sched list" where
  "s_drop = [SJoin, SStep (-1), SStep 4, SJoin, SStep (-1), SStep 5, SJoin]"

lemma s_runs_outcome:
  "s_outcome linux_kept s_demo (\<lambda>es s. inq (s_net s) 4 = ''hi'' \<and> inq (s_net s) 5 = ''you''
     \<and> count_if accepting es = 3)"
  "s_outcome (\<lambda>n f. True) s_drop (\<lambda>es s. s_pc s = SSelect \<and> s_open s 4 \<and> 4 \<noteq> s_serverfd s \<and> 4 < maxfd s
     \<and> reset s 4 \<and> \<not> has_input (s_net s) 4 \<and> inq (s_net s) 4 = []
     \<and> (case select_call (\<lambda>n f. True) False s of None \<Rightarrow> False
        | Some (e, t) \<Rightarrow> e = Quiet \<and> s_open t 4 \<and> s_serverfd t \<noteq> 4 \<and> \<not> eof (s_net t) 4))"
  by code_simp+

section \<open>Properties\<close>

text \<open>C31: the select server serves nobody: with the descriptors that a kernel hands out (the
  lowest free ones) and the bits that Linux keeps, no byte is ever read from a client as long
  as the descriptors stay below 64, although it goes on accepting; all that clients send
  piles up. The reasons are that \<open>select\<close> overwrites the set it is asked about and that the
  bound passed to it is the last descriptor instead of one more.\<close>

theorem select_serves_nobody:
  assumes "select_setup f b = Some s0" and "0 \<le> f" and "runs (sserver_step linux_kept) s0 es s"
    and "f + count_if accepting es < 64"
  shows "list_all (\<lambda>e. \<not> serving e) es \<and> map toupper (inq (s_net s) g) = concat (map (due g) es)"
proof -
  have s0: "s0 = \<lparr>s_open = (\<lambda>g. 0 \<le> g \<and> g \<le> f), s_net = no_streams, s_serverfd = f,
      reset = (\<lambda>g. g = f), maxfd = f + 1, s_client = replicate S_CLIENTS (-1), s_retfd = 0, s_pc = SSelect\<rparr>"
    using assms(1) by (auto simp: select_setup_def split: if_splits)
  have "unheard f s0" using assms(2) by (simp add: unheard_def s0)
  then have l: "list_all (\<lambda>e. \<not> serving e) es" using unheard_runs [OF assms(3) _ assms(4)] by blast
  have none: "concat (map (answer g) es) = []"
    using l by (induction es) (auto simp: serving_def split: net_ev.splits)
  have i: "ss_inv s0" "inq (s_net s0) g = []" by (simp_all add: ss_inv_def s0 no_streams_def)
  have "s_writing s = None"
    by (rule unheard_writing) (use unheard_runs [OF assms(3) \<open>unheard f s0\<close> assms(4)] in blast)
  moreover have "s_held g s0 = []" using i(2) by (simp add: s_held_def s_writing_def s0)
  ultimately have "map toupper (inq (s_net s) g) = concat (map (due g) es)"
    using ss.run_conserves [OF assms(3) i(1), of g] unfolding none by (simp add: s_held_def)
  with l show ?thesis by blast
qed

theorem select_serves_nobody_witness:
  "\<exists>s0 es s. select_setup 3 0 = Some s0 \<and> runs (sserver_step linux_kept) s0 es s
     \<and> inq (s_net s) 4 = ''hi'' \<and> list_all (\<lambda>e. \<not> serving e) es"
proof -
  obtain s0 es s where r: "select_setup 3 0 = Some s0" "runs (sserver_step linux_kept) s0 es s"
    and q: "inq (s_net s) 4 = ''hi''" "count_if accepting es = 3"
    using s_outcome_runs [OF s_runs_outcome(1)] by blast
  have "list_all (\<lambda>e. \<not> serving e) es" using select_serves_nobody [OF r(1) _ r(2)] q(2) by simp
  then show ?thesis using r q by blast
qed

text \<open>Whatever the kernel does with the other bits and whatever descriptors it hands out, a
  client that has nothing to read at one return of a \<open>select\<close> that looked at it is never
  served again: no answer leaves for it in any continuation, and what it sends piles up.\<close>

theorem select_drops:
  assumes "select_setup f b = Some s0" and "runs (sserver_step kept) s0 es s"
    and "s_open s g" and "g \<noteq> s_serverfd s" and "g < maxfd s" and "\<not> has_input (s_net s) g"
    and "select_call kept False s = Some (e, t)" and "runs (sserver_step kept) t es' u"
  shows "concat (map (answer g) es') = [] \<and> map toupper (inq (s_net u) g) = concat (map (due g) es')"
proof -
  have "ss_inv s0" using assms(1) by (auto simp: select_setup_def ss_inv_def no_streams_def split: if_splits)
  then have i: "ss_inv s" by (rule ss.run_preserves [OF assms(2)])
  have t: "s_open t = s_open s" "s_serverfd t = s_serverfd s" "s_net t = s_net s" "\<not> reset t g" "s_writing t = None"
    using assms(4-7) by (auto simp: select_call_def selected_def s_readable_def s_writing_def split: if_splits)
  then have "dropped g t" "ss_inv t" using assms(3,4) i by (simp_all add: dropped_def ss_inv_def)
  then have d: "concat (map (answer g) es') = []" and "dropped g u"
    and "concat (map (answer g) es') @ s_held g u = s_held g t @ concat (map (due g) es')"
    using dropped_runs [OF assms(8)] ss.run_conserves [OF assms(8)] by blast+
  then have "concat (map (answer g) es') @ map toupper (inq (s_net u) g) = map toupper (inq (s_net t) g) @ concat (map (due g) es')"
    using t(5) by (simp add: s_held_def dropped_def)
  moreover have q: "inq (s_net t) g = []" using assms(6) t(3) by (simp add: has_input_def)
  ultimately have "map toupper (inq (s_net u) g) = concat (map (due g) es')" unfolding d q by simp
  with d show ?thesis by blast
qed

theorem select_drops_witness:
  "\<exists>s0 es s e t u. select_setup 3 0 = Some s0 \<and> runs (sserver_step (\<lambda>n f. True)) s0 es s
     \<and> reset s 4 \<and> select_call (\<lambda>n f. True) False s = Some (e, t)
     \<and> runs (sserver_step (\<lambda>n f. True)) t [Arrived 4 ''hi''] u \<and> map toupper (inq (s_net u) 4) = map toupper ''hi''"
proof -
  obtain s0 es s where r: "select_setup 3 0 = Some s0" "runs (sserver_step (\<lambda>n f. True)) s0 es s"
    and q: "s_open s 4" "4 \<noteq> s_serverfd s" "4 < maxfd s" "\<not> has_input (s_net s) 4" "reset s 4"
    and c: "case select_call (\<lambda>n f. True) False s of None \<Rightarrow> False
        | Some (e, t) \<Rightarrow> e = Quiet \<and> s_open t 4 \<and> s_serverfd t \<noteq> 4 \<and> \<not> eof (s_net t) 4"
    using s_outcome_runs [OF s_runs_outcome(2)] by blast
  then obtain e t where t: "select_call (\<lambda>n f. True) False s = Some (e, t)"
    and o: "s_open t 4" "s_serverfd t \<noteq> 4" "\<not> eof (s_net t) 4"
    by (auto split: option.splits prod.splits)
  have "net_env (s_serverfd t) (s_open t) (s_net t) (Arrived 4 ''hi'') (arrive 4 ''hi'' (s_net t))"
    using o by (intro ne_arrive) simp_all
  from sserver_step.clients [OF this] runs.refl
  have u: "runs (sserver_step (\<lambda>n f. True)) t [Arrived 4 ''hi''] (t\<lparr>s_net := arrive 4 ''hi'' (s_net t)\<rparr>)"
    by (rule runs_Cons)
  from select_drops [OF r q(1-4) t u]
  have "map toupper (inq (s_net (t\<lparr>s_net := arrive 4 ''hi'' (s_net t)\<rparr>)) 4) = map toupper ''hi''" by simp
  then show ?thesis using r q(5) t u by blast
qed

end
