(* ===== verification/Reactor.thy ===== *)
theory Reactor
  imports Epoll
begin

text \<open>
  The reactor of \<open>epoll/reactor\<close> (\<open>server.h\<close>, \<open>server.c\<close>, \<open>main.c\<close>): a table of events with
  callbacks that answer in capitals. Every failing call ends the program; \<open>None\<close> is a store
  outside an array or a call through a null pointer.
\<close>

section \<open>The table\<close>

definition MAX_EVENTS :: nat where "MAX_EVENTS = 1024"
definition BUFSIZE :: nat where "BUFSIZE = 4096"

datatype handler = Acceptconnect | Recvdata | Senddata

text \<open>The field \<open>arg\<close> is never stored: \<open>event_set\<close> ignores its last argument.\<close>

record my_event =
  e_fd :: fd
  event :: mask
  call_back :: "handler option"
  status :: int
  buf :: "nat \<Rightarrow> char"
  datalen :: int
  last_active :: int

record reactor =
  r_kern :: "nat kernel"
  events :: "nat \<Rightarrow> my_event"
  r_pending :: "(fd \<times> mask \<times> nat) list"
  r_running :: bool

text \<open>What the calls of one callback return: \<open>accept\<close>, \<open>fcntl\<close>, \<open>recv\<close> and \<open>send\<close> (\<open>None\<close> for -1)
  and \<open>time\<close>.\<close>

record rio =
  x_accept :: fd
  x_fcntl :: int
  x_recv :: "string option"
  x_send :: "nat option"
  x_time :: int

datatype r_event = RJoined fd | RGot fd string | RSent fd string | RLeft fd

definition exit_1 :: "reactor \<Rightarrow> reactor" where
  "exit_1 s = s\<lparr>r_running := False\<rparr>"

definition put :: "nat \<Rightarrow> my_event \<Rightarrow> reactor \<Rightarrow> reactor" where
  "put i ev s = s\<lparr>events := (events s)(i := ev)\<rparr>"

section \<open>The operations\<close>

definition event_set :: "nat \<Rightarrow> fd \<Rightarrow> mask \<Rightarrow> handler \<Rightarrow> int \<Rightarrow> reactor \<Rightarrow> reactor" where
  "event_set i f m cb now s =
     (let ev = (events s i)\<lparr>e_fd := f, event := m, call_back := Some cb, status := 0\<rparr>;
          ev = (if datalen ev \<le> 0 then ev\<lparr>buf := (\<lambda>_. char_of (0::nat)), datalen := 0\<rparr> else ev)
      in put i (ev\<lparr>last_active := now\<rparr>) s)"

definition event_add :: "nat \<Rightarrow> reactor \<Rightarrow> reactor" where
  "event_add i s =
     (let ev = events s i
      in case epoll_ctl (if status ev = 0 then EPOLL_CTL_ADD else EPOLL_CTL_MOD) (e_fd ev) (event ev) i (r_kern s) of
           (ok, k) \<Rightarrow> if ok then (put i (ev\<lparr>status := 1\<rparr>) s)\<lparr>r_kern := k\<rparr> else exit_1 s)"

definition event_del :: "nat \<Rightarrow> reactor \<Rightarrow> reactor" where
  "event_del i s =
     (if status (events s i) = 1
      then s\<lparr>r_kern := snd (epoll_ctl EPOLL_CTL_DEL (e_fd (events s i)) 0 0 (r_kern s))\<rparr> else s)"

definition senddata :: "nat \<Rightarrow> rio \<Rightarrow> reactor \<Rightarrow> r_event list \<times> reactor" where
  "senddata i r s =
     (let ev = events s i
      in case x_send r of
           None \<Rightarrow> ([], exit_1 s)
         | Some n \<Rightarrow>
             ([RSent (e_fd ev) (bytes (min n (nat (datalen ev))) (buf ev))],
              event_add i (event_set i (e_fd ev) EPOLLIN Recvdata (x_time r) (event_del i s))))"

definition recvdata :: "nat \<Rightarrow> rio \<Rightarrow> reactor \<Rightarrow> (r_event list \<times> reactor) option" where
  "recvdata i r s =
     (let ev = events s i
      in case x_recv r of
           None \<Rightarrow> Some ([], exit_1 s)
         | Some d \<Rightarrow>
             (let s = (if d = [] then s\<lparr>r_kern := close_fd (e_fd ev) (r_kern s)\<rparr> else s);
                  b = store_bytes (map toupper d) (buf ev)
              in if BUFSIZE \<le> length d then None
                 else (let s = put i (ev\<lparr>buf := b(length d := char_of (0::nat)), datalen := int (length d)\<rparr>) s
                       in Some (if d = [] then [RLeft (e_fd ev)] else [RGot (e_fd ev) d],
                            event_add i (event_set i (e_fd ev) EPOLLOUT Senddata (x_time r) (event_del i s))))))"

text \<open>The first entry that is not registered, from \<open>i\<close> on.\<close>

function free_from :: "(nat \<Rightarrow> my_event) \<Rightarrow> nat \<Rightarrow> nat" where
  "free_from g i = (if MAX_EVENTS \<le> i then i else if status (g i) = 0 then i else free_from g (Suc i))"
  by pat_completeness auto
termination by (relation "measure (\<lambda>(g, i). MAX_EVENTS - i)") auto

declare free_from.simps [simp del]

definition free_event :: "(nat \<Rightarrow> my_event) \<Rightarrow> nat option" where
  "free_event g = (let i = free_from g 0 in if i = MAX_EVENTS then None else Some i)"

definition acceptconnect :: "rio \<Rightarrow> reactor \<Rightarrow> r_event list \<times> reactor" where
  "acceptconnect r s =
     (let confd = x_accept r
      in if confd = -1 then ([], exit_1 s)        \<comment> \<open>\<open>fcntl\<close> fails on -1\<close>
         else
           (let s = s\<lparr>r_kern := open_fd confd (r_kern s)\<rparr>
            in if x_fcntl r < 0 then ([], exit_1 s)
               else case free_event (events s) of
                   None \<Rightarrow> ([], exit_1 s)
                 | Some i \<Rightarrow> ([RJoined confd],
                     event_add i (event_set i confd (EPOLLIN OR EPOLLET) Recvdata (x_time r) s))))"

definition call_handler :: "nat \<Rightarrow> rio \<Rightarrow> reactor \<Rightarrow> (r_event list \<times> reactor) option" where
  "call_handler i r s =
     (case call_back (events s i) of
        None \<Rightarrow> None
      | Some Acceptconnect \<Rightarrow> Some (acceptconnect r s)
      | Some Recvdata \<Rightarrow> recvdata i r s
      | Some Senddata \<Rightarrow> Some (senddata i r s))"

text \<open>The body of the loop of \<open>main\<close>: two tests, each with its call; after \<open>exit\<close> nothing runs.\<close>

definition serve_ready :: "nat \<Rightarrow> mask \<Rightarrow> rio \<Rightarrow> rio \<Rightarrow> reactor \<Rightarrow> (r_event list \<times> reactor) option" where
  "serve_ready i m r1 r2 s =
     (case (if has m EPOLLIN then call_handler i r1 s else Some ([], s)) of
        None \<Rightarrow> None
      | Some (es1, s1) \<Rightarrow>
          (case (if r_running s1 \<and> has m EPOLLOUT then call_handler i r2 s1 else Some ([], s1)) of
             None \<Rightarrow> None
           | Some (es2, s2) \<Rightarrow> Some (es1 @ es2, s2)))"

section \<open>Start-up\<close>

definition zero_entry :: my_event where
  "zero_entry = \<lparr>e_fd = 0, event = 0, call_back = None, status = 0, buf = (\<lambda>_. char_of (0::nat)),
     datalen = 0, last_active = 0\<rparr>"

definition initserversock :: "fd \<Rightarrow> int \<Rightarrow> int \<Rightarrow> reactor \<Rightarrow> reactor" where
  "initserversock lfd bind_result now s =
     (if lfd < 0 then exit_1 s
      else (let s = s\<lparr>r_kern := open_fd lfd (r_kern s)\<rparr>
            in if bind_result < 0 then exit_1 s
               else event_add MAX_EVENTS (event_set MAX_EVENTS lfd EPOLLIN Acceptconnect now s)))"

definition reactor_start :: "fd \<Rightarrow> int \<Rightarrow> int \<Rightarrow> reactor" where
  "reactor_start lfd bind_result now =
     initserversock lfd bind_result now
       \<lparr>r_kern = no_fds, events = (\<lambda>_. zero_entry), r_pending = [], r_running = True\<rparr>"

text \<open>What the calls can return in a state.\<close>

definition rio_ok :: "rio \<Rightarrow> reactor \<Rightarrow> bool" where
  "rio_ok r s \<longleftrightarrow> (x_accept r = -1 \<or> fresh_fd (x_accept r) (r_kern s))
     \<and> (case x_recv r of None \<Rightarrow> True | Some d \<Rightarrow> length d \<le> BUFSIZE)"

inductive reactor_step :: "reactor \<Rightarrow> r_event list \<Rightarrow> reactor \<Rightarrow> bool" where
  wait: "r_running s \<Longrightarrow> r_pending s = [] \<Longrightarrow> ready_batch (r_kern s) b \<Longrightarrow> length b \<le> MAX_EVENTS + 1 \<Longrightarrow>
    reactor_step s [] (s\<lparr>r_pending := b\<rparr>)"
| wait_fails: "r_running s \<Longrightarrow> r_pending s = [] \<Longrightarrow> reactor_step s [] (exit_1 s)"
| serve: "r_running s \<Longrightarrow> r_pending s = (f, m, i) # rest \<Longrightarrow> rio_ok r1 s \<Longrightarrow> rio_ok r2 s \<Longrightarrow>
    serve_ready i m r1 r2 s = Some (es, t) \<Longrightarrow> reactor_step s es (t\<lparr>r_pending := rest\<rparr>)"

end
