(* ===== verification/ReactorProps.thy ===== *)
theory ReactorProps
  imports Reactor
begin

text \<open>
  Every run of the reactor: per connection it alternates between reading and answering in
  capitals, and it runs only as long as nobody has left.
\<close>

section \<open>The specification of the connections\<close>

datatype client = Listening | Owing string

fun r_spec :: "r_event \<Rightarrow> (fd \<Rightarrow> client option) \<Rightarrow> (fd \<Rightarrow> client option) option" where
  "r_spec (RJoined f) c = (if c f = None then Some (c(f := Some Listening)) else None)"
| "r_spec (RGot f d) c =
     (if c f = Some Listening \<and> d \<noteq> [] then Some (c(f := Some (Owing (map toupper d)))) else None)"
| "r_spec (RSent f e) c =
     (case c f of
        Some (Owing d) \<Rightarrow> if take (length e) d = e then Some (c(f := Some Listening)) else None
      | _ \<Rightarrow> None)"
| "r_spec (RLeft f) c = (if c f = Some Listening then Some (c(f := None)) else None)"

definition client_of :: "my_event \<Rightarrow> client" where
  "client_of ev = (if call_back ev = Some Recvdata then Listening else Owing (bytes (nat (datalen ev)) (buf ev)))"

definition clients :: "reactor \<Rightarrow> fd \<Rightarrow> client option" where
  "clients s f =
     (case interest (r_kern s) f of
        None \<Rightarrow> None
      | Some (m, i) \<Rightarrow> if i = MAX_EVENTS then None else Some (client_of (events s i)))"

section \<open>The invariant\<close>

definition live :: "nat \<Rightarrow> my_event \<Rightarrow> bool" where
  "live i ev \<longleftrightarrow> status ev = 1 \<and>
     (if i = MAX_EVENTS then call_back ev = Some Acceptconnect \<and> event ev = EPOLLIN
      else call_back ev = Some Recvdata \<and> (event ev = EPOLLIN \<or> event ev = EPOLLIN OR EPOLLET)
        \<or> call_back ev = Some Senddata \<and> event ev = EPOLLOUT \<and> 0 < datalen ev)"

definition slot_fine :: "reactor \<Rightarrow> nat \<Rightarrow> bool" where
  "slot_fine s i \<longleftrightarrow> status (events s i) = 0
     \<or> live i (events s i) \<and> interest (r_kern s) (e_fd (events s i)) = Some (event (events s i), i)"

definition watch_fine :: "reactor \<Rightarrow> fd \<Rightarrow> bool" where
  "watch_fine s f \<longleftrightarrow> (case interest (r_kern s) f of None \<Rightarrow> True | Some (m, i) \<Rightarrow>
       i \<le> MAX_EVENTS \<and> status (events s i) = 1 \<and> e_fd (events s i) = f \<and> opened (r_kern s) f)"

definition tidy :: "reactor \<Rightarrow> bool" where
  "tidy s \<longleftrightarrow> (\<forall>i \<le> MAX_EVENTS. slot_fine s i) \<and> (\<forall>f. watch_fine s f)"

definition r_inv :: "reactor \<Rightarrow> bool" where
  "r_inv s \<longleftrightarrow> (r_running s \<longrightarrow> tidy s \<and> distinct (map fst (r_pending s))
     \<and> list_all (ready_entry (r_kern s)) (r_pending s))"

section \<open>Registering an entry\<close>

text \<open>What every callback that succeeds does: entry \<open>i\<close> becomes \<open>ev\<close> and is registered.\<close>

definition assign :: "nat \<Rightarrow> my_event \<Rightarrow> reactor \<Rightarrow> reactor" where
  "assign i ev s = s\<lparr>events := (events s)(i := ev),
     r_kern := \<lparr>opened = (opened (r_kern s))(e_fd ev := True),
       interest = (interest (r_kern s))(e_fd ev \<mapsto> (event ev, i))\<rparr>\<rparr>"

lemma assign_simps [simp]:
  "opened (r_kern (assign i ev s)) = (opened (r_kern s))(e_fd ev := True)"
  "interest (r_kern (assign i ev s)) = (interest (r_kern s))(e_fd ev \<mapsto> (event ev, i))"
  "events (assign i ev s) = (events s)(i := ev)"
  "r_running (assign i ev s) = r_running s" "r_pending (assign i ev s) = r_pending s"
  by (simp_all add: assign_def)

text \<open>An entry may be registered when it was free and its descriptor unwatched, or when it
  keeps its descriptor.\<close>

definition free_for :: "nat \<Rightarrow> fd \<Rightarrow> reactor \<Rightarrow> bool" where
  "free_for i f s \<longleftrightarrow> status (events s i) = 0 \<and> interest (r_kern s) f = None
     \<or> status (events s i) = 1 \<and> e_fd (events s i) = f"

lemma tidyD:
  assumes "tidy s"
  shows "i \<le> MAX_EVENTS \<Longrightarrow> status (events s i) = 1 \<Longrightarrow>
      live i (events s i) \<and> interest (r_kern s) (e_fd (events s i)) = Some (event (events s i), i)"
    and "interest (r_kern s) f = Some (m, i) \<Longrightarrow>
      i \<le> MAX_EVENTS \<and> status (events s i) = 1 \<and> e_fd (events s i) = f \<and> opened (r_kern s) f"
proof -
  show "live i (events s i) \<and> interest (r_kern s) (e_fd (events s i)) = Some (event (events s i), i)"
    if "i \<le> MAX_EVENTS" "status (events s i) = 1"
    using assms that by (auto simp: tidy_def slot_fine_def)
  show "i \<le> MAX_EVENTS \<and> status (events s i) = 1 \<and> e_fd (events s i) = f \<and> opened (r_kern s) f"
    if "interest (r_kern s) f = Some (m, i)"
  proof -
    have "watch_fine s f" using assms by (simp add: tidy_def)
    then show ?thesis using that by (simp add: watch_fine_def)
  qed
qed

text \<open>Another watched descriptor belongs to another entry.\<close>

lemma other_entry:
  assumes "tidy s" "free_for i f s" "g \<noteq> f" "interest (r_kern s) g = Some (m, j)"
  shows "j \<noteq> i"
  using tidyD(2) [OF assms(1,4)] assms(2,3) by (auto simp: free_for_def)

lemma assign_tidy:
  assumes t: "tidy s" and i: "i \<le> MAX_EVENTS" and l: "live i ev" and fr: "free_for i (e_fd ev) s"
  shows "tidy (assign i ev s)"
proof -
  have "slot_fine (assign i ev s) j" if j: "j \<le> MAX_EVENTS" for j
  proof (cases "j = i \<or> status (events s j) = 0")
    case True
    then show ?thesis using l by (auto simp: slot_fine_def)
  next
    case False
    then have "slot_fine s j" using t j by (simp add: tidy_def)
    then have w: "live j (events s j)" "interest (r_kern s) (e_fd (events s j)) = Some (event (events s j), j)"
      using False by (simp_all add: slot_fine_def)
    have "e_fd (events s j) \<noteq> e_fd ev"
    proof
      assume e: "e_fd (events s j) = e_fd ev"
      then have "status (events s i) = 1" "e_fd (events s i) = e_fd ev" using fr w by (auto simp: free_for_def)
      then have "interest (r_kern s) (e_fd ev) = Some (event (events s i), i)" using tidyD(1) [OF t i] by simp
      then show False using w(2) e False by simp
    qed
    then show ?thesis using w False by (simp add: slot_fine_def)
  qed
  moreover have "watch_fine (assign i ev s) g" for g
  proof (cases "g = e_fd ev")
    case True
    then show ?thesis using i l by (simp add: watch_fine_def live_def)
  next
    case False
    then show ?thesis using tidyD(2) [OF t, of g] other_entry [OF t fr False]
      by (cases "interest (r_kern s) g") (auto simp: watch_fine_def)
  qed
  ultimately show ?thesis by (simp add: tidy_def)
qed

lemma assign_clients:
  assumes t: "tidy s" and fr: "free_for i (e_fd ev) s"
  shows "clients (assign i ev s) = (clients s)(e_fd ev := (if i = MAX_EVENTS then None else Some (client_of ev)))"
proof
  fix g
  show "clients (assign i ev s) g = ((clients s)(e_fd ev := (if i = MAX_EVENTS then None else Some (client_of ev)))) g"
    using other_entry [OF t fr, of g]
    by (cases "g = e_fd ev"; cases "interest (r_kern s) g") (auto simp: clients_def)
qed

lemma clients_frame:
  "interest (r_kern t) = interest (r_kern s) \<Longrightarrow> events t = events s \<Longrightarrow> clients t = clients s"
  by (rule ext) (auto simp: clients_def split: option.split)

lemma clients_simps [simp]: "clients (exit_1 s) = clients s" "clients (s\<lparr>r_pending := b\<rparr>) = clients s"
  by (rule clients_frame; simp add: exit_1_def)+

text \<open>The entry that \<open>event_set\<close> and \<open>event_add\<close> make.\<close>

definition made :: "fd \<Rightarrow> mask \<Rightarrow> handler \<Rightarrow> int \<Rightarrow> my_event \<Rightarrow> my_event" where
  "made f m cb now ev =
     (let ev = ev\<lparr>e_fd := f, event := m, call_back := Some cb, status := 0\<rparr>;
          ev = (if datalen ev \<le> 0 then ev\<lparr>buf := (\<lambda>_. char_of (0::nat)), datalen := 0\<rparr> else ev)
      in ev\<lparr>last_active := now, status := 1\<rparr>)"

lemma made_simps [simp]:
  "e_fd (made f m cb now ev) = f" "event (made f m cb now ev) = m"
  "call_back (made f m cb now ev) = Some cb" "status (made f m cb now ev) = 1"
  "0 < datalen ev \<Longrightarrow> datalen (made f m cb now ev) = datalen ev"
  "0 < datalen ev \<Longrightarrow> buf (made f m cb now ev) = buf ev"
  by (simp_all add: made_def Let_def)

lemma register:
  assumes "opened (r_kern s) f" "interest (r_kern s) f = None"
  shows "event_add i (event_set i f m cb now s) = assign i (made f m cb now (events s i)) s"
proof -
  have ev: "events (event_set i f m cb now s) i = (made f m cb now (events s i))\<lparr>status := 0\<rparr>"
    by (simp add: event_set_def put_def made_def Let_def)
  have k: "r_kern (event_set i f m cb now s) = r_kern s" by (simp add: event_set_def put_def Let_def)
  have "event_add i (event_set i f m cb now s)
      = put i (made f m cb now (events s i)) (event_set i f m cb now s)
          \<lparr>r_kern := (r_kern s)\<lparr>interest := (interest (r_kern s))(f \<mapsto> (m, i))\<rparr>\<rparr>"
    using assms by (simp add: event_add_def ev k Let_def)
      (simp add: made_def Let_def)
  also have "\<dots> = assign i (made f m cb now (events s i)) s"
    using assms(1) by (simp add: assign_def put_def event_set_def Let_def fun_upd_idem)
  finally show ?thesis .
qed

text \<open>An active entry is taken off, changed and registered again.\<close>

lemma reregister:
  assumes "tidy s" "i \<le> MAX_EVENTS" "status (events s i) = 1" "f = e_fd (events s i)"
    and "status ev = 1" "e_fd ev = f"
  shows "event_add i (event_set i f m cb now (event_del i (put i ev s))) = assign i (made f m cb now ev) s"
proof -
  note td = tidyD(1) [OF assms(1-3)]
  have o: "opened (r_kern s) f" using tidyD(2) [OF assms(1)] td assms(4) by blast
  have d: "event_del i (put i ev s) = (put i ev s)\<lparr>r_kern := (r_kern s)\<lparr>interest := (interest (r_kern s))(f := None)\<rparr>\<rparr>"
    using o assms(5,6) by (simp add: event_del_def put_def)
  show ?thesis unfolding d
    by (subst register) (use o in \<open>simp_all add: put_def assign_def\<close>)
qed

lemma put_same: "put i (events s i) s = s"
  by (simp add: put_def)

section \<open>The callbacks\<close>

text \<open>What a callback of the watched entry \<open>i\<close> keeps.\<close>

definition fine :: "nat \<Rightarrow> reactor \<Rightarrow> r_event list \<Rightarrow> reactor \<Rightarrow> bool" where
  "fine i s es t \<longleftrightarrow>
     replay r_spec es (clients s) = Some (clients t)
     \<and> (r_running t \<longrightarrow> tidy t \<and> (\<forall>f. RLeft f \<notin> set es)
          \<and> (\<forall>g. interest (r_kern s) g \<noteq> None \<longrightarrow> g \<noteq> e_fd (events s i) \<longrightarrow>
               interest (r_kern t) g = interest (r_kern s) g))"

lemma fine_exit: "fine i s [] (exit_1 s)"
  by (simp add: fine_def) (simp add: exit_1_def)

lemma fine_assign:
  assumes "tidy s" "i \<le> MAX_EVENTS" "live i ev" "free_for i (e_fd ev) s"
    and "i = MAX_EVENTS \<Longrightarrow> clients s (e_fd ev) = None"
    and "replay r_spec es (clients s) = Some ((clients s)(e_fd ev := (if i = MAX_EVENTS then None else Some (client_of ev))))"
    and "\<forall>f. RLeft f \<notin> set es" "interest (r_kern s) (e_fd ev) \<noteq> None \<Longrightarrow> e_fd ev = e_fd (events s j)"
  shows "fine j s es (assign i ev s)"
  using assign_tidy [OF assms(1-4)] assign_clients [OF assms(1,4)] assms(6-8) by (auto simp: fine_def)

lemma send_fine:
  assumes "tidy s" "i < MAX_EVENTS" "status (events s i) = 1" "call_back (events s i) = Some Senddata"
    and "senddata i r s = (es, t)"
  shows "fine i s es t"
proof (cases "x_send r")
  case None
  then show ?thesis using assms(5) fine_exit by (auto simp: senddata_def Let_def)
next
  case (Some n)
  let ?ev = "events s i" and ?f = "e_fd (events s i)"
  have i: "i \<le> MAX_EVENTS" using assms(2) by simp
  note td = tidyD(1) [OF assms(1) i assms(3)]
  have es: "es = [RSent ?f (bytes (min n (nat (datalen ?ev))) (buf ?ev))]"
    and t: "t = assign i (made ?f EPOLLIN Recvdata (x_time r) ?ev) s"
    using assms(5) Some reregister [OF assms(1) i assms(3) HOL.refl assms(3)]
    by (simp_all add: senddata_def Let_def put_same)
  have "clients s ?f = Some (Owing (bytes (nat (datalen ?ev)) (buf ?ev)))"
    using td assms(2,4) by (simp add: clients_def client_of_def)
  moreover have "take (min n (nat (datalen ?ev))) (bytes (nat (datalen ?ev)) (buf ?ev)) = bytes (min n (nat (datalen ?ev))) (buf ?ev)"
    by (simp add: bytes_def take_map min_def)
  ultimately show ?thesis unfolding t
    by (intro fine_assign [OF assms(1) i])
      (use assms(2,3) in \<open>simp_all add: es live_def free_for_def client_of_def\<close>)
qed

lemma recv_fine:
  assumes "tidy s" "i < MAX_EVENTS" "status (events s i) = 1" "call_back (events s i) = Some Recvdata"
    and "recvdata i r s = Some (es, t)"
  shows "fine i s es t"
proof (cases "x_recv r")
  case None
  then show ?thesis using assms(5) fine_exit by (auto simp: recvdata_def Let_def)
next
  case (Some d)
  let ?ev = "events s i" and ?f = "e_fd (events s i)"
  let ?b = "(store_bytes (map toupper d) (buf ?ev))(length d := char_of (0::nat))"
  let ?e = "?ev\<lparr>buf := ?b, datalen := int (length d)\<rparr>"
  have i: "i \<le> MAX_EVENTS" using assms(2) by simp
  note td = tidyD(1) [OF assms(1) i assms(3)]
  have c: "clients s ?f = Some Listening" using td assms(2,4) by (simp add: clients_def client_of_def)
  show ?thesis
  proof (cases "d = []")
    case True
    let ?s = "put i ?e (s\<lparr>r_kern := close_fd ?f (r_kern s)\<rparr>)"
    have del: "event_del i ?s = ?s" using assms(3) by (simp add: event_del_def put_def)
    have "event_add i (event_set i ?f EPOLLOUT Senddata (x_time r) ?s) = exit_1 (event_set i ?f EPOLLOUT Senddata (x_time r) ?s)"
      by (simp add: event_add_def event_set_def put_def Let_def)
    then have t: "es = [RLeft ?f]" "t = exit_1 (event_set i ?f EPOLLOUT Senddata (x_time r) ?s)"
      using assms(5) Some True del by (auto simp: recvdata_def Let_def put_def split: if_splits)
    have kt: "interest (r_kern t) = (interest (r_kern s))(?f := None)"
      and et: "\<And>j. j \<noteq> i \<Longrightarrow> events t j = events s j" and "\<not> r_running t"
      by (simp_all add: t exit_1_def event_set_def put_def Let_def)
    have "clients t = (clients s)(?f := None)"
    proof
      fix g
      have fr: "free_for i ?f s" using assms(3) by (simp add: free_for_def)
      show "clients t g = ((clients s)(?f := None)) g"
      proof (cases "g = ?f")
        case False
        then show ?thesis using other_entry [OF assms(1) fr False] et
          by (cases "interest (r_kern s) g") (auto simp: clients_def kt)
      qed (simp add: clients_def kt)
    qed
    then show ?thesis using c \<open>\<not> r_running t\<close> by (simp add: fine_def t(1))
  next
    case False
    have t: "es = [RGot ?f d]" "t = assign i (made ?f EPOLLOUT Senddata (x_time r) ?e) s"
      using assms(5) Some False reregister [OF assms(1) i assms(3) HOL.refl, of ?e] assms(3)
      by (simp_all add: recvdata_def Let_def split: if_splits)
    have "bytes (length (map toupper d)) (store_bytes (map toupper d) (buf ?ev)) = map toupper d"
      by (rule bytes_store)
    then have "bytes (length d) ?b = map toupper d" by simp
    then show ?thesis unfolding t(2)
      by (intro fine_assign [OF assms(1) i])
        (use assms(2,3) False c in \<open>simp_all add: t(1) live_def free_for_def client_of_def\<close>)
  qed
qed

lemma free_from_bounds: "i \<le> MAX_EVENTS \<Longrightarrow> free_from g i \<le> MAX_EVENTS
    \<and> (free_from g i < MAX_EVENTS \<longrightarrow> status (g (free_from g i)) = 0)"
proof (induction g i rule: free_from.induct)
  case (1 g i)
  then show ?case by (simp add: free_from.simps [of g i])
qed

lemma free_eventD: "free_event g = Some i \<Longrightarrow> i < MAX_EVENTS \<and> status (g i) = 0"
  using free_from_bounds [of 0 g] by (auto simp: free_event_def Let_def split: if_splits)

lemma accept_fine:
  assumes tidy: "tidy s" and io: "rio_ok r s" and acc: "acceptconnect r s = (es, t)"
  shows "fine j s es t"
proof -
  let ?f = "x_accept r" and ?s = "s\<lparr>r_kern := open_fd (x_accept r) (r_kern s)\<rparr>"
  have same: "clients (exit_1 ?s) = clients s" by (rule clients_frame) (simp_all add: exit_1_def)
  have out: "fine j s [] (exit_1 ?s)" unfolding fine_def same by (simp add: exit_1_def)
  consider "?f = -1" | "?f \<noteq> -1" "x_fcntl r < 0 \<or> free_event (events s) = None"
    | i where "?f \<noteq> -1" "\<not> x_fcntl r < 0" "free_event (events s) = Some i"
    by (cases "free_event (events s)") auto
  then show ?thesis
  proof cases
    case 1
    then show ?thesis using acc fine_exit by (auto simp: acceptconnect_def Let_def)
  next
    case 2
    then have "es = []" "t = exit_1 ?s" using acc by (auto simp: acceptconnect_def Let_def split: if_splits)
    then show ?thesis using out by simp
  next
    case 3
    have fresh: "\<not> opened (r_kern s) ?f" using io 3 by (simp add: rio_ok_def fresh_fd_def)
    have none: "interest (r_kern s) ?f = None"
      using tidyD(2) [OF tidy, of ?f] fresh by (cases "interest (r_kern s) ?f") auto
    have i: "i < MAX_EVENTS" "i \<le> MAX_EVENTS" "status (events s i) = 0"
      using free_eventD [OF 3(3)] by simp_all
    let ?ev = "made ?f (EPOLLIN OR EPOLLET) Recvdata (x_time r) (events s i)"
    have "event_add i (event_set i ?f (EPOLLIN OR EPOLLET) Recvdata (x_time r) ?s) = assign i ?ev ?s"
      by (subst register) (use none in simp_all)
    also have "\<dots> = assign i ?ev s" by (simp add: assign_def open_fd_def)
    finally have t: "es = [RJoined ?f]" "t = assign i ?ev s"
      using acc 3 by (auto simp: acceptconnect_def Let_def)
    have "clients s ?f = None" using none by (simp add: clients_def)
    then show ?thesis unfolding t(2)
      by (intro fine_assign [OF tidy i(2)])
        (use i none in \<open>simp_all add: t(1) live_def free_for_def client_of_def\<close>)
  qed
qed

section \<open>The loop\<close>

lemma tidy_pending [simp]: "tidy (s\<lparr>r_pending := b\<rparr>) = tidy s"
proof -
  have "slot_fine (s\<lparr>r_pending := b\<rparr>) i = slot_fine s i" for i by (simp add: slot_fine_def)
  moreover have "watch_fine (s\<lparr>r_pending := b\<rparr>) f = watch_fine s f" for f
    by (simp add: watch_fine_def split: option.split)
  ultimately show ?thesis by (simp add: tidy_def)
qed

lemma ready_head:
  assumes "r_inv s" "r_running s" "r_pending s = (f, m, i) # rest"
  shows "i \<le> MAX_EVENTS \<and> status (events s i) = 1 \<and> e_fd (events s i) = f \<and> live i (events s i) \<and> tidy s
    \<and> (has m EPOLLIN \<longrightarrow> has (event (events s i)) EPOLLIN) \<and> (has m EPOLLOUT \<longrightarrow> has (event (events s i)) EPOLLOUT)"
proof -
  have t: "tidy s" and "ready_entry (r_kern s) (f, m, i)" using assms by (simp_all add: r_inv_def)
  then obtain n where n: "interest (r_kern s) f = Some (n, i)"
    "has m EPOLLIN \<longrightarrow> has n EPOLLIN" "has m EPOLLOUT \<longrightarrow> has n EPOLLOUT"
    by (auto simp: ready_entry_def split: option.splits)
  have a: "i \<le> MAX_EVENTS" "status (events s i) = 1" "e_fd (events s i) = f"
    using tidyD(2) [OF t n(1)] by blast+
  then have "live i (events s i)" "n = event (events s i)" using tidyD(1) [OF t a(1,2)] n(1) by auto
  then show ?thesis using a n t by simp
qed

lemma call_fine:
  assumes "r_inv s" "r_running s" "r_pending s = (f, m, i) # rest" "rio_ok r s"
    and "call_handler i r s = Some (es, t)"
  shows "fine i s es t"
proof -
  note h = ready_head [OF assms(1-3)]
  consider "i = MAX_EVENTS" "call_back (events s i) = Some Acceptconnect"
    | "i < MAX_EVENTS" "call_back (events s i) = Some Recvdata"
    | "i < MAX_EVENTS" "call_back (events s i) = Some Senddata"
    using h by (cases "i = MAX_EVENTS") (auto simp: live_def)
  then show ?thesis
  proof cases
    case 1
    then have "acceptconnect r s = (es, t)" using assms(5) by (simp add: call_handler_def)
    then show ?thesis using accept_fine h assms(4) by blast
  next
    case 2
    then have "recvdata i r s = Some (es, t)" using assms(5) by (simp add: call_handler_def)
    then show ?thesis using recv_fine h 2 by blast
  next
    case 3
    then have "senddata i r s = (es, t)" using assms(5) by (simp add: call_handler_def)
    then show ?thesis using send_fine h 3 by blast
  qed
qed

text \<open>At most one of the two calls happens.\<close>

lemma serve_once:
  assumes "r_inv s" "r_running s" "r_pending s = (f, m, i) # rest"
  shows "serve_ready i m r1 r2 s =
    (if has m EPOLLIN then call_handler i r1 s else if has m EPOLLOUT then call_handler i r2 s else Some ([], s))"
proof -
  note h = ready_head [OF assms]
  have "event (events s i) = EPOLLIN \<or> event (events s i) = EPOLLIN OR EPOLLET \<or> event (events s i) = EPOLLOUT"
    using h by (auto simp: live_def split: if_splits)
  then have "\<not> (has m EPOLLIN \<and> has m EPOLLOUT)" using h by auto
  then show ?thesis using assms(2) by (auto simp: serve_ready_def split: option.splits)
qed

lemma serve_fine:
  assumes "r_inv s" "r_running s" "r_pending s = (f, m, i) # rest" "rio_ok r1 s" "rio_ok r2 s"
    and "serve_ready i m r1 r2 s = Some (es, t)"
  shows "fine i s es t"
proof -
  have "fine i s [] s" using ready_head [OF assms(1-3)] by (simp add: fine_def)
  then show ?thesis
    using assms(6) call_fine [OF assms(1-4)] call_fine [OF assms(1-3,5)]
    by (auto simp: serve_once [OF assms(1-3)] split: if_splits)
qed

lemma serve_inv:
  assumes "r_inv s" "r_running s" "r_pending s = (f, m, i) # rest" "fine i s es t"
  shows "r_inv (t\<lparr>r_pending := rest\<rparr>)"
proof (cases "r_running t")
  case False
  then show ?thesis by (simp add: r_inv_def)
next
  case True
  then have t: "tidy t" and keep: "\<And>g. interest (r_kern s) g \<noteq> None \<Longrightarrow> g \<noteq> f \<Longrightarrow> interest (r_kern t) g = interest (r_kern s) g"
    using assms(4) ready_head [OF assms(1-3)] by (auto simp: fine_def)
  have old: "distinct (f # map fst rest)" "list_all (ready_entry (r_kern s)) rest"
    using assms(1-3) by (simp_all add: r_inv_def)
  have "ready_entry (r_kern t) e" if e: "e \<in> set rest" for e
  proof -
    have "fst e \<noteq> f" using old(1) e by auto
    moreover have r: "ready_entry (r_kern s) e" using old(2) e by (simp add: list_all_iff)
    then have "interest (r_kern s) (fst e) \<noteq> None" by (auto simp: ready_entry_def split: option.splits)
    ultimately have "interest (r_kern t) (fst e) = interest (r_kern s) (fst e)" by (rule keep [rotated])
    then show ?thesis using r by (simp add: ready_entry_def case_prod_beta)
  qed
  then show ?thesis using t old(1) by (simp add: r_inv_def list_all_iff)
qed

lemma reactor_step_inv:
  "reactor_step s es t \<Longrightarrow> r_inv s \<Longrightarrow> r_inv t \<and> replay r_spec es (clients s) = Some (clients t)
    \<and> r_running s \<and> (r_running t \<longrightarrow> (\<forall>f. RLeft f \<notin> set es))"
proof (induction rule: reactor_step.induct)
  case (wait s b)
  then show ?case by (simp add: r_inv_def ready_batch_def)
next
  case (wait_fails s)
  then show ?case by (simp add: r_inv_def) (simp add: exit_1_def)
next
  case (serve s f m i rest r1 r2 es t)
  have fi: "fine i s es t"
    by (rule serve_fine) (use serve.hyps serve.prems in auto)
  then show ?case using serve_inv [OF serve.prems serve.hyps(1,2) fi] serve.hyps(1) by (simp add: fine_def)
qed

interpretation rc: refined_system reactor_step r_inv clients "replay r_spec"
  by unfold_locales (auto dest: reactor_step_inv)

lemma reactor_start_inv:
  shows "r_inv (reactor_start lfd b now) \<and> clients (reactor_start lfd b now) = (\<lambda>_. None)"
proof (cases "lfd < 0 \<or> b < 0")
  case True
  then have "\<not> r_running (reactor_start lfd b now)" "interest (r_kern (reactor_start lfd b now)) = (\<lambda>_. None)"
    by (auto simp: reactor_start_def initserversock_def Let_def exit_1_def no_fds_def)
  then show ?thesis by (auto simp: r_inv_def clients_def)
next
  case False
  let ?z = "\<lparr>r_kern = open_fd lfd no_fds, events = (\<lambda>_. zero_entry), r_pending = [], r_running = True\<rparr> :: reactor"
  let ?ev = "made lfd EPOLLIN Acceptconnect now zero_entry"
  have s: "reactor_start lfd b now = assign MAX_EVENTS ?ev ?z"
    using False register [of ?z lfd MAX_EVENTS EPOLLIN Acceptconnect now]
    by (simp add: reactor_start_def initserversock_def Let_def no_fds_def)
  have z: "tidy ?z" by (simp add: tidy_def slot_fine_def watch_fine_def zero_entry_def no_fds_def)
  have fr: "free_for MAX_EVENTS (e_fd ?ev) ?z" by (simp add: free_for_def zero_entry_def no_fds_def)
  have "tidy (reactor_start lfd b now)"
    unfolding s by (rule assign_tidy [OF z _ _ fr]) (simp_all add: live_def)
  moreover have "clients (reactor_start lfd b now) = (\<lambda>_. None)"
    unfolding s using assign_clients [OF z fr] by (auto simp: clients_def no_fds_def fun_eq_iff)
  moreover have "r_pending (reactor_start lfd b now) = []" by (simp add: s)
  ultimately show ?thesis by (simp add: r_inv_def)
qed

section \<open>Who is still there\<close>

lemma spec_stays:
  assumes "replay r_spec es c = Some c'" "\<forall>f. RLeft f \<notin> set es" "c f \<noteq> None \<or> RJoined f \<in> set es"
  shows "c' f \<noteq> None"
  using assms
proof (induction es arbitrary: c)
  case (Cons e es)
  then obtain c1 where c1: "r_spec e c = Some c1" "replay r_spec es c1 = Some c'" by (auto split: option.splits)
  have "c1 f \<noteq> None \<or> RJoined f \<in> set es"
    using c1(1) Cons.prems(2,3) by (cases e) (auto split: if_splits option.splits client.splits)
  then show ?case using Cons.IH [OF c1(2)] Cons.prems(2) by simp
qed simp

lemma replay_concat: "replay (replay spec) ess c = replay spec (concat ess) c"
proof -
  have "replay spec (xs @ ys) d = (case replay spec xs d of None \<Rightarrow> None | Some d' \<Rightarrow> replay spec ys d')" for xs ys d
    by (induction xs arbitrary: d) (auto split: option.splits)
  then show ?thesis by (induction ess arbitrary: c) (auto split: option.splits)
qed

lemma reactor_nobody_left:
  "runs reactor_step s ess t \<Longrightarrow> r_inv s \<Longrightarrow> r_running t \<Longrightarrow> \<forall>f. RLeft f \<notin> set (concat ess)"
proof (induction rule: runs.induct)
  case (snoc s ess t es u)
  have "r_inv t" using snoc.hyps(1) snoc.prems(1) by (rule rc.run_preserves)
  then show ?case using reactor_step_inv [OF snoc.hyps(2)] snoc by auto
qed simp

section \<open>Runs that are followed step by step\<close>

datatype r_sched = RWait "(fd \<times> mask \<times> nat) list" | RServe rio

definition r_follow :: "r_sched \<Rightarrow> reactor \<Rightarrow> (r_event list \<times> reactor) option" where
  "r_follow c s =
     (case c of
        RWait b \<Rightarrow> if r_running s \<and> r_pending s = [] \<and> ready_batch (r_kern s) b \<and> length b \<le> MAX_EVENTS + 1
          then Some ([], s\<lparr>r_pending := b\<rparr>) else None
      | RServe r \<Rightarrow>
          (case r_pending s of
             [] \<Rightarrow> None
           | (f, m, i) # rest \<Rightarrow>
               if r_running s \<and> rio_ok r s
               then map_option (\<lambda>(es, t). (es, t\<lparr>r_pending := rest\<rparr>)) (serve_ready i m r r s) else None))"

lemma r_follow_step: "r_follow c s = Some (es, t) \<Longrightarrow> reactor_step s es t"
  by (auto simp: r_follow_def intro: reactor_step.intros split: r_sched.splits list.splits if_splits)

definition r_outcome :: "r_sched list \<Rightarrow> (r_event list list \<Rightarrow> reactor \<Rightarrow> bool) \<Rightarrow> bool" where
  "r_outcome cs P = (case follow r_follow cs (reactor_start 3 0 0) of None \<Rightarrow> False | Some (es, t) \<Rightarrow> P es t)"

lemma r_outcome_runs:
  assumes "r_outcome cs P" shows "\<exists>es t. runs reactor_step (reactor_start 3 0 0) es t \<and> P es t"
proof -
  have "follow r_follow cs s = Some (es, t) \<Longrightarrow> runs reactor_step s es t" for s es t
    by (rule follow_runs [of r_follow]) (rule r_follow_step)
  then show ?thesis using assms by (fastforce simp: r_outcome_def split: option.splits)
qed

definition r_calls :: "fd \<Rightarrow> string option \<Rightarrow> nat option \<Rightarrow> rio" where
  "r_calls a d n = \<lparr>x_accept = a, x_fcntl = 0, x_recv = d, x_send = n, x_time = 1\<rparr>"

definition r_demo :: "r_sched list" where
  "r_demo = [RWait [(3, EPOLLIN, MAX_EVENTS)], RServe (r_calls 5 None None),
     RWait [(5, EPOLLIN, 0)], RServe (r_calls (-1) (Some ''hi'') None),
     RWait [(5, EPOLLOUT, 0)], RServe (r_calls (-1) None (Some 2)), RWait [(5, EPOLLIN, 0)]]"

lemma r_demo_outcome:
  "r_outcome r_demo (\<lambda>ess s. concat ess = [RJoined 5, RGot 5 ''hi'', RSent 5 ''HI''] \<and> r_running s
     \<and> r_pending s = [(5, EPOLLIN, 0)])"
  "r_outcome (r_demo @ [RServe (r_calls (-1) (Some []) None)])
     (\<lambda>ess s. concat ess = [RJoined 5, RGot 5 ''hi'', RSent 5 ''HI'', RLeft 5])"
  by code_simp+

section \<open>Properties\<close>

text \<open>C8: the reactor answers each connection in capitals: every run refines the specification
  in which a connection alternates between a piece of data received and an answer that is a
  beginning of its capitals, until the client leaves.\<close>

theorem reactor_answers:
  assumes "runs reactor_step (reactor_start lfd b now) ess s"
  shows "replay r_spec (concat ess) (\<lambda>_. None) = Some (clients s)"
  using rc.run_refines [OF assms] reactor_start_inv [of lfd b now] by (simp add: replay_concat)

theorem reactor_answers_witness:
  "\<exists>ess s. runs reactor_step (reactor_start 3 0 0) ess s
     \<and> replay r_spec [RJoined 5, RGot 5 ''hi'', RSent 5 ''HI''] (\<lambda>_. None) = Some (clients s)"
proof -
  obtain ess s where r: "runs reactor_step (reactor_start 3 0 0) ess s"
    and e: "concat ess = [RJoined 5, RGot 5 ''hi'', RSent 5 ''HI'']"
    using r_outcome_runs [OF r_demo_outcome(1)] by blast
  from reactor_answers [OF r] r show ?thesis unfolding e by blast
qed

text \<open>C32: the reactor lives only as long as nobody leaves: while it runs, no client has left and
  everyone who ever joined is still registered; the first client that closes its connection
  ends the whole server, because the closed descriptor is registered again for writing.\<close>

theorem reactor_dies_with_first:
  assumes "runs reactor_step (reactor_start lfd b now) ess s"
  shows "if r_running s
    then (\<forall>f. RLeft f \<notin> set (concat ess)) \<and> (\<forall>f. RJoined f \<in> set (concat ess) \<longrightarrow> clients s f \<noteq> None)
    else \<forall>es t. \<not> reactor_step s es t"
proof (cases "r_running s")
  case True
  then have n: "\<forall>f. RLeft f \<notin> set (concat ess)"
    using reactor_nobody_left [OF assms] reactor_start_inv by blast
  have "replay r_spec (concat ess) (\<lambda>_. None) = Some (clients s)"
    using rc.run_refines [OF assms] reactor_start_inv [of lfd b now] by (simp add: replay_concat)
  then show ?thesis using True n spec_stays by metis
next
  case False
  then show ?thesis using reactor_step.simps by auto
qed

theorem reactor_dies_with_first_witness:
  "\<exists>ess s. runs reactor_step (reactor_start 3 0 0) ess s \<and> RLeft 5 \<in> set (concat ess)
     \<and> (\<forall>es t. \<not> reactor_step s es t)"
proof -
  obtain ess s where r: "runs reactor_step (reactor_start 3 0 0) ess s"
    and e: "concat ess = [RJoined 5, RGot 5 ''hi'', RSent 5 ''HI'', RLeft 5]"
    using r_outcome_runs [OF r_demo_outcome(2)] by blast
  have "RLeft 5 \<in> set (concat ess)" unfolding e by simp
  with reactor_dies_with_first [OF r] r show ?thesis by (auto split: if_splits)
qed

end
