(* ===== verification/TimerServer.thy ===== *)
theory TimerServer
  imports TimerList Epoll
begin

text \<open>
  The server of \<open>timer/timer_list/main.cpp\<close>: it accepts connections, receives from them, and
  drops, by the timer list, those that were silent for three time slots; the signals come
  through a socket pair. An operation is \<open>None\<close> when it leaves the array of clients, when
  the timer list follows a bad pointer, or when it does not return.
\<close>

section \<open>State\<close>

definition FD_LIMIT :: int where "FD_LIMIT = 65535"
definition MAX_EVENT_NUM :: nat where "MAX_EVENT_NUM = 1024"
definition TIMESLOT :: int where "TIMESLOT = 5"
definition SIGALRM :: int where "SIGALRM = 14"
definition SIGTERM :: int where "SIGTERM = 15"

text \<open>The address of \<open>cb_func\<close>, and those of the elements of \<open>users\<close>.\<close>

definition CB_FUNC :: ptr where "CB_FUNC = 1"

definition user_ptr :: "fd \<Rightarrow> ptr" where "user_ptr f = Suc (nat f)"

definition user_fd :: "ptr \<Rightarrow> fd" where "user_fd p = int p - 1"

lemma user_fd_ptr [simp]: "0 \<le> f \<Longrightarrow> user_fd (user_ptr f) = f"
  by (simp add: user_fd_def user_ptr_def)

record tserver =
  t_kern :: "fd kernel"
  timerList :: timer_list
  users :: "fd \<Rightarrow> client_data"
  listenfd :: fd
  pipefd0 :: fd
  t_pending :: "(fd \<times> mask \<times> fd) list"
  in_batch :: bool                    \<comment> \<open>inside the body of the \<open>while\<close> loop\<close>
  timeout :: bool
  stop_server :: bool
  alarm_set :: bool

text \<open>Results of the calls: \<open>accept\<close>, the address \<open>new\<close> returns, \<open>time\<close>, the signals or the data
  received (\<open>None\<close> for -1) and whether \<open>errno\<close> is \<open>EAGAIN\<close>.\<close>

record tio =
  y_accept :: fd
  y_new :: ptr
  y_time :: int
  y_signals :: "int list option"
  y_recv :: "string option"
  y_again :: bool

datatype t_event = TJoined fd | TData fd string | TLeft fd | TExpired fd

section \<open>The operations\<close>

definition addfd :: "fd \<Rightarrow> mask \<Rightarrow> fd kernel \<Rightarrow> fd kernel" where
  "addfd f m k = snd (epoll_ctl EPOLL_CTL_ADD f m f k)"

definition cb_func :: "client_data \<Rightarrow> fd kernel \<Rightarrow> fd kernel" where
  "cb_func arg k = close_fd (confd arg) (snd (epoll_ctl EPOLL_CTL_DEL (confd arg) 0 0 k))"

definition in_users :: "fd \<Rightarrow> bool" where
  "in_users f \<longleftrightarrow> 0 \<le> f \<and> f < FD_LIMIT"

definition accept_client :: "tio \<Rightarrow> fd \<Rightarrow> tserver \<Rightarrow> (t_event list \<times> tserver) option" where
  "accept_client r sockfd s =
     (let f = y_accept r;
          s = (if f = -1 then s else s\<lparr>t_kern := open_fd f (t_kern s)\<rparr>);
          s = s\<lparr>t_kern := addfd f EPOLLIN (t_kern s)\<rparr>
      in if \<not> in_users f then None
         else
           (let p = y_new r;
                s = s\<lparr>users := (users s)(f := \<lparr>confd = sockfd, c_timer = p\<rparr>)\<rparr>;
                l = new_timer p (MyTimer (y_time r + 3 * TIMESLOT) CB_FUNC (user_ptr f)) (timerList s)
            in map_option (\<lambda>l. ([TJoined f], s\<lparr>timerList := l\<rparr>)) (addTimer p l)))"

definition take_signal :: "int \<Rightarrow> tserver \<Rightarrow> tserver" where
  "take_signal sig s =
     (if sig = SIGTERM then s\<lparr>stop_server := True\<rparr>
      else if sig = SIGALRM then s\<lparr>timeout := True\<rparr> else s)"

definition take_signals :: "tio \<Rightarrow> tserver \<Rightarrow> tserver" where
  "take_signals r s = (case y_signals r of None \<Rightarrow> s | Some sigs \<Rightarrow> fold take_signal sigs s)"

definition drop_client :: "fd \<Rightarrow> tserver \<Rightarrow> (t_event list \<times> tserver) option" where
  "drop_client f s =
     (let timer = c_timer (users s f);
          s = s\<lparr>t_kern := cb_func (users s f) (t_kern s)\<rparr>
      in map_option (\<lambda>l. ([TLeft f], s\<lparr>timerList := l\<rparr>)) (deleteTimer timer (timerList s)))"

definition client_input :: "tio \<Rightarrow> fd \<Rightarrow> tserver \<Rightarrow> (t_event list \<times> tserver) option" where
  "client_input r f s =
     (if \<not> in_users f then None
      else case y_recv r of
          None \<Rightarrow> if y_again r then Some ([], s) else drop_client f s
        | Some d \<Rightarrow>
            if d = [] then drop_client f s
            else
              (let timer = c_timer (users s f)
               in case setExpireTime timer (y_time r + 3 * TIMESLOT) (timerList s) of
                    None \<Rightarrow> None
                  | Some l \<Rightarrow> map_option (\<lambda>l. ([TData f d], s\<lparr>timerList := l\<rparr>)) (adjust timer l)))"

text \<open>The body of the \<open>for\<close> loop for one ready entry.\<close>

definition t_serve :: "tio \<Rightarrow> mask \<Rightarrow> fd \<Rightarrow> tserver \<Rightarrow> (t_event list \<times> tserver) option" where
  "t_serve r m sockfd s =
     (if sockfd = listenfd s then accept_client r sockfd s
      else if sockfd = pipefd0 s \<and> has m EPOLLIN then Some ([], take_signals r s)
      else if has m EPOLLIN then client_input r sockfd s
      else Some ([], s))"

text \<open>The end of the body of the \<open>while\<close> loop. The callbacks of a tick do not touch the list.\<close>

definition end_batch :: "tio \<Rightarrow> tserver \<Rightarrow> (t_event list \<times> tserver) option" where
  "end_batch r s =
     (let s = s\<lparr>in_batch := False\<rparr>
      in if \<not> timeout s then Some ([], s)
         else case tick (y_time r) (timerList s) of
             None \<Rightarrow> None
           | Some (calls, l) \<Rightarrow>
               (let fs = map (\<lambda>c. user_fd (snd c)) calls
                in Some (map TExpired fs,
                     s\<lparr>timerList := l, t_kern := fold (\<lambda>f. cb_func (users s f)) fs (t_kern s),
                       alarm_set := True, timeout := False\<rparr>)))"

text \<open>The set-up; \<open>garbage\<close> is what the new array of clients holds.\<close>

definition t_start :: "fd \<Rightarrow> fd \<Rightarrow> (fd \<Rightarrow> client_data) \<Rightarrow> tserver" where
  "t_start lfd pfd garbage =
     \<lparr>t_kern = addfd pfd EPOLLIN (open_fd pfd (addfd lfd EPOLLIN (open_fd lfd no_fds))),
      timerList = empty_list, users = garbage, listenfd = lfd, pipefd0 = pfd, t_pending = [],
      in_batch = False, timeout = False, stop_server = False, alarm_set = True\<rparr>"

definition tio_ok :: "tio \<Rightarrow> tserver \<Rightarrow> bool" where
  "tio_ok r s \<longleftrightarrow>
     (y_accept r = -1 \<or> opened (t_kern s) (listenfd s) \<and> fresh_fd (y_accept r) (t_kern s))
     \<and> y_new r \<noteq> NULL \<and> heap (timerList s) (y_new r) = None"

inductive tserver_step :: "tserver \<Rightarrow> t_event list \<Rightarrow> tserver \<Rightarrow> bool" where
  wait: "\<not> in_batch s \<Longrightarrow> \<not> stop_server s \<Longrightarrow> ready_batch (t_kern s) b \<Longrightarrow> length b \<le> MAX_EVENT_NUM \<Longrightarrow>
    tserver_step s [] (s\<lparr>t_pending := b, in_batch := True\<rparr>)"
| serve: "in_batch s \<Longrightarrow> t_pending s = (f, m, d) # rest \<Longrightarrow> tio_ok r s \<Longrightarrow> t_serve r m d s = Some (es, t) \<Longrightarrow>
    tserver_step s es (t\<lparr>t_pending := rest\<rparr>)"
| batch_end: "in_batch s \<Longrightarrow> t_pending s = [] \<Longrightarrow> end_batch r s = Some (es, t) \<Longrightarrow> tserver_step s es t"

end
