(* ===== verification/TimerServerProps.thy ===== *)
theory TimerServerProps
  imports TimerServer TimerListProps
begin

text \<open>
  The server with the timer list: what the wrong descriptor in the client records does to it,
  and how two clients of the same second make it hang.
\<close>

section \<open>The timer list keeps callbacks and their arguments\<close>

definition calls_in :: "(ptr \<times> ptr) set \<Rightarrow> timer_list \<Rightarrow> bool" where
  "calls_in A s \<longleftrightarrow> (\<forall>p t. heap s p = Some t \<longrightarrow> (call_back t, user_data t) \<in> A)"

named_theorems keeps_calls "operations of the timer list that keep calls_in"

lemma modify_calls:
  "modify p f s = Some s' \<Longrightarrow> (\<And>t. call_back (f t) = call_back t \<and> user_data (f t) = user_data t) \<Longrightarrow>
    calls_in A s \<Longrightarrow> calls_in A s'"
  by (auto simp: modify_def deref_def calls_in_def split: if_splits option.splits)

lemma set_calls [keeps_calls]:
  "set_next p q s = Some s' \<Longrightarrow> calls_in A s \<Longrightarrow> calls_in A s'"
  "set_pre p q s = Some s' \<Longrightarrow> calls_in A s \<Longrightarrow> calls_in A s'"
  "setExpireTime p et s = Some s' \<Longrightarrow> calls_in A s \<Longrightarrow> calls_in A s'"
  unfolding set_next_def set_pre_def setExpireTime_def by (erule modify_calls; simp)+

lemma free_calls [keeps_calls]: "free_timer p s = Some s' \<Longrightarrow> calls_in A s \<Longrightarrow> calls_in A s'"
  by (auto simp: free_timer_def deref_def calls_in_def split: if_splits option.splits)

lemma ends_calls [simp]:
  "calls_in A (s\<lparr>head := p\<rparr>) = calls_in A s" "calls_in A (s\<lparr>tail := p\<rparr>) = calls_in A s"
  "calls_in A (s\<lparr>head := p, tail := q\<rparr>) = calls_in A s"
  by (simp_all add: calls_in_def)

lemma addTimer_from_calls [keeps_calls]:
  "addTimer_from f p s = Some s' \<Longrightarrow> calls_in A s \<Longrightarrow> calls_in A s'"
  unfolding addTimer_from_def
  by (auto simp: bind_eq_Some_conv split: if_splits dest!: keeps_calls)

lemma addTimer_calls [keeps_calls]: "addTimer p s = Some s' \<Longrightarrow> calls_in A s \<Longrightarrow> calls_in A s'"
  unfolding addTimer_def
  by (auto simp: bind_eq_Some_conv split: if_splits dest!: keeps_calls)

lemma deleteTimer_calls [keeps_calls]: "deleteTimer p s = Some s' \<Longrightarrow> calls_in A s \<Longrightarrow> calls_in A s'"
  unfolding deleteTimer_def
  by (auto simp: bind_eq_Some_conv split: if_splits dest!: keeps_calls)

lemma adjust_calls [keeps_calls]: "adjust p s = Some s' \<Longrightarrow> calls_in A s \<Longrightarrow> calls_in A s'"
  unfolding adjust_def
  by (auto simp: bind_eq_Some_conv split: if_splits dest!: keeps_calls)

lemma tick_loop_calls:
  assumes "tick_loop now cur s = Some r"
  shows "calls_in A s \<longrightarrow> set (fst r) \<subseteq> A \<and> calls_in A (snd r)"
proof (rule tick_loop.raw_induct
    [of "\<lambda>now cur s r. calls_in A s \<longrightarrow> set (fst r) \<subseteq> A \<and> calls_in A (snd r)", OF _ assms], goal_cases)
  case step: (1 loop now cur s r)
  show ?case
  proof
    assume i: "calls_in A s"
    show "set (fst r) \<subseteq> A \<and> calls_in A (snd r)"
    proof (cases "cur = NULL")
      case True
      then show ?thesis using step(2) i by auto
    next
      case False
      then obtain t where t: "heap s cur = Some t" using step(2) by (auto split: option.splits)
      show ?thesis
      proof (cases "expireTime t > now")
        case True
        then show ?thesis using step(2) i False t by auto
      next
        case due: False
        then obtain s' r' where d: "deleteTimer cur s = Some s'" and l: "loop now (t_next t) s' = Some r'"
          and r: "r = ((call_back t, user_data t) # fst r', snd r')"
          using step(2) False t by (auto simp: bind_eq_Some_conv split: if_splits)
        have "calls_in A s'" by (rule deleteTimer_calls [OF d i])
        then have "set (fst r') \<subseteq> A \<and> calls_in A (snd r')" using step(1) [OF l] by blast
        moreover have "(call_back t, user_data t) \<in> A" using i t by (simp add: calls_in_def)
        ultimately show ?thesis by (simp add: r)
      qed
    qed
  qed
qed

lemma tick_calls: "tick now s = Some (cs, s') \<Longrightarrow> calls_in A s \<Longrightarrow> set cs \<subseteq> A \<and> calls_in A s'"
  using tick_loop_calls by (fastforce simp: tick_def split: if_splits)

section \<open>Invariant\<close>

definition members :: "tserver \<Rightarrow> fd set" where
  "members s = {f. f \<noteq> listenfd s \<and> f \<noteq> pipefd0 s \<and> interest (t_kern s) f \<noteq> None}"

definition kern_ok :: "tserver \<Rightarrow> bool" where
  "kern_ok s \<longleftrightarrow> listenfd s \<noteq> pipefd0 s \<and> opened (t_kern s) (pipefd0 s)
     \<and> (\<forall>f m d. interest (t_kern s) f = Some (m, d) \<longrightarrow> m = EPOLLIN \<and> d = f \<and> opened (t_kern s) f \<and> 0 \<le> f)"

definition known :: "tserver \<Rightarrow> fd \<times> mask \<times> fd \<Rightarrow> bool" where
  "known s = (\<lambda>(f, m, d). d = f \<and> (f = listenfd s \<or> f = pipefd0 s \<or> f \<in> members s))"

definition t_inv :: "tserver \<Rightarrow> bool" where
  "t_inv s \<longleftrightarrow> kern_ok s \<and> (\<forall>f \<in> members s. confd (users s f) = listenfd s)
     \<and> calls_in ((\<lambda>f. (CB_FUNC, user_ptr f)) ` members s) (timerList s)
     \<and> list_all (known s) (t_pending s)"

text \<open>What every step keeps.\<close>

definition t_keeps :: "tserver \<Rightarrow> tserver \<Rightarrow> bool" where
  "t_keeps s t \<longleftrightarrow> listenfd t = listenfd s \<and> pipefd0 t = pipefd0 s \<and> members s \<subseteq> members t
     \<and> (\<not> opened (t_kern s) (listenfd s) \<longrightarrow> \<not> opened (t_kern t) (listenfd s))"

lemma calls_mono: "calls_in A l \<Longrightarrow> A \<subseteq> B \<Longrightarrow> calls_in B l"
  by (auto simp: calls_in_def)

lemma known_mono: "t_keeps s t \<Longrightarrow> known s e \<Longrightarrow> known t e"
  by (auto simp: t_keeps_def known_def)

text \<open>The callback for a member closes the listening socket.\<close>

definition unlisten :: "fd \<Rightarrow> fd kernel \<Rightarrow> fd kernel" where
  "unlisten lf k = \<lparr>opened = (opened k)(lf := False), interest = (interest k)(lf := None)\<rparr>"

lemma cb_unlisten: "confd c = lf \<Longrightarrow> cb_func c k = unlisten lf k"
  by (cases "opened k lf") (simp_all add: cb_func_def unlisten_def close_fd_def)

lemma unlisten_idem [simp]: "unlisten lf (unlisten lf k) = unlisten lf k"
  by (simp add: unlisten_def)

lemma fold_unlisten: "fold (\<lambda>f. unlisten lf) (f # fs) k = unlisten lf k"
  by (induction fs arbitrary: f k) simp_all

lemma unlisten_state:
  assumes "t_inv s" "t = s\<lparr>t_kern := unlisten (listenfd s) (t_kern s), timerList := l\<rparr>"
    "calls_in ((\<lambda>f. (CB_FUNC, user_ptr f)) ` members s) l"
  shows "t_inv t \<and> t_keeps s t \<and> \<not> opened (t_kern t) (listenfd s)"
proof -
  have m: "members t = members s" by (auto simp: members_def assms(2) unlisten_def)
  have "kern_ok t" using assms(1) by (auto simp: t_inv_def kern_ok_def assms(2) unlisten_def)
  moreover have k: "t_keeps s t" using m by (simp add: t_keeps_def assms(2) unlisten_def)
  moreover have "list_all (known t) (t_pending t)"
    using assms(1,2) known_mono [OF k] by (auto simp: t_inv_def list_all_iff)
  ultimately show ?thesis using assms m by (simp add: t_inv_def unlisten_def)
qed

lemma list_state:
  assumes "t_inv s" "calls_in ((\<lambda>f. (CB_FUNC, user_ptr f)) ` members s) l"
  shows "t_inv (s\<lparr>timerList := l\<rparr>) \<and> t_keeps s (s\<lparr>timerList := l\<rparr>)"
proof -
  have m: "members (s\<lparr>timerList := l\<rparr>) = members s" by (simp add: members_def)
  have k: "t_keeps s (s\<lparr>timerList := l\<rparr>)" using m by (simp add: t_keeps_def)
  moreover have "kern_ok (s\<lparr>timerList := l\<rparr>)" using assms(1) by (simp add: t_inv_def kern_ok_def)
  moreover have "list_all (known (s\<lparr>timerList := l\<rparr>)) (t_pending s)"
    using assms(1) known_mono [OF k] by (auto simp: t_inv_def list_all_iff)
  ultimately show ?thesis using assms m by (simp add: t_inv_def)
qed

section \<open>Steps\<close>

definition closing :: "t_event list \<Rightarrow> bool" where
  "closing es \<longleftrightarrow> (\<exists>f. TLeft f \<in> set es \<or> TExpired f \<in> set es)"

definition t_good :: "tserver \<Rightarrow> t_event list \<Rightarrow> tserver \<Rightarrow> bool" where
  "t_good s es t \<longleftrightarrow> t_inv t \<and> t_keeps s t \<and> (\<forall>f. TJoined f \<in> set es \<longrightarrow> f \<in> members t)
     \<and> (closing es \<longrightarrow> \<not> opened (t_kern t) (listenfd s))"

lemma t_keeps_refl: "t_keeps s s"
  by (simp add: t_keeps_def)

lemma t_keeps_trans: "t_keeps s t \<Longrightarrow> t_keeps t u \<Longrightarrow> t_keeps s u"
  by (auto simp: t_keeps_def)

lemma ts_drop_good:
  assumes inv: "t_inv s" and f: "f \<in> members s" and d: "drop_client f s = Some (es, t)"
  shows "t_good s es t"
proof -
  have c: "confd (users s f) = listenfd s" using inv f by (simp add: t_inv_def)
  obtain l where l: "deleteTimer (c_timer (users s f)) (timerList s) = Some l"
    and t: "es = [TLeft f]" "t = s\<lparr>t_kern := unlisten (listenfd s) (t_kern s), timerList := l\<rparr>"
    using d by (auto simp: drop_client_def Let_def cb_unlisten [OF c])
  have "calls_in ((\<lambda>f. (CB_FUNC, user_ptr f)) ` members s) l"
    using deleteTimer_calls [OF l] inv by (simp add: t_inv_def)
  from unlisten_state [OF inv t(2) this] show ?thesis by (simp add: t_good_def t(1))
qed

lemma input_good:
  assumes inv: "t_inv s" and f: "f \<in> members s" and i: "client_input r f s = Some (es, t)"
  shows "t_good s es t"
proof -
  have same: "t_good s [] s" using inv t_keeps_refl by (simp add: t_good_def closing_def)
  consider "y_recv r = None \<and> \<not> y_again r \<or> y_recv r = Some []" | "y_recv r = None" "y_again r"
    | d where "y_recv r = Some d" "d \<noteq> []" by (cases "y_recv r") auto
  then show ?thesis
  proof cases
    case 1
    then have "drop_client f s = Some (es, t)" using i by (auto simp: client_input_def split: if_splits)
    then show ?thesis by (rule ts_drop_good [OF inv f])
  next
    case 2
    then have "es = []" "t = s" using i by (auto simp: client_input_def split: if_splits)
    then show ?thesis using same by simp
  next
    case 3
    then obtain l l' where l: "setExpireTime (c_timer (users s f)) (y_time r + 3 * TIMESLOT) (timerList s) = Some l"
      "adjust (c_timer (users s f)) l = Some l'" and t: "es = [TData f d]" "t = s\<lparr>timerList := l'\<rparr>"
      using i by (auto simp: client_input_def Let_def split: if_splits option.splits)
    have "calls_in ((\<lambda>f. (CB_FUNC, user_ptr f)) ` members s) l'"
      using adjust_calls [OF l(2)] set_calls(3) [OF l(1)] inv by (simp add: t_inv_def)
    then show ?thesis using list_state [OF inv] by (simp add: t_good_def t closing_def)
  qed
qed

lemma ts_accept_good:
  assumes inv: "t_inv s" and io: "tio_ok r s" and a: "accept_client r (listenfd s) s = Some (es, t)"
  shows "t_good s es t"
proof -
  let ?f = "y_accept r"
  have u: "in_users ?f" using a by (simp add: accept_client_def Let_def split: if_splits)
  then have fr: "opened (t_kern s) (listenfd s)" "\<not> opened (t_kern s) ?f" "0 \<le> ?f" "?f \<noteq> -1"
    using io by (auto simp: tio_ok_def fresh_fd_def in_users_def)
  have k: "kern_ok s" using inv by (simp add: t_inv_def)
  have none: "interest (t_kern s) ?f = None"
    using k fr(2) unfolding kern_ok_def by (cases "interest (t_kern s) ?f") auto
  have ne: "?f \<noteq> listenfd s" "?f \<noteq> pipefd0 s" using fr k by (auto simp: kern_ok_def)
  let ?k = "\<lparr>opened = (opened (t_kern s))(?f := True), interest = (interest (t_kern s))(?f \<mapsto> (EPOLLIN, ?f))\<rparr>"
  have k': "addfd ?f EPOLLIN (open_fd ?f (t_kern s)) = ?k"
    using none by (simp add: addfd_def open_fd_def)
  obtain l where l: "addTimer (y_new r) (new_timer (y_new r) (MyTimer (y_time r + 3 * TIMESLOT) CB_FUNC (user_ptr ?f)) (timerList s)) = Some l"
    and t: "es = [TJoined ?f]" "t = s\<lparr>t_kern := ?k, users := (users s)(?f := \<lparr>confd = listenfd s, c_timer = y_new r\<rparr>), timerList := l\<rparr>"
    using a u fr(4) by (auto simp: accept_client_def Let_def k')
  have m: "members t = insert ?f (members s)" using ne by (auto simp: members_def t(2))
  have "kern_ok t" using k fr(3) ne by (auto simp: kern_ok_def t(2))
  moreover have keep: "t_keeps s t" using m fr(1) by (auto simp: t_keeps_def t(2))
  moreover have "list_all (known t) (t_pending t)"
    using inv known_mono [OF keep] by (auto simp: t_inv_def list_all_iff t(2))
  moreover have "calls_in ((\<lambda>f. (CB_FUNC, user_ptr f)) ` members t) l"
  proof (rule addTimer_calls [OF l])
    have "calls_in ((\<lambda>f. (CB_FUNC, user_ptr f)) ` members t) (timerList s)"
      by (rule calls_mono [of "(\<lambda>f. (CB_FUNC, user_ptr f)) ` members s"]) (use inv m in \<open>auto simp: t_inv_def\<close>)
    then show "calls_in ((\<lambda>f. (CB_FUNC, user_ptr f)) ` members t)
      (new_timer (y_new r) (MyTimer (y_time r + 3 * TIMESLOT) CB_FUNC (user_ptr ?f)) (timerList s))"
      by (auto simp: calls_in_def new_timer_def MyTimer_def m)
  qed
  moreover have "\<forall>f \<in> members t. confd (users t f) = listenfd t"
    using inv m by (auto simp: t_inv_def t(2))
  ultimately show ?thesis using m by (simp add: t_good_def t_inv_def t closing_def)
qed

text \<open>Changes of the flags and of the pending entries.\<close>

lemma flags_state:
  assumes "t_inv s" "t_kern t = t_kern s" "timerList t = timerList s" "users t = users s"
    "listenfd t = listenfd s" "pipefd0 t = pipefd0 s" "list_all (known s) (t_pending t)"
  shows "t_inv t \<and> t_keeps s t"
proof -
  have m: "members t = members s" by (simp add: members_def assms)
  have "known t = known s" by (simp add: known_def m assms fun_eq_iff)
  then show ?thesis using assms m by (simp add: t_inv_def kern_ok_def t_keeps_def)
qed

lemma signals_frame:
  "t_kern (fold take_signal sigs s) = t_kern s \<and> timerList (fold take_signal sigs s) = timerList s
    \<and> users (fold take_signal sigs s) = users s \<and> listenfd (fold take_signal sigs s) = listenfd s
    \<and> pipefd0 (fold take_signal sigs s) = pipefd0 s \<and> t_pending (fold take_signal sigs s) = t_pending s"
  by (induction sigs arbitrary: s) (simp_all add: take_signal_def)

lemma serve_good:
  assumes inv: "t_inv s" and pend: "t_pending s = (f, m, d) # rest" and io: "tio_ok r s"
    and sv: "t_serve r m d s = Some (es, t)"
  shows "t_good s es t"
proof -
  have k: "d = f" "f = listenfd s \<or> f = pipefd0 s \<or> f \<in> members s"
    using inv pend by (auto simp: t_inv_def known_def)
  have same: "t_good s [] s" using inv t_keeps_refl by (simp add: t_good_def closing_def)
  show ?thesis
  proof (cases "f = listenfd s")
    case True
    then show ?thesis using sv ts_accept_good [OF inv io] k(1) by (simp add: t_serve_def)
  next
    case nl: False
    show ?thesis
    proof (cases "f = pipefd0 s")
      case True
      show ?thesis
      proof (cases "has m EPOLLIN")
        case False
        then show ?thesis using sv True nl k(1) same by (simp add: t_serve_def)
      next
        case in_ev: True
        then have t: "es = []" "t = take_signals r s" using sv True nl k(1) by (simp_all add: t_serve_def)
        have "t_inv t \<and> t_keeps s t"
        proof (cases "y_signals r")
          case None
          then show ?thesis using inv t_keeps_refl by (simp add: t(2) take_signals_def)
        next
          case (Some sigs)
          have "list_all (known s) (t_pending s)" using inv by (simp add: t_inv_def)
          then show ?thesis using flags_state [OF inv, of t] signals_frame [of sigs s] Some
            by (simp add: t(2) take_signals_def)
        qed
        then show ?thesis by (simp add: t_good_def t(1) closing_def)
      qed
    next
      case False
      then have f: "f \<in> members s" using k nl by simp
      show ?thesis
      proof (cases "has m EPOLLIN")
        case True
        then show ?thesis using sv input_good [OF inv f] nl False k(1) by (simp add: t_serve_def)
      next
        case no: False
        then show ?thesis using sv nl False k(1) same by (simp add: t_serve_def)
      qed
    qed
  qed
qed

lemma end_good:
  assumes inv: "t_inv s" and pend: "t_pending s = []" and e: "end_batch r s = Some (es, t)"
  shows "t_good s es t"
proof (cases "timeout s")
  case False
  then have t: "es = []" "t = s\<lparr>in_batch := False\<rparr>" using e by (simp_all add: end_batch_def Let_def)
  then show ?thesis using flags_state [OF inv, of t] pend by (simp add: t_good_def closing_def)
next
  case True
  obtain calls l where c: "tick (y_time r) (timerList s) = Some (calls, l)"
    and t: "es = map TExpired (map (\<lambda>c. user_fd (snd c)) calls)"
      "t = s\<lparr>in_batch := False, timerList := l,
         t_kern := fold (\<lambda>f. cb_func (users s f)) (map (\<lambda>c. user_fd (snd c)) calls) (t_kern s),
         alarm_set := True, timeout := False\<rparr>"
    using e True by (auto simp: end_batch_def Let_def split: option.splits)
  let ?A = "(\<lambda>f. (CB_FUNC, user_ptr f)) ` members s"
  have cl: "set calls \<subseteq> ?A" "calls_in ?A l" using tick_calls [OF c] inv by (auto simp: t_inv_def)
  have nn: "\<And>f. f \<in> members s \<Longrightarrow> 0 \<le> f"
    using inv unfolding t_inv_def kern_ok_def members_def by auto
  have mem: "set (map (\<lambda>c. user_fd (snd c)) calls) \<subseteq> members s"
    using cl(1) nn by (auto simp: image_iff)
  have fold: "fold (\<lambda>f. cb_func (users s f)) fs k = (if fs = [] then k else unlisten (listenfd s) k)"
    if "set fs \<subseteq> members s" for fs k
    using that
  proof (induction fs arbitrary: k)
    case (Cons g fs)
    then have "confd (users s g) = listenfd s" using inv by (simp add: t_inv_def)
    then show ?case using Cons by (simp add: cb_unlisten)
  qed simp
  show ?thesis
  proof (cases "calls = []")
    case True
    let ?s = "s\<lparr>timerList := l\<rparr>"
    have ls: "t_inv ?s" "t_keeps s ?s" using list_state [OF inv cl(2)] by blast+
    have tt: "t = ?s\<lparr>in_batch := False, alarm_set := True, timeout := False\<rparr>" by (simp add: t True)
    have "t_inv t \<and> t_keeps ?s t" by (rule flags_state [OF ls(1)]) (simp_all add: tt pend)
    then show ?thesis using t_keeps_trans [OF ls(2)] by (simp add: t_good_def t(1) True closing_def)
  next
    case False
    let ?s = "s\<lparr>t_kern := unlisten (listenfd s) (t_kern s), timerList := l\<rparr>"
    have us: "t_inv ?s" "t_keeps s ?s" "\<not> opened (t_kern ?s) (listenfd s)"
      using unlisten_state [OF inv HOL.refl cl(2)] by blast+
    have tt: "t = ?s\<lparr>in_batch := False, alarm_set := True, timeout := False\<rparr>"
      using False fold [OF mem] by (simp add: t)
    have "t_inv t \<and> t_keeps ?s t" by (rule flags_state [OF us(1)]) (simp_all add: tt pend)
    moreover have "\<not> opened (t_kern t) (listenfd s)" using us(3) by (simp add: tt)
    ultimately show ?thesis using t_keeps_trans [OF us(2)] by (auto simp: t_good_def t(1))
  qed
qed

lemma tserver_step_good:
  "tserver_step s es t \<Longrightarrow> t_inv s \<Longrightarrow> t_good s es t"
proof (induction rule: tserver_step.induct)
  case (wait s b)
  have "list_all (known s) b"
    using wait unfolding ready_batch_def list_all_iff
    by (fastforce simp: known_def members_def ready_entry_def t_inv_def kern_ok_def split: option.splits)
  then show ?case using flags_state [OF wait.prems, of "s\<lparr>t_pending := b, in_batch := True\<rparr>"]
    by (simp add: t_good_def closing_def)
next
  case (serve s f m d rest r es t)
  have g: "t_good s es t" by (rule serve_good) (use serve in auto)
  have "t_keeps s t" using g by (simp add: t_good_def)
  then have "known s e \<Longrightarrow> known t e" for e by (rule known_mono)
  then have "list_all (known t) rest" using serve by (auto simp: t_inv_def list_all_iff)
  then have "t_inv (t\<lparr>t_pending := rest\<rparr>) \<and> t_keeps t (t\<lparr>t_pending := rest\<rparr>)"
    using g flags_state [of t "t\<lparr>t_pending := rest\<rparr>"] by (simp add: t_good_def)
  then show ?case using g by (auto simp: t_good_def t_keeps_def members_def)
next
  case (batch_end s r es t)
  then show ?case using end_good by blast
qed

interpretation ts: inductive_invariant tserver_step t_inv
  by unfold_locales (auto dest: tserver_step_good simp: t_good_def)

lemma t_start_inv:
  assumes "0 \<le> lfd" "0 \<le> pfd" "lfd \<noteq> pfd"
  shows "t_inv (t_start lfd pfd g) \<and> listenfd (t_start lfd pfd g) = lfd"
proof -
  have k: "t_kern (t_start lfd pfd g) = \<lparr>opened = (\<lambda>_. False)(lfd := True, pfd := True),
      interest = (\<lambda>_. None)(lfd \<mapsto> (EPOLLIN, lfd), pfd \<mapsto> (EPOLLIN, pfd))\<rparr>"
    using assms(3) by (simp add: t_start_def addfd_def no_fds_def open_fd_def)
  have o: "listenfd (t_start lfd pfd g) = lfd" "pipefd0 (t_start lfd pfd g) = pfd" "t_pending (t_start lfd pfd g) = []"
    "timerList (t_start lfd pfd g) = empty_list" by (simp_all add: t_start_def)
  have "members (t_start lfd pfd g) = {}" by (auto simp: members_def k o)
  moreover have "kern_ok (t_start lfd pfd g)" using assms by (auto simp: kern_ok_def k o)
  ultimately show ?thesis by (simp add: t_inv_def o calls_in_def empty_list_def)
qed

lemma ts_history:
  "runs tserver_step s ess t \<Longrightarrow> t_inv s \<Longrightarrow> t_inv t \<and> t_keeps s t
    \<and> (\<forall>f. TJoined f \<in> set (concat ess) \<longrightarrow> f \<in> members t)
    \<and> (closing (concat ess) \<longrightarrow> \<not> opened (t_kern t) (listenfd s))"
proof (induction rule: runs.induct)
  case (snoc s ess t es u)
  then have ih: "t_inv t" "t_keeps s t" "\<forall>f. TJoined f \<in> set (concat ess) \<longrightarrow> f \<in> members t"
    "closing (concat ess) \<longrightarrow> \<not> opened (t_kern t) (listenfd s)" by blast+
  have g: "t_good t es u" by (rule tserver_step_good [OF snoc.hyps(2) ih(1)])
  then have sub: "members t \<subseteq> members u" and l: "listenfd t = listenfd s" using ih(2) by (auto simp: t_good_def t_keeps_def)
  have "closing (concat (ess @ [es])) \<Longrightarrow> closing (concat ess) \<or> closing es" by (auto simp: closing_def)
  moreover have "t_keeps s u" using ih(2) g by (auto simp: t_good_def t_keeps_def)
  ultimately show ?case using ih g sub l by (auto simp: t_good_def t_keeps_def)
qed (simp add: t_keeps_refl closing_def)

section \<open>After the listening socket is closed\<close>

lemma join_needs_listener:
  assumes "tserver_step s es t" "TJoined f \<in> set es"
  shows "opened (t_kern s) (listenfd s)"
  using assms(1)
proof cases
  case (serve g m d rest r t')
  then have "d = listenfd s \<and> in_users (y_accept r)"
    using assms(2) by (auto simp: t_serve_def client_input_def drop_client_def accept_client_def Let_def
        split: if_splits option.splits)
  then show ?thesis using serve(4) by (auto simp: tio_ok_def in_users_def)
qed (use assms(2) in \<open>auto simp: end_batch_def Let_def split: if_splits option.splits\<close>)

lemma no_more_joins:
  "runs tserver_step s ess t \<Longrightarrow> t_inv s \<Longrightarrow> \<not> opened (t_kern s) (listenfd s) \<Longrightarrow> TJoined f \<notin> set (concat ess)"
proof (induction rule: runs.induct)
  case (snoc s ess t es u)
  then have "t_keeps s t" using ts_history by blast
  then have "\<not> opened (t_kern t) (listenfd t)" using snoc.prems by (auto simp: t_keeps_def)
  then show ?case using join_needs_listener [OF snoc.hyps(2)] snoc by auto
qed simp

section \<open>Runs that are followed step by step\<close>

datatype t_sched = TWait "(fd \<times> mask \<times> fd) list" | TServe tio | TEnd int

definition t_follow :: "t_sched \<Rightarrow> tserver \<Rightarrow> (t_event list \<times> tserver) option" where
  "t_follow c s =
     (case c of
        TWait b \<Rightarrow> if \<not> in_batch s \<and> \<not> stop_server s \<and> ready_batch (t_kern s) b \<and> length b \<le> MAX_EVENT_NUM
          then Some ([], s\<lparr>t_pending := b, in_batch := True\<rparr>) else None
      | TServe r \<Rightarrow>
          (case t_pending s of
             [] \<Rightarrow> None
           | (f, m, d) # rest \<Rightarrow>
               if in_batch s \<and> tio_ok r s
               then map_option (\<lambda>(es, t). (es, t\<lparr>t_pending := rest\<rparr>)) (t_serve r m d s) else None)
      | TEnd now \<Rightarrow>
          if in_batch s \<and> t_pending s = []
          then end_batch \<lparr>y_accept = -1, y_new = 0, y_time = now, y_signals = None, y_recv = None, y_again = True\<rparr> s
          else None)"

lemma t_follow_step: "t_follow c s = Some (es, t) \<Longrightarrow> tserver_step s es t"
  by (auto simp: t_follow_def intro: tserver_step.intros split: t_sched.splits list.splits if_splits)

definition t_begin :: tserver where
  "t_begin = t_start 3 4 (\<lambda>_. \<lparr>confd = 0, c_timer = 0\<rparr>)"

definition t_outcome :: "t_sched list \<Rightarrow> (t_event list list \<Rightarrow> tserver \<Rightarrow> bool) \<Rightarrow> bool" where
  "t_outcome cs P = (case follow t_follow cs t_begin of None \<Rightarrow> False | Some (es, t) \<Rightarrow> P es t)"

lemma t_outcome_runs:
  assumes "t_outcome cs P" shows "\<exists>es t. runs tserver_step t_begin es t \<and> P es t"
proof -
  have "follow t_follow cs s = Some (es, t) \<Longrightarrow> runs tserver_step s es t" for s es t
    by (rule follow_runs [of t_follow]) (rule t_follow_step)
  then show ?thesis using assms by (fastforce simp: t_outcome_def split: option.splits)
qed

definition t_calls :: "fd \<Rightarrow> ptr \<Rightarrow> int \<Rightarrow> string option \<Rightarrow> tio" where
  "t_calls f p now d = \<lparr>y_accept = f, y_new = p, y_time = now, y_signals = None, y_recv = d, y_again = False\<rparr>"

text \<open>A client connects; a client connects, is heard and leaves; two clients in one second.\<close>

definition t_connect :: "fd \<Rightarrow> ptr \<Rightarrow> int \<Rightarrow> t_sched list" where
  "t_connect f p now = [TWait [(3, EPOLLIN, 3)], TServe (t_calls f p now None), TEnd now]"

definition t_demo :: "t_sched list" where
  "t_demo = t_connect 6 1 0 @ [TWait [(6, EPOLLIN, 6)], TServe (t_calls (-1) 2 4 (Some ''hi'')), TEnd 4,
     TWait [(6, EPOLLIN, 6)], TServe (t_calls (-1) 2 5 (Some [])), TEnd 5]"

definition t_twins :: "t_sched list" where
  "t_twins = t_connect 6 1 0 @ t_connect 7 2 0 @ [TWait [(3, EPOLLIN, 3)]]"

lemma t_runs_outcome:
  "t_outcome t_demo (\<lambda>es s. concat es = [TJoined 6, TData 6 ''hi'', TLeft 6])"
  "t_outcome t_twins (\<lambda>es s. concat es = [TJoined 6, TJoined 7] \<and> in_batch s \<and> t_pending s = [(3, EPOLLIN, 3)]
     \<and> listenfd s = 3 \<and> opened (t_kern s) 3 \<and> \<not> opened (t_kern s) 8 \<and> heap (timerList s) 3 = None
     \<and> head (timerList s) = 1
     \<and> map_option (\<lambda>t. (expireTime t, t_next t)) (heap (timerList s) 1) = Some (15, 2)
     \<and> map_option (\<lambda>t. (expireTime t, t_next t)) (heap (timerList s) 2) = Some (15, 1))"
  by code_simp+

section \<open>Properties\<close>

text \<open>C33: the server closes the wrong descriptor: in every run every client that joined keeps its
  descriptor open and watched, whether it leaves or its timer expires; as soon as one of
  these happens the listening socket is closed instead, and nobody ever joins again.\<close>

theorem timer_server_closes_listener:
  assumes "0 \<le> lfd" and "0 \<le> pfd" and "lfd \<noteq> pfd" and "runs tserver_step (t_start lfd pfd g) ess s"
    and "runs tserver_step s ess' t"
  shows "(\<forall>f. TJoined f \<in> set (concat ess) \<longrightarrow> opened (t_kern s) f \<and> interest (t_kern s) f = Some (EPOLLIN, f))
    \<and> (closing (concat ess) \<longrightarrow> \<not> opened (t_kern s) lfd \<and> (\<forall>f. TJoined f \<notin> set (concat ess')))"
proof -
  note st = t_start_inv [OF assms(1-3), of g]
  note h = ts_history [OF assms(4) conjunct1 [OF st]]
  have l: "listenfd s = lfd" using h st by (auto simp: t_keeps_def)
  have "opened (t_kern s) f \<and> interest (t_kern s) f = Some (EPOLLIN, f)" if "TJoined f \<in> set (concat ess)" for f
  proof -
    have "f \<in> members s" using h that by blast
    then obtain m d where i: "interest (t_kern s) f = Some (m, d)" by (auto simp: members_def)
    then show ?thesis using h by (auto simp: t_inv_def kern_ok_def)
  qed
  moreover have "\<not> opened (t_kern s) lfd" if "closing (concat ess)" using h st that by simp
  ultimately show ?thesis using no_more_joins [OF assms(5)] h l by auto
qed

theorem timer_server_closes_listener_witness:
  "\<exists>ess s. runs tserver_step t_begin ess s \<and> concat ess = [TJoined 6, TData 6 ''hi'', TLeft 6]
     \<and> opened (t_kern s) 6 \<and> \<not> opened (t_kern s) 3"
proof -
  obtain ess s where r: "runs tserver_step t_begin ess s" and e: "concat ess = [TJoined 6, TData 6 ''hi'', TLeft 6]"
    using t_outcome_runs [OF t_runs_outcome(1)] by blast
  have e': "TJoined 6 \<in> set (concat ess)" "closing (concat ess)" unfolding e by (simp_all add: closing_def)
  have r': "runs tserver_step (t_start 3 4 (\<lambda>_. \<lparr>confd = 0, c_timer = 0\<rparr>)) ess s" using r by (simp add: t_begin_def)
  have "opened (t_kern s) 6 \<and> \<not> opened (t_kern s) 3"
    using timer_server_closes_listener [OF _ _ _ r' runs.refl] e' by simp
  then show ?thesis using r e by blast
qed

text \<open>Two clients that connect within the same second hang the server at the next one: there
  is a reachable state in which a connection waits to be accepted, and accepting it at any
  later second does not return, because the timers of the first two point at each other.\<close>

theorem same_second_hangs:
  "\<exists>ess s. runs tserver_step t_begin ess s \<and> concat ess = [TJoined 6, TJoined 7]
     \<and> in_batch s \<and> t_pending s = [(3, EPOLLIN, 3)]
     \<and> (\<forall>n. tio_ok (t_calls 8 3 (int n + 1) None) s \<and> t_serve (t_calls 8 3 (int n + 1) None) EPOLLIN 3 s = None)"
proof -
  obtain ess s where r: "runs tserver_step t_begin ess s" "concat ess = [TJoined 6, TJoined 7]"
    and b: "in_batch s" "t_pending s = [(3, EPOLLIN, 3)]" "listenfd s = 3"
    and o: "opened (t_kern s) 3" "\<not> opened (t_kern s) 8" "heap (timerList s) 3 = None"
    and h: "head (timerList s) = 1"
      "map_option (\<lambda>t. (expireTime t, t_next t)) (heap (timerList s) 1) = Some (15, 2)"
      "map_option (\<lambda>t. (expireTime t, t_next t)) (heap (timerList s) 2) = Some (15, 1)"
    using t_outcome_runs [OF t_runs_outcome(2)] by blast
  obtain t1 t2 where t: "heap (timerList s) 1 = Some t1" "expireTime t1 = 15" "t_next t1 = 2"
    "heap (timerList s) 2 = Some t2" "expireTime t2 = 15" "t_next t2 = 1"
    using h(2,3) by auto
  have "t_serve x EPOLLIN 3 s = None" if x: "tio_ok x s" "0 < y_time x" "in_users (y_accept x)" for x
  proof -
    let ?p = "y_new x" and ?tm = "MyTimer (y_time x + 3 * TIMESLOT) CB_FUNC (user_ptr (y_accept x))"
    let ?l = "new_timer ?p ?tm (timerList s)"
    have p: "?p \<noteq> NULL" "?p \<noteq> 1" "?p \<noteq> 2" using x(1) t by (auto simp: tio_ok_def)
    have hl: "heap ?l 1 = Some t1" "heap ?l 2 = Some t2" "heap ?l ?p = Some ?tm" "head ?l = 1"
      using p t h(1) by (simp_all add: new_timer_def)
    have "seek ?l 1 (expireTime ?tm) = None"
      by (rule seek_diverges [of "{1, 2}"]) (use hl t x(2) in \<open>auto simp: MyTimer_def TIMESLOT_def\<close>)
    then have "addTimer ?p ?l = None"
      using p hl t x(2) by (simp add: addTimer_def addTimer_from_def deref_def) (simp add: MyTimer_def TIMESLOT_def)
    then show ?thesis using x(3) by (auto simp: t_serve_def b(3) accept_client_def Let_def in_users_def)
  qed
  moreover have "tio_ok (t_calls 8 3 (int n + 1) None) s \<and> in_users (y_accept (t_calls 8 3 (int n + 1) None))
      \<and> 0 < y_time (t_calls 8 3 (int n + 1) None)" for n
    using o b(3) by (simp add: tio_ok_def t_calls_def fresh_fd_def in_users_def FD_LIMIT_def)
  ultimately show ?thesis using r b by blast
qed

end
