(* ===== verification/CgiServer.thy ===== *)
theory CgiServer
  imports Epoll
begin

text \<open>
  The class \<open>cgi_conn\<close> of \<open>process/CGI_server/cgi_server.h\<close>: it collects what a client sends
  until a carriage return and line feed, and runs the named program. The functions of
  \<open>processpool.h\<close> it uses for descriptors are here too.
\<close>

section \<open>State\<close>

definition BUFFER_SIZE :: nat where "BUFFER_SIZE = 1024"

record cgi_conn =
  c_kern :: "fd kernel"
  c_sock :: fd
  c_buf :: "nat \<Rightarrow> char"
  read_index :: nat

abbreviation zero :: char where "zero \<equiv> char_of (0::nat)"

definition CR :: char where "CR = char_of (13::nat)"
definition LF :: char where "LF = char_of (10::nat)"

definition init :: "fd \<Rightarrow> fd kernel \<Rightarrow> cgi_conn" where
  "init f k = \<lparr>c_kern = k, c_sock = f, c_buf = (\<lambda>_. zero), read_index = 0\<rparr>"

text \<open>\<open>removefd\<close> of \<open>processpool.h\<close>.\<close>

definition removefd :: "fd \<Rightarrow> fd kernel \<Rightarrow> fd kernel" where
  "removefd f k = close_fd f (snd (epoll_ctl EPOLL_CTL_DEL f 0 0 k))"

text \<open>The results of the calls of \<open>recv\<close>: bytes, -1 with or without \<open>EAGAIN\<close>, or 0.\<close>

datatype recv_result = Received string | Again | Failed | EndOfFile

text \<open>How \<open>process\<close> is left: waiting inside \<open>recv\<close>, with nothing to read, with the connection
  removed, or, in the child, by running a program.\<close>

datatype outcome = InRecv | Idle | Removed | Handed string

text \<open>Whether a file exists, and what \<open>fork\<close> returns.\<close>

record cgi_env =
  file_exists :: "string \<Rightarrow> bool"
  fork_result :: int

section \<open>Finding the end of the request\<close>

text \<open>The \<open>for\<close> loop: the first \<open>i\<close> from \<open>index\<close> at which a line end is complete, or \<open>n\<close>.\<close>

function find_end :: "(nat \<Rightarrow> char) \<Rightarrow> nat \<Rightarrow> nat \<Rightarrow> nat" where
  "find_end b i n =
     (if i < n then (if 1 \<le> i \<and> b (i - 1) = CR \<and> b i = LF then i else find_end b (Suc i) n) else i)"
  by pat_completeness auto
termination by (relation "measure (\<lambda>(b, i, n). n - i)") auto

declare find_end.simps [simp del]

definition store_at :: "nat \<Rightarrow> string \<Rightarrow> (nat \<Rightarrow> char) \<Rightarrow> nat \<Rightarrow> char" where
  "store_at i d b = (\<lambda>n. if i \<le> n \<and> n < i + length d then d ! (n - i) else b n)"

text \<open>The string at the start of the buffer, up to the first zero among the first \<open>n\<close> bytes.\<close>

definition c_string :: "nat \<Rightarrow> (nat \<Rightarrow> char) \<Rightarrow> string" where
  "c_string n b = takeWhile (\<lambda>c. c \<noteq> zero) (bytes n b)"

section \<open>process\<close>

definition drop_conn :: "cgi_conn \<Rightarrow> outcome \<times> cgi_conn" where
  "drop_conn c = (Removed, c\<lparr>c_kern := removefd (c_sock c) (c_kern c)\<rparr>)"

text \<open>What is done with a complete request, whose line end is complete at \<open>i\<close>.\<close>

definition run_request :: "cgi_env \<Rightarrow> nat \<Rightarrow> cgi_conn \<Rightarrow> outcome \<times> cgi_conn" where
  "run_request w i c =
     (let c = c\<lparr>c_buf := (c_buf c)(i - 1 := zero)\<rparr>;
          file_name = c_string i (c_buf c)
      in if \<not> file_exists w file_name then drop_conn c
         else if fork_result w = -1 then drop_conn c
         else if 0 < fork_result w then drop_conn c
         else (Handed file_name, c))"

text \<open>The loop, for the given results of \<open>recv\<close>; a call for 0 bytes returns 0.\<close>

fun process :: "cgi_env \<Rightarrow> recv_result list \<Rightarrow> cgi_conn \<Rightarrow> outcome \<times> cgi_conn" where
  "process w [] c = (InRecv, c)"
| "process w (r # rs) c =
     (let index = read_index c
      in case (if BUFFER_SIZE - 1 - index = 0 then EndOfFile else r) of
           Again \<Rightarrow> (Idle, c)
         | Failed \<Rightarrow> drop_conn c
         | EndOfFile \<Rightarrow> drop_conn c
         | Received d \<Rightarrow>
             (let c = c\<lparr>c_buf := store_at index d (c_buf c), read_index := index + length d\<rparr>;
                  i = find_end (c_buf c) index (read_index c)
              in if i = read_index c then process w rs c else run_request w i c))"

section \<open>What a request is\<close>

text \<open>The position at which the first line end is complete, in a string.\<close>

fun line_end :: "string \<Rightarrow> nat option" where
  "line_end (a # b # s) = (if a = CR \<and> b = LF then Some 1 else map_option Suc (line_end (b # s)))"
| "line_end s = None"

lemma line_end_Some_iff:
  "line_end s = Some i \<longleftrightarrow> 1 \<le> i \<and> i < length s \<and> s ! (i - 1) = CR \<and> s ! i = LF
     \<and> (\<forall>j. 1 \<le> j \<longrightarrow> j < i \<longrightarrow> \<not> (s ! (j - 1) = CR \<and> s ! j = LF))"
proof (induction s arbitrary: i rule: line_end.induct)
  case (1 a b s)
  show ?case
  proof (cases "a = CR \<and> b = LF")
    case True
    have "\<not> (1 < i \<and> (\<forall>j. 1 \<le> j \<longrightarrow> j < i \<longrightarrow> \<not> ((a # b # s) ! (j - 1) = CR \<and> (a # b # s) ! j = LF)))"
      using True by auto
    then show ?thesis using True by (cases "i = 1") auto
  next
    case False
    have step: "(\<forall>j. 1 \<le> j \<longrightarrow> j < Suc k \<longrightarrow> \<not> ((a # b # s) ! (j - 1) = CR \<and> (a # b # s) ! j = LF))
      \<longleftrightarrow> (\<forall>j. 1 \<le> j \<longrightarrow> j < k \<longrightarrow> \<not> ((b # s) ! (j - 1) = CR \<and> (b # s) ! j = LF))" (is "?L = ?R") if "1 \<le> k" for k
    proof
      assume l: ?L
      show ?R
      proof (intro allI impI)
        fix j assume "1 \<le> (j::nat)" "j < k"
        then show "\<not> ((b # s) ! (j - 1) = CR \<and> (b # s) ! j = LF)" using l [rule_format, of "Suc j"] by simp
      qed
    next
      assume r: ?R
      show ?L
      proof (intro allI impI)
        fix j assume j: "1 \<le> (j::nat)" "j < Suc k"
        show "\<not> ((a # b # s) ! (j - 1) = CR \<and> (a # b # s) ! j = LF)"
        proof (cases "j = 1")
          case True
          then show ?thesis using False by simp
        next
          case ne: False
          then show ?thesis using r [rule_format, of "j - 1"] j by (cases j; cases "j - 1") auto
        qed
      qed
    qed
    show ?thesis
    proof (cases i)
      case 0
      then show ?thesis using False by (auto simp: "1" [OF False])
    next
      case (Suc k)
      show ?thesis
      proof (cases "1 \<le> k")
        case True
        then show ?thesis using False "1" [OF False, of k] step [OF True] Suc by (cases k) auto
      next
        case no: False
        then have k: "k = 0" by simp
        show ?thesis using False "1" [OF False, of 0] unfolding Suc k by auto
      qed
    qed
  qed
qed simp_all

lemma line_end_None_iff:
  "line_end s = None \<longleftrightarrow> (\<forall>j. 1 \<le> j \<longrightarrow> j < length s \<longrightarrow> \<not> (s ! (j - 1) = CR \<and> s ! j = LF))"
proof
  assume n: "line_end s = None"
  show "\<forall>j. 1 \<le> j \<longrightarrow> j < length s \<longrightarrow> \<not> (s ! (j - 1) = CR \<and> s ! j = LF)"
  proof (rule ccontr)
    assume "\<not> ?thesis"
    then obtain j where j: "1 \<le> j \<and> j < length s \<and> s ! (j - 1) = CR \<and> s ! j = LF" by blast
    define i where "i = (LEAST j. 1 \<le> j \<and> j < length s \<and> s ! (j - 1) = CR \<and> s ! j = LF)"
    have i: "1 \<le> i \<and> i < length s \<and> s ! (i - 1) = CR \<and> s ! i = LF"
      unfolding i_def by (rule LeastI) (rule j)
    have "\<not> (1 \<le> j \<and> j < length s \<and> s ! (j - 1) = CR \<and> s ! j = LF)" if "j < i" for j
      using not_less_Least [OF that [unfolded i_def]] .
    then have "line_end s = Some i" using i line_end_Some_iff [of s i] by auto
    with n show False by simp
  qed
next
  assume "\<forall>j. 1 \<le> j \<longrightarrow> j < length s \<longrightarrow> \<not> (s ! (j - 1) = CR \<and> s ! j = LF)"
  then show "line_end s = None" using line_end_Some_iff [of s] by (cases "line_end s") auto
qed

lemma line_end_append: "line_end s = Some k \<Longrightarrow> line_end (s @ t) = Some k"
proof (induction s arbitrary: k rule: line_end.induct)
  case (1 a b s)
  then show ?case by (cases "a = CR \<and> b = LF") auto
qed simp_all

section \<open>The loop finds the first line end\<close>

text \<open>The buffer holds the bytes \<open>s\<close>.\<close>

definition holds :: "cgi_conn \<Rightarrow> string \<Rightarrow> bool" where
  "holds c s \<longleftrightarrow> read_index c = length s \<and> bytes (length s) (c_buf c) = s"

lemma holds_nth: "holds c s \<Longrightarrow> j < length s \<Longrightarrow> c_buf c j = s ! j"
  by (auto simp: holds_def bytes_def dest: arg_cong [where f = "\<lambda>x. x ! j"])

lemma find_end_spec:
  assumes "holds c s" "i \<le> length s"
    and "\<forall>j. 1 \<le> j \<longrightarrow> j < i \<longrightarrow> \<not> (s ! (j - 1) = CR \<and> s ! j = LF)"
  shows "find_end (c_buf c) i (length s) = (case line_end s of None \<Rightarrow> length s | Some k \<Rightarrow> k)"
  using assms(2,3)
proof (induction "length s - i" arbitrary: i)
  case 0
  then have i: "i = length s" by simp
  then have "line_end s = None" using 0(3) by (simp add: line_end_None_iff)
  then show ?case unfolding i by (subst find_end.simps) simp
next
  case (Suc n)
  then have less: "i < length s" by simp
  have b: "c_buf c i = s ! i" "c_buf c (i - 1) = s ! (i - 1)"
    using holds_nth [OF assms(1)] less by simp_all
  show ?case
  proof (cases "1 \<le> i \<and> s ! (i - 1) = CR \<and> s ! i = LF")
    case True
    then have "line_end s = Some i" using less Suc.prems(2) by (simp add: line_end_Some_iff)
    then show ?thesis using True less b by (subst find_end.simps) simp
  next
    case False
    have "find_end (c_buf c) (Suc i) (length s) = (case line_end s of None \<Rightarrow> length s | Some k \<Rightarrow> k)"
    proof (rule Suc.hyps(1))
      show "n = length s - Suc i" "Suc i \<le> length s" using Suc.hyps(2) less by simp_all
      show "\<forall>j. 1 \<le> j \<longrightarrow> j < Suc i \<longrightarrow> \<not> (s ! (j - 1) = CR \<and> s ! j = LF)"
        using Suc.prems(2) False by (auto simp: less_Suc_eq)
    qed
    then show ?thesis using False less b by (subst find_end.simps) auto
  qed
qed

lemma holds_store:
  assumes "holds c s"
  shows "holds (c\<lparr>c_buf := store_at (read_index c) d (c_buf c), read_index := read_index c + length d\<rparr>) (s @ d)"
proof -
  have r: "read_index c = length s" using assms by (simp add: holds_def)
  have "bytes (length (s @ d)) (store_at (length s) d (c_buf c)) = s @ d"
  proof (rule nth_equalityI)
    fix j assume "j < length (bytes (length (s @ d)) (store_at (length s) d (c_buf c)))"
    then have j: "j < length s + length d" by simp
    then show "bytes (length (s @ d)) (store_at (length s) d (c_buf c)) ! j = (s @ d) ! j"
      using holds_nth [OF assms] by (auto simp: bytes_def store_at_def nth_append)
  qed simp
  then show ?thesis by (simp add: holds_def r)
qed

text \<open>What becomes of a request with its line end at \<open>k\<close>.\<close>

definition request_outcome :: "cgi_env \<Rightarrow> string \<Rightarrow> nat \<Rightarrow> outcome" where
  "request_outcome w s k =
     (let name = takeWhile (\<lambda>c. c \<noteq> zero) (take (k - 1) s)
      in if file_exists w name \<and> fork_result w \<noteq> -1 \<and> fork_result w \<le> 0 then Handed name else Removed)"

lemma run_request_outcome:
  assumes "holds c s" "line_end s = Some k"
  shows "fst (run_request w k c) = request_outcome w s k"
proof -
  have k: "1 \<le> k" "k < length s" using assms(2) by (simp_all add: line_end_Some_iff)
  obtain m where m: "k = Suc m" using k by (cases k) auto
  have "bytes (Suc m) ((c_buf c)(m := zero)) = bytes m (c_buf c) @ [zero]" by (simp add: bytes_def)
  moreover have "bytes m (c_buf c) = take m s"
    using assms(1) k m by (auto simp: bytes_def holds_nth intro!: nth_equalityI)
  moreover have "takeWhile (\<lambda>c. c \<noteq> zero) (x @ [zero]) = takeWhile (\<lambda>c. c \<noteq> zero) x" for x
    by (induction x) auto
  ultimately have "c_string k ((c_buf c)(k - 1 := zero)) = takeWhile (\<lambda>c. c \<noteq> zero) (take (k - 1) s)"
    by (simp add: c_string_def m)
  then show ?thesis by (simp add: run_request_def request_outcome_def drop_conn_def Let_def)
qed

lemma process_spec:
  assumes "holds c s" "line_end s = None" "\<forall>d \<in> set ds. d \<noteq> []"
    and "length s + length (concat ds) < BUFFER_SIZE"
  shows "(case line_end (s @ concat ds) of
       None \<Rightarrow> process w (map Received ds @ rs) c = process w rs (snd (process w (map Received ds) c))
         \<and> holds (snd (process w (map Received ds) c)) (s @ concat ds)
     | Some k \<Rightarrow> fst (process w (map Received ds @ rs) c) = request_outcome w (s @ concat ds) k)"
  using assms
proof (induction ds arbitrary: c s)
  case Nil
  then show ?case by simp
next
  case (Cons d ds)
  let ?c = "c\<lparr>c_buf := store_at (read_index c) d (c_buf c), read_index := read_index c + length d\<rparr>"
  have h: "holds ?c (s @ d)" by (rule holds_store [OF Cons.prems(1)])
  have ri: "read_index c = length s" using Cons.prems(1) by (simp add: holds_def)
  have room: "BUFFER_SIZE - 1 - read_index c \<noteq> 0" using Cons.prems(3,4) ri by (cases d) auto
  have fe: "find_end (c_buf ?c) (length s) (length (s @ d)) = (case line_end (s @ d) of None \<Rightarrow> length (s @ d) | Some k \<Rightarrow> k)"
  proof (rule find_end_spec [OF h])
    show "\<forall>j. 1 \<le> j \<longrightarrow> j < length s \<longrightarrow> \<not> ((s @ d) ! (j - 1) = CR \<and> (s @ d) ! j = LF)"
      using Cons.prems(2) by (auto simp: line_end_None_iff nth_append)
  qed simp
  have step: "process w (map Received (d # ds) @ xs) c =
    (if line_end (s @ d) = None then process w (map Received ds @ xs) ?c
     else run_request w (the (line_end (s @ d))) ?c)" for xs
  proof -
    let ?i = "find_end (c_buf ?c) (length s) (length (s @ d))"
    have p: "process w (map Received (d # ds) @ xs) c
        = (if ?i = length (s @ d) then process w (map Received ds @ xs) ?c else run_request w ?i ?c)"
      using room by (simp add: Let_def ri)
    show ?thesis
    proof (cases "line_end (s @ d)")
      case None
      then show ?thesis unfolding p fe by simp
    next
      case (Some k)
      then have "k \<noteq> length (s @ d)" by (simp add: line_end_Some_iff)
      then show ?thesis unfolding p fe by (simp add: Some)
    qed
  qed
  show ?case
  proof (cases "line_end (s @ d)")
    case None
    have app: "s @ concat (d # ds) = (s @ d) @ concat ds" by simp
    have st: "process w (map Received (d # ds) @ rs) c = process w (map Received ds @ rs) ?c"
      "process w (map Received (d # ds)) c = process w (map Received ds) ?c"
      using step [of rs] step [of "[]"] None by (simp_all del: process.simps list.map concat.simps)
    have pr: "\<forall>d \<in> set ds. d \<noteq> []" "length (s @ d) + length (concat ds) < BUFFER_SIZE"
      using Cons.prems(3,4) by simp_all
    show ?thesis unfolding app st by (rule Cons.IH [OF h None pr])
  next
    case (Some k)
    have app: "s @ concat (d # ds) = (s @ d) @ concat ds" by simp
    have "k < length (s @ d)" using Some line_end_Some_iff by blast
    then have tk: "take (k - 1) ((s @ d) @ concat ds) = take (k - 1) (s @ d)" by simp
    have "line_end (s @ concat (d # ds)) = Some k" unfolding app by (rule line_end_append [OF Some])
    moreover have "request_outcome w (s @ concat (d # ds)) k = request_outcome w (s @ d) k"
      unfolding app request_outcome_def tk ..
    moreover have "process w (map Received (d # ds) @ rs) c = run_request w k ?c"
      unfolding step Some by simp
    ultimately show ?thesis using run_request_outcome [OF h Some]
      by (simp del: process.simps list.map concat.simps)
  qed
qed

text \<open>What is left to do when all bytes \<open>s\<close> were read and the last \<open>recv\<close> returned \<open>r\<close>.\<close>

definition cgi_spec :: "cgi_env \<Rightarrow> string \<Rightarrow> recv_result \<Rightarrow> outcome" where
  "cgi_spec w s r =
     (case line_end s of
        Some k \<Rightarrow> request_outcome w s k
      | None \<Rightarrow> if r = Again \<and> length s < BUFFER_SIZE - 1 then Idle else Removed)"

lemma init_holds: "holds (init f k) []"
  by (simp add: holds_def init_def bytes_def)

lemma process_outcome:
  assumes "holds c s" "line_end s = None" "\<forall>d \<in> set ds. d \<noteq> []" "length s + length (concat ds) < BUFFER_SIZE"
    and r: "\<nexists>d. r = Received d"
  shows "fst (process w (map Received ds @ [r]) c) = cgi_spec w (s @ concat ds) r"
    and "line_end (s @ concat ds) = None \<Longrightarrow> length s + length (concat ds) < BUFFER_SIZE - 1 \<Longrightarrow> r = Again \<Longrightarrow>
      holds (snd (process w (map Received ds @ [r]) c)) (s @ concat ds)"
proof -
  note sp = process_spec [OF assms(1-4), of w "[r]"]
  let ?c = "snd (process w (map Received ds) c)"
  show "fst (process w (map Received ds @ [r]) c) = cgi_spec w (s @ concat ds) r"
  proof (cases "line_end (s @ concat ds)")
    case None
    then have p: "process w (map Received ds @ [r]) c = process w [r] ?c" "holds ?c (s @ concat ds)"
      using sp by simp_all
    then have "read_index ?c = length (s @ concat ds)" by (simp add: holds_def)
    then show ?thesis unfolding p(1) using None r assms(4)
      by (cases r) (auto simp: cgi_spec_def drop_conn_def Let_def)
  next
    case (Some k)
    then show ?thesis using sp by (simp add: cgi_spec_def)
  qed
  show "holds (snd (process w (map Received ds @ [r]) c)) (s @ concat ds)"
    if n: "line_end (s @ concat ds) = None" "length s + length (concat ds) < BUFFER_SIZE - 1" "r = Again"
  proof -
    have p: "process w (map Received ds @ [r]) c = process w [r] ?c" "holds ?c (s @ concat ds)"
      using sp n(1) by simp_all
    then have "read_index ?c = length (s @ concat ds)" by (simp add: holds_def)
    then have "process w [r] ?c = (Idle, ?c)" using n(2,3) by (auto simp: Let_def)
    then show ?thesis unfolding p(1) using p(2) by simp
  qed
qed

text \<open>Calls that each end with \<open>EAGAIN\<close> after receiving the given pieces.\<close>

definition after_calls :: "cgi_env \<Rightarrow> string list list \<Rightarrow> cgi_conn \<Rightarrow> cgi_conn" where
  "after_calls w calls c = fold (\<lambda>ds c. snd (process w (map Received ds @ [Again]) c)) calls c"

lemma line_end_prefix: "line_end (s @ t) = None \<Longrightarrow> line_end s = None"
  using line_end_append by (cases "line_end s") auto

lemma after_calls_holds:
  assumes "holds c s" "\<forall>d \<in> set (concat calls). d \<noteq> []"
    and "line_end (s @ concat (concat calls)) = None" "length s + length (concat (concat calls)) < BUFFER_SIZE - 1"
  shows "holds (after_calls w calls c) (s @ concat (concat calls))"
  using assms
proof (induction calls arbitrary: c s)
  case Nil
  then show ?case by (simp add: after_calls_def)
next
  case (Cons ds calls)
  let ?c = "snd (process w (map Received ds @ [Again]) c)"
  have n: "line_end ((s @ concat ds) @ concat (concat calls)) = None" using Cons.prems(3) by simp
  have "line_end (s @ concat ds) = None" "line_end s = None"
    using line_end_prefix [OF n] line_end_prefix [of s "concat ds"] by auto
  then have "holds ?c (s @ concat ds)"
    by (intro process_outcome(2) [OF Cons.prems(1)]) (use Cons.prems in auto)
  then have "holds (after_calls w calls ?c) ((s @ concat ds) @ concat (concat calls))"
    by (rule Cons.IH) (use Cons.prems n in auto)
  then show ?case by (simp add: after_calls_def)
qed

section \<open>Properties\<close>

text \<open>C9: \<open>process\<close> runs the first line of what the client sends, however the bytes are cut into
  pieces and calls: after any number of calls that received any pieces without a complete line
  end and left room in the buffer, the next call, whatever pieces it receives (together no more
  than the buffer takes, as \<open>recv\<close> is given the room that is left) and however its last \<open>recv\<close>
  ends, comes out as for the whole string at once: the first complete line end decides, and the
  name of the program is what precedes it, up to a zero byte; without a line end the bytes
  are kept for the next call, and when the buffer is full the connection is dropped.\<close>

theorem cgi_reads_first_line:
  assumes "\<forall>d \<in> set (concat calls @ ds). d \<noteq> []" and "length (concat (concat calls @ ds)) < BUFFER_SIZE"
    and "line_end (concat (concat calls)) = None" and "length (concat (concat calls)) < BUFFER_SIZE - 1"
    and "\<nexists>d. r = Received d"
  shows "fst (process w (map Received ds @ [r]) (after_calls w calls (init f k)))
      = cgi_spec w (concat (concat calls @ ds)) r"
proof -
  have "holds (after_calls w calls (init f k)) ([] @ concat (concat calls))"
    by (rule after_calls_holds [OF init_holds]) (use assms(1,3,4) in auto)
  then show ?thesis
    using process_outcome(1) [of "after_calls w calls (init f k)" "concat (concat calls)" ds r w] assms by simp
qed

text \<open>A line end that is cut in two, by the end of the second of three calls.\<close>

definition some_env :: cgi_env where
  "some_env = \<lparr>file_exists = (\<lambda>n. n = ''ls''), fork_result = 0\<rparr>"

theorem cgi_reads_first_line_witness:
  "fst (process some_env (map Received [[LF]] @ [Again])
      (after_calls some_env [[''l''], [''s'', [CR]]] (init 5 no_fds))) = Handed ''ls''"
proof -
  have spec: "cgi_spec some_env (concat (concat [[''l''], [''s'', [CR]]] @ [[LF]])) Again = Handed ''ls''"
    by code_simp
  have "line_end (concat (concat [[''l''], [''s'', [CR]]])) = None" by code_simp
  then show ?thesis
    using cgi_reads_first_line [of "[[''l''], [''s'', [CR]]]" "[[LF]]" Again some_env 5 no_fds] spec
    by (simp add: BUFFER_SIZE_def)
qed

end
