(* ===== verification/ProcessPool.thy ===== *)
theory ProcessPool
  imports Epoll
begin

text \<open>
  The process pool of \<open>process/processpool/processpool.h\<close>: a parent and its children, each
  with an epoll instance and a socket pair through which its signal handler reports
  signals, and for each child a socket pair to the parent. The comparison \<open>socket ==
  listenfd\<close> of \<open>run_parent\<close> names the function \<open>socket\<close>, whose address is no descriptor: the
  model takes it as false. The calls on \<open>users\<close> are commented out in the code.
\<close>

section \<open>Construction\<close>

definition MAX_PROCESS_NUM :: nat where "MAX_PROCESS_NUM = 16"

record processpool =
  process_num :: nat
  index :: int
  stop :: bool
  sub_process :: "int list"           \<comment> \<open>the field \<open>pid\<close> of each\<close>

text \<open>The loop of the constructor from \<open>i\<close>, in the process in which \<open>fork\<close> returns \<open>rs\<close>.\<close>

fun fork_all :: "nat \<Rightarrow> int list \<Rightarrow> processpool \<Rightarrow> processpool" where
  "fork_all i [] p = p"
| "fork_all i (r # rs) p =
     (let p = p\<lparr>sub_process := (sub_process p)[i := r]\<rparr>
      in if 0 < r then fork_all (Suc i) rs p else p\<lparr>index := int i\<rparr>)"

text \<open>\<open>None\<close>: the assertion fails.\<close>

definition construct :: "nat \<Rightarrow> int list \<Rightarrow> processpool option" where
  "construct n rs =
     (if 0 < n \<and> n \<le> MAX_PROCESS_NUM
      then Some (fork_all 0 (take n rs)
             \<lparr>process_num = n, index = -1, stop = False, sub_process = replicate n (-1)\<rparr>)
      else None)"

section \<open>Processes\<close>

definition SIGINT :: int where "SIGINT = 2"
definition SIGTERM :: int where "SIGTERM = 15"

text \<open>What the two kinds of processes share: the descriptors, the bytes in the signal pair and
  the rest of the array that \<open>epoll_wait\<close> filled.\<close>

record proc =
  kern :: "fd kernel"
  sigfd :: fd
  sigs :: "int list"
  pending :: "(fd \<times> mask \<times> fd) list"
  stopped :: bool                     \<comment> \<open>the field \<open>stop\<close>\<close>
  running :: bool

record child = proc +
  ch_pipefd :: fd
  ch_pipe :: "int list"               \<comment> \<open>what the parent has sent\<close>



definition sig_handler :: "int \<Rightarrow> 'a proc_scheme \<Rightarrow> 'a proc_scheme" where
  "sig_handler sig p = (if running p then p\<lparr>sigs := sigs p @ [sig]\<rparr> else p)"



section \<open>A child\<close>








section \<open>The parent and the pool\<close>

record pool =
  parent :: proc
  pids :: "int list"
  children :: "child list"



text \<open>The loop that kills the children.\<close>

definition kill_all :: "pool \<Rightarrow> pool" where
  "kill_all s = s\<lparr>children := map (\<lambda>(pid, c). if pid \<noteq> -1 then sig_handler SIGTERM c else c)
     (zip (pids s) (children s))\<rparr>"

text \<open>One byte from the signal pair of the parent; ended children are waited for, and no more.\<close>

definition parent_signal :: "int \<Rightarrow> pool \<Rightarrow> pool" where
  "parent_signal sig s = (if sig = SIGTERM \<or> sig = SIGINT then kill_all s else s)"



section \<open>Invariant\<close>




lemma sig_handler_simps [simp]: "ch_pipe (sig_handler sig c) = ch_pipe c" "stopped (sig_handler sig p) = stopped p"
  by (simp_all add: sig_handler_def)





section \<open>Which process is which\<close>

text \<open>The parent keeps \<open>index\<close> -1 only when every \<open>fork\<close> succeeded; otherwise the process takes the
  index of the first \<open>fork\<close> that did not return a process number: the children rightly, with
  0, but the parent too when a \<open>fork\<close> fails with -1, and it then runs as that child.\<close>

lemma fork_all_index:
  "index (fork_all i rs p) = (case List.find (\<lambda>r. snd r \<le> 0) (enumerate i rs) of None \<Rightarrow> index p | Some (k, r) \<Rightarrow> int k)"
  by (induction rs arbitrary: i p) (auto simp: Let_def split: option.split)

lemma constructor_index:
  assumes "construct n rs = Some p"
  shows "index p = (case List.find (\<lambda>r. snd r \<le> 0) (enumerate 0 (take n rs)) of None \<Rightarrow> -1 | Some (k, r) \<Rightarrow> int k)"
  using assms by (auto simp: construct_def fork_all_index split: if_splits option.split)

lemma failed_fork_makes_child: "map_option index (construct 8 [101, 102, -1]) = Some 2"
  by code_simp

section \<open>Ending the pool\<close>

lemma kill_all_length [simp]: "length (pids s) = length (children s) \<Longrightarrow> length (children (kill_all s)) = length (children s)"
  by (simp add: kill_all_def)


lemma fold_parent_frame: "pids (fold parent_signal ss s) = pids s"
  by (induction ss arbitrary: s) (simp_all add: parent_signal_def kill_all_def)






section \<open>Properties\<close>




end
