(* ===== verification/MutexCounter.thy ===== *)
theory MutexCounter
  imports Prelude
begin

text \<open>
  Two threads that count to 100 with a mutex (\<open>thread/synchronization/mutex/main.c\<close>): the
  main thread and the one it creates run the same loop. The increment is a load and a store,
  and the test of the loop is a single load outside the lock.
\<close>

section \<open>The threads\<close>

datatype pc =
    Create               \<comment> \<open>40: \<open>pthread_create\<close>, the main thread only\<close>
  | Unborn               \<comment> \<open>the created thread before its creation\<close>
  | Lock0                \<comment> \<open>24, 42\<close>
  | Print0               \<comment> \<open>25, 43, mutex held\<close>
  | Unlock0              \<comment> \<open>26, 44, mutex held\<close>
  | Test                 \<comment> \<open>27, 46: \<open>while(i < 100)\<close>\<close>
  | Lock                 \<comment> \<open>28, 47\<close>
  | Load                 \<comment> \<open>29, 48, mutex held: the load of \<open>++i\<close>\<close>
  | Store int            \<comment> \<open>29, 48, mutex held: the store of the incremented value\<close>
  | Print                \<comment> \<open>30, 49, mutex held\<close>
  | Unlock               \<comment> \<open>31, 50, mutex held\<close>
  | Join                 \<comment> \<open>52: \<open>pthread_join\<close>, the main thread only\<close>
  | Done                 \<comment> \<open>33, 41, 53\<close>

datatype event = Tau | First int | Counted int

record mc_sys =
  counter :: int               \<comment> \<open>the global \<open>i\<close>\<close>
  mutex :: "nat option"        \<comment> \<open>the thread that holds the mutex\<close>
  threads :: "pc list"         \<comment> \<open>0: the main thread, 1: the created one\<close>

abbreviation goto :: "nat \<Rightarrow> pc \<Rightarrow> mc_sys \<Rightarrow> mc_sys" where
  "goto k pc s \<equiv> s\<lparr>threads := (threads s)[k := pc]\<rparr>"

definition MC_LIMIT :: int where "MC_LIMIT = 100"

text \<open>The end of the counting loop: the main thread joins, the other one returns.\<close>

definition after_loop :: "nat \<Rightarrow> pc" where
  "after_loop k = (if k = 0 then Join else Done)"

text \<open>
  \<open>thread_handler\<close> and the same statements in \<open>main\<close>, from the first lock to the end of the
  loop. \<open>None\<close>: the thread waits.
\<close>

definition thread_handler :: "nat \<Rightarrow> mc_sys \<Rightarrow> (event \<times> mc_sys) option" where
  "thread_handler k s =
     (case threads s ! k of
        Lock0 \<Rightarrow>
          if mutex s = None then Some (Tau, (goto k Print0 s)\<lparr>mutex := Some k\<rparr>) else None
      | Print0 \<Rightarrow> Some (First (counter s), goto k Unlock0 s)
      | Unlock0 \<Rightarrow> Some (Tau, (goto k Test s)\<lparr>mutex := None\<rparr>)
      | Test \<Rightarrow>
          if counter s < MC_LIMIT then Some (Tau, goto k Lock s)
          else Some (Tau, goto k (after_loop k) s)
      | Lock \<Rightarrow>
          if mutex s = None then Some (Tau, (goto k Load s)\<lparr>mutex := Some k\<rparr>) else None
      | Load \<Rightarrow> Some (Tau, goto k (Store (counter s + 1)) s)
      | Store v \<Rightarrow> Some (Tau, (goto k Print s)\<lparr>counter := v\<rparr>)
      | Print \<Rightarrow> Some (Counted (counter s), goto k Unlock s)
      | Unlock \<Rightarrow> Some (Tau, (goto k Test s)\<lparr>mutex := None\<rparr>)
      | _ \<Rightarrow> None)"

text \<open>The rest of \<open>main\<close>: the creation, which may fail, and the join.\<close>

definition mc_main :: "bool \<Rightarrow> mc_sys \<Rightarrow> (event \<times> mc_sys) option" where
  "mc_main created s =
     (case threads s ! 0 of
        Create \<Rightarrow>
          if created then Some (Tau, goto 0 Lock0 (goto 1 Lock0 s))
          else Some (Tau, goto 0 Done s)
      | Join \<Rightarrow> if threads s ! 1 = Done then Some (Tau, goto 0 Done s) else None
      | _ \<Rightarrow> None)"

inductive mc_step :: "mc_sys \<Rightarrow> event \<Rightarrow> mc_sys \<Rightarrow> bool" where
  thread: "k < 2 \<Longrightarrow> thread_handler k s = Some (e, t) \<Longrightarrow> mc_step s e t"
| main: "mc_main c s = Some (e, t) \<Longrightarrow> mc_step s e t"

definition mc_start :: mc_sys where
  "mc_start = \<lparr>counter = 0, mutex = None, threads = [Create, Unborn]\<rparr>"

text \<open>The process has ended: the main thread has returned.\<close>

definition mc_over :: "mc_sys \<Rightarrow> bool" where
  "mc_over s \<longleftrightarrow> threads s ! 0 = Done"

section \<open>The invariant\<close>

text \<open>The program counters that hold the mutex, and those past a successful test.\<close>

fun locked :: "pc \<Rightarrow> bool" where
  "locked Print0 = True" | "locked Unlock0 = True" | "locked Load = True"
| "locked (Store v) = True" | "locked Print = True" | "locked Unlock = True"
| "locked _ = False"

fun committed :: "pc \<Rightarrow> int" where
  "committed Lock = 1" | "committed Load = 1" | "committed (Store v) = 1"
| "committed _ = 0"

definition printing :: "pc \<Rightarrow> int" where
  "printing pc = (if pc = Print then 1 else 0)"

text \<open>What a thread at \<open>pc\<close> knows of the counter.\<close>

fun knows :: "int \<Rightarrow> pc \<Rightarrow> bool" where
  "knows i (Store v) = (v = i + 1)"
| "knows i Print = (1 \<le> i)"
| "knows i Join = (MC_LIMIT \<le> i)"
| "knows i _ = True"

definition roles :: "int \<Rightarrow> pc \<Rightarrow> pc \<Rightarrow> bool" where
  "roles i a b \<longleftrightarrow>
     (a = Create \<or> a = Done) \<and> b = Unborn \<and> i = 0
     \<or> a = Done \<and> b = Done \<and> MC_LIMIT \<le> i
     \<or> a \<notin> {Create, Unborn, Done} \<and> b \<notin> {Create, Unborn, Join} \<and> (b = Done \<longrightarrow> MC_LIMIT \<le> i)"

definition mc_ok :: "nat option \<Rightarrow> int \<Rightarrow> pc \<Rightarrow> pc \<Rightarrow> bool" where
  "mc_ok h i a b \<longleftrightarrow>
     (locked a \<longleftrightarrow> h = Some 0) \<and> (locked b \<longleftrightarrow> h = Some 1) \<and> (h = None \<or> h = Some 0 \<or> h = Some 1)
     \<and> knows i a \<and> knows i b \<and> 0 \<le> i \<and> i + committed a + committed b \<le> MC_LIMIT + 1
     \<and> roles i a b"

definition mc_inv :: "mc_sys \<Rightarrow> bool" where
  "mc_inv s \<longleftrightarrow> (\<exists>a b. threads s = [a, b] \<and> mc_ok (mutex s) (counter s) a b)"

lemma committed_bounds: "0 \<le> committed pc \<and> committed pc \<le> 1"
  by (cases pc) auto

lemma knows_suc: "knows i pc \<Longrightarrow> \<not> locked pc \<Longrightarrow> knows (i + 1) pc"
  by (cases pc) auto

lemma printing_unlocked: "\<not> locked pc \<Longrightarrow> printing pc = 0"
  by (cases pc) (auto simp: printing_def)

lemma mc_start_inv: "mc_inv mc_start"
  by (simp add: mc_inv_def mc_start_def mc_ok_def roles_def MC_LIMIT_def)

text \<open>The values still to be printed: the next one to the greatest possible.\<close>

definition mc_next :: "mc_sys \<Rightarrow> int" where
  "mc_next s = counter s + 1 - sum_list (map printing (threads s))"

definition unprinted :: "mc_sys \<Rightarrow> int list" where
  "unprinted s = [mc_next s .. MC_LIMIT + 1]"

fun counted :: "event \<Rightarrow> int list" where
  "counted (Counted v) = [v]"
| "counted _ = []"

text \<open>The number of steps a thread can still take in its present iteration.\<close>

fun rank :: "pc \<Rightarrow> int" where
  "rank Create = 13" | "rank Unborn = 0" | "rank Lock0 = 6" | "rank Print0 = 5" | "rank Unlock0 = 4"
| "rank Test = 3" | "rank Lock = 2" | "rank Load = 1" | "rank (Store v) = 0"
| "rank Print = 5" | "rank Unlock = 4" | "rank Join = 1" | "rank Done = 0"

definition mc_measure :: "mc_sys \<Rightarrow> int" where
  "mc_measure s = 6 * (MC_LIMIT + 1 - counter s) + sum_list (map rank (threads s))"

text \<open>How one step moves the next value to be printed.\<close>

definition advances :: "event \<Rightarrow> int \<Rightarrow> int \<Rightarrow> bool" where
  "advances e n m \<longleftrightarrow>
     (case e of Counted v \<Rightarrow> v = n \<and> m = n + 1 \<and> n \<le> MC_LIMIT + 1 | _ \<Rightarrow> m = n)"

lemma advances_unprinted:
  "advances e (mc_next s) (mc_next t) \<Longrightarrow> counted e @ unprinted t = unprinted s"
  by (cases e) (auto simp: advances_def unprinted_def upto_rec1 [of "mc_next s"])

text \<open>One step, by the thread that takes it.\<close>

lemma mc_invI: "threads t = [a, b] \<Longrightarrow> mc_ok (mutex t) (counter t) a b \<Longrightarrow> mc_inv t"
  by (auto simp: mc_inv_def)

lemmas mc_defs = mc_ok_def roles_def MC_LIMIT_def after_loop_def

lemma main_thread_ok:
  assumes "thread_handler 0 s = Some (e, t)" "threads s = [a, b]" "mc_ok (mutex s) (counter s) a b"
  shows "\<exists>a'. threads t = [a', b] \<and> mc_ok (mutex t) (counter t) a' b"
  using assms committed_bounds [of b] knows_suc [of "counter s" b]
  by (cases a; simp add: thread_handler_def split: if_splits; clarify; simp add: mc_defs; auto)

lemma sub_thread_ok:
  assumes "thread_handler 1 s = Some (e, t)" "threads s = [a, b]" "mc_ok (mutex s) (counter s) a b"
  shows "\<exists>b'. threads t = [a, b'] \<and> mc_ok (mutex t) (counter t) a b'"
  using assms committed_bounds [of a] knows_suc [of "counter s" a]
  by (cases b; simp add: thread_handler_def split: if_splits; clarify; simp add: mc_defs; auto)

lemma main_thread_moves:
  assumes "thread_handler 0 s = Some (e, t)" "threads s = [a, b]" "mc_ok (mutex s) (counter s) a b"
  shows "advances e (mc_next s) (mc_next t) \<and> mc_measure t < mc_measure s"
  using assms committed_bounds [of b] printing_unlocked [of b]
  by (cases a; simp add: thread_handler_def split: if_splits; clarify;
      simp add: mc_defs advances_def mc_next_def mc_measure_def; simp add: printing_def)

lemma sub_thread_moves:
  assumes "thread_handler 1 s = Some (e, t)" "threads s = [a, b]" "mc_ok (mutex s) (counter s) a b"
  shows "advances e (mc_next s) (mc_next t) \<and> mc_measure t < mc_measure s"
  using assms committed_bounds [of a] printing_unlocked [of a]
  by (cases b; simp add: thread_handler_def split: if_splits; clarify;
      simp add: mc_defs advances_def mc_next_def mc_measure_def; simp add: printing_def)

lemma mc_main_moves:
  assumes "mc_main c s = Some (e, t)" "threads s = [a, b]" "mc_ok (mutex s) (counter s) a b"
  shows "mc_inv t \<and> advances e (mc_next s) (mc_next t) \<and> mc_measure t < mc_measure s"
  using assms
  by (cases a; simp add: mc_main_def split: if_splits; clarify;
      simp add: mc_defs mc_inv_def advances_def mc_next_def mc_measure_def; simp add: printing_def)

lemma mc_step_ok:
  assumes step: "mc_step s e t" and inv: "mc_inv s"
  shows "mc_inv t \<and> advances e (mc_next s) (mc_next t) \<and> mc_measure t < mc_measure s"
proof -
  obtain a b where s: "threads s = [a, b]" and ok: "mc_ok (mutex s) (counter s) a b"
    using inv by (auto simp: mc_inv_def)
  from step show ?thesis
  proof cases
    case (thread k)
    then consider "thread_handler 0 s = Some (e, t)" | "thread_handler 1 s = Some (e, t)"
      by (auto simp: less_2_cases_iff)
    then show ?thesis
    proof cases
      case 1
      then show ?thesis
        using main_thread_ok [OF 1 s ok] main_thread_moves [OF 1 s ok] by (auto intro: mc_invI)
    next
      case 2
      then show ?thesis
        using sub_thread_ok [OF 2 s ok] sub_thread_moves [OF 2 s ok] by (auto intro: mc_invI)
    qed
  qed (use mc_main_moves [OF _ s ok] in auto)
qed

interpretation mc: conserving_system mc_step mc_inv "\<lambda>_. []" counted unprinted
  by unfold_locales (use mc_step_ok advances_unprinted in auto)

section \<open>Progress\<close>

lemma handler_moves:
  assumes "threads s ! k = pc" "mutex s = None \<or> locked pc"
    and "pc \<notin> {Create, Unborn, Join, Done}"
  shows "\<exists>e t. thread_handler k s = Some (e, t)"
  using assms by (cases pc) (auto simp: thread_handler_def)

lemma mc_can_step:
  assumes inv: "mc_inv s" and "\<not> mc_over s"
  shows "\<exists>e t. mc_step s e t"
proof -
  obtain a b where s: "threads s = [a, b]" and ok: "mc_ok (mutex s) (counter s) a b"
    using inv by (auto simp: mc_inv_def)
  have ab: "threads s ! 0 = a" "threads s ! 1 = b" using s by simp_all
  have "a \<noteq> Done" using assms(2) s by (simp add: mc_over_def)
  with ok consider (create) "a = Create" | (join) "a = Join" "b = Done"
    | (main) "a \<notin> {Create, Unborn, Join, Done}" "mutex s = None \<or> locked a"
    | (sub) "b \<notin> {Create, Unborn, Join, Done}" "mutex s = None \<or> locked b"
    by (cases a; cases b) (auto simp: mc_ok_def roles_def)
  then show ?thesis
  proof cases
    case create
    then have "mc_main False s = Some (Tau, goto 0 Done s)" using s by (simp add: mc_main_def)
    then show ?thesis by (blast intro: mc_step.main)
  next
    case join
    then have "mc_main False s = Some (Tau, goto 0 Done s)" using s by (simp add: mc_main_def)
    then show ?thesis by (blast intro: mc_step.main)
  next
    case main
    then obtain e t where "thread_handler 0 s = Some (e, t)"
      using handler_moves [OF ab(1)] by blast
    then have "mc_step s e t" using mc_step.thread [of 0] by simp
    then show ?thesis by blast
  next
    case sub
    then obtain e t where "thread_handler 1 s = Some (e, t)"
      using handler_moves [OF ab(2)] by blast
    then have "mc_step s e t" using mc_step.thread [of 1] by simp
    then show ?thesis by blast
  qed
qed

lemma mc_run_inv: "runs mc_step mc_start ls t \<Longrightarrow> mc_inv t"
  using mc.run_preserves mc_start_inv by blast

lemma mc_run_length:
  "runs mc_step s ls t \<Longrightarrow> mc_inv s \<Longrightarrow> int (length ls) + mc_measure t \<le> mc_measure s"
proof (induction rule: runs.induct)
  case (snoc s ls t l u)
  have "mc_inv t" by (rule mc.run_preserves [OF snoc.hyps(1) snoc.prems])
  then have "mc_measure u < mc_measure t" using mc_step_ok [OF snoc.hyps(2)] by blast
  then show ?case using snoc.IH [OF snoc.prems] by simp
qed simp

lemma mc_measure_nonneg:
  assumes "mc_inv s"
  shows "0 \<le> mc_measure s"
proof -
  obtain a b where s: "threads s = [a, b]" and ok: "mc_ok (mutex s) (counter s) a b"
    using assms by (auto simp: mc_inv_def)
  have "0 \<le> rank a" "0 \<le> rank b" by (cases a; simp) (cases b; simp)
  then show ?thesis
    using s ok committed_bounds [of a] committed_bounds [of b]
    by (simp add: mc_measure_def mc_ok_def)
qed

section \<open>The last value\<close>

text \<open>Runs from a schedule: 0 and 1 are the threads' loops, 2 is the rest of \<open>main\<close>.\<close>

definition mc_follow :: "nat \<Rightarrow> mc_sys \<Rightarrow> (event \<times> mc_sys) option" where
  "mc_follow k s = (if k < 2 then thread_handler k s else mc_main (k = 2) s)"

lemma mc_follow_step: "mc_follow k s = Some (e, t) \<Longrightarrow> mc_step s e t"
  by (cases "k < 2") (auto simp: mc_follow_def intro: mc_step.intros)

lemma mc_follow_runs: "follow mc_follow cs s = Some (ls, t) \<Longrightarrow> runs mc_step s ls t"
  by (rule follow_runs [of mc_follow]) (rule mc_follow_step)

text \<open>One iteration of the main thread while the other one stands at the test.\<close>

abbreviation at_test :: "int \<Rightarrow> mc_sys" where
  "at_test n \<equiv> \<lparr>counter = n, mutex = None, threads = [Test, Test]\<rparr>"

lemma main_iterates:
  assumes "n < MC_LIMIT"
  shows "runs mc_step (at_test n) [Tau, Tau, Tau, Tau, Counted (n + 1), Tau] (at_test (n + 1))"
  by (rule mc_follow_runs [of "[0, 0, 0, 0, 0, 0]"])
    (use assms in \<open>simp add: mc_follow_def thread_handler_def\<close>)

lemma main_counts_alone:
  "int k \<le> MC_LIMIT \<Longrightarrow> \<exists>ls. runs mc_step (at_test 0) ls (at_test (int k))"
proof (induction k)
  case (Suc k)
  then obtain ls where "runs mc_step (at_test 0) ls (at_test (int k))" by auto
  from runs_trans [OF this main_iterates] Suc.prems show ?case
    by (auto simp: add.commute)
qed (auto intro: runs.refl)

section \<open>Properties\<close>

lemma upto_cut: "1 \<le> (n::int) \<Longrightarrow> n \<le> m + 1 \<Longrightarrow> [1 .. m] = [1 .. n - 1] @ [n .. m]"
  by (cases "n = m + 1") (simp_all add: upto_split1)

text \<open>C12: whatever the schedule, the values printed by the counting loops are 1, 2, 3 and so on,
  none missing and none repeated, in spite of the test outside the lock; the counter never
  passes 101, and a finished process has printed exactly the values up to a counter that is
  100 or 101 (0 when the thread could not be created).
\<close>

theorem mutex_counts:
  assumes "runs mc_step mc_start ls t"
  shows "counter t \<le> 101
    \<and> (\<exists>n. concat (map counted ls) = [1 .. n] \<and> (n = counter t \<or> n = counter t - 1))
    \<and> (mc_over t \<longrightarrow> concat (map counted ls) = [1 .. counter t] \<and> counter t \<in> {0, 100, 101})"
proof -
  obtain a b where s: "threads t = [a, b]" and ok: "mc_ok (mutex t) (counter t) a b"
    using mc_run_inv [OF assms] by (auto simp: mc_inv_def)
  have low: "0 \<le> counter t" using ok by (simp add: mc_ok_def)
  have le: "counter t \<le> 101" using ok committed_bounds [of a] committed_bounds [of b]
    by (simp add: mc_ok_def MC_LIMIT_def)
  have pr: "printing a + printing b \<in> {0, 1}"
    using ok printing_unlocked [of a] printing_unlocked [of b] by (auto simp: mc_ok_def printing_def)
  have one: "printing a + printing b = 1 \<Longrightarrow> 1 \<le> counter t"
    using ok by (auto simp: mc_ok_def printing_def split: if_splits)
  have nxt: "mc_next t = counter t + 1 - (printing a + printing b)" using s by (simp add: mc_next_def)
  have "concat (map counted ls) @ unprinted t = unprinted mc_start"
    using mc.run_conserves [OF assms mc_start_inv] by simp
  moreover have "unprinted mc_start = [1 .. 101]"
    by (simp add: unprinted_def mc_next_def mc_start_def printing_def MC_LIMIT_def)
  moreover have "[1 .. 101] = [1 .. mc_next t - 1] @ unprinted t"
    unfolding unprinted_def MC_LIMIT_def 
    using upto_cut [of "mc_next t" 101] nxt pr le low one by auto
  ultimately have out: "concat (map counted ls) = [1 .. mc_next t - 1]" by (metis append_same_eq)
  have nxt2: "mc_next t - 1 = counter t \<or> mc_next t - 1 = counter t - 1" using nxt pr by auto
  have over: "mc_next t - 1 = counter t \<and> counter t \<in> {0, 100, 101}" if "mc_over t"
  proof -
    have "printing a + printing b = 0 \<and> counter t \<in> {0, 100, 101}"
      using that s ok le by (auto simp: mc_over_def mc_ok_def roles_def MC_LIMIT_def printing_def)
    then show ?thesis using nxt by linarith
  qed
  show ?thesis using out le nxt2 over by metis
qed

text \<open>A schedule that creates the thread and takes both threads to the test.\<close>

definition both_start :: "nat list" where
  "both_start = [2, 0, 0, 0, 1, 1, 1]"

lemma mutex_counts_witness:
  "\<exists>t. runs mc_step mc_start [Tau, Tau, First 0, Tau, Tau, First 0, Tau] t
     \<and> counter t \<le> 101"
proof -
  have "follow mc_follow both_start mc_start
      = Some ([Tau, Tau, First 0, Tau, Tau, First 0, Tau], at_test 0)"
    by (simp add: both_start_def mc_start_def mc_follow_def mc_main_def thread_handler_def)
  then have r: "runs mc_step mc_start [Tau, Tau, First 0, Tau, Tau, First 0, Tau] (at_test 0)"
    by (rule mc_follow_runs)
  from mutex_counts [OF r] r show ?thesis by blast
qed

text \<open>The test outside the lock lets the counter overshoot the limit: there is a run in which
  both threads pass the test at 99, the process ends and has printed 101.
\<close>

theorem mutex_overshoots:
  "\<exists>ls t. runs mc_step mc_start ls t \<and> mc_over t \<and> counter t = 101 \<and> Counted 101 \<in> set ls"
proof -
  let ?cs = "[0, 1, 0, 0, 0, 0, 0, 1, 1, 1, 1, 1, 0, 1, 2::nat]"
  have f: "follow mc_follow both_start mc_start
      = Some ([Tau, Tau, First 0, Tau, Tau, First 0, Tau], at_test 0)"
    by (simp add: both_start_def mc_start_def mc_follow_def mc_main_def thread_handler_def)
  obtain ls where to_99: "runs mc_step (at_test 0) ls (at_test 99)"
    using main_counts_alone [of 99] by (auto simp: MC_LIMIT_def)
  have "follow mc_follow ?cs (at_test 99)
      = Some ([Tau, Tau, Tau, Tau, Tau, Counted 100, Tau, Tau, Tau, Tau, Counted 101, Tau, Tau, Tau, Tau],
          \<lparr>counter = 101, mutex = None, threads = [Done, Done]\<rparr>)"
    by (simp add: mc_follow_def mc_main_def thread_handler_def MC_LIMIT_def after_loop_def)
  from runs_trans [OF runs_trans [OF mc_follow_runs [OF f] to_99] mc_follow_runs [OF this]]
  show ?thesis by (rule_tac exI, rule_tac exI, rule_tac conjI, assumption) (simp add: mc_over_def)
qed

text \<open>C35: the program ends under every schedule: until it is over some thread can move, and no run
  is longer than 619 steps.
\<close>

theorem mutex_terminates:
  assumes "runs mc_step mc_start ls t"
  shows "length ls \<le> 619 \<and> (mc_over t \<or> (\<exists>e u. mc_step t e u))"
proof -
  have inv: "mc_inv t" by (rule mc_run_inv [OF assms])
  have "mc_measure mc_start = 619" by (simp add: mc_measure_def mc_start_def MC_LIMIT_def)
  then have "length ls \<le> 619"
    using mc_run_length [OF assms mc_start_inv] mc_measure_nonneg [OF inv] by simp
  then show ?thesis using mc_can_step [OF inv] by blast
qed

lemma mutex_terminates_witness:
  "\<exists>e u. mc_step mc_start e u"
  using mutex_terminates [OF runs.refl] by (simp add: mc_over_def mc_start_def)

end
