(* ===== verification/Handshake.thy ===== *)
theory Handshake
  imports Prelude
begin

text \<open>
  The handshake of \<open>thread/thread_create/main.c\<close>: the created thread prints a variable of
  \<open>main\<close>, tells it by \<open>sem2\<close>, waits on \<open>sem1\<close> while \<open>main\<close> increments the variable, and
  prints it again. The increment is a load and a store.
\<close>

section \<open>The two threads\<close>

datatype line = ThreadPid | ThreadId | Arg int | MainId | ChildId | MainPid | Over

datatype child_pc =
    Absent               \<comment> \<open>not created\<close>
  | C32 | C33 | C34      \<comment> \<open>the first three lines are printed\<close>
  | C35                  \<comment> \<open>\<open>sem_post(&sem2)\<close>\<close>
  | C36                  \<comment> \<open>\<open>sem_wait(&sem1)\<close>\<close>
  | C37                  \<comment> \<open>the argument is printed again\<close>
  | CEnd

datatype main_pc =
    M47                  \<comment> \<open>\<open>pthread_create\<close>\<close>
  | M48 | M49 | M50      \<comment> \<open>three lines are printed\<close>
  | M51                  \<comment> \<open>\<open>sem_wait(&sem2)\<close>\<close>
  | M52                  \<comment> \<open>the load of \<open>++n\<close>\<close>
  | M52s int             \<comment> \<open>its store\<close>
  | M53                  \<comment> \<open>\<open>sem_post(&sem1)\<close>\<close>
  | M54                  \<comment> \<open>\<open>pthread_join\<close>\<close>
  | M55 | M56            \<comment> \<open>\<open>sem_destroy\<close>\<close>
  | M58                  \<comment> \<open>the last line is printed\<close>
  | MEnd

record hs_sys =
  n_var :: int           \<comment> \<open>the local \<open>n\<close> of \<open>main\<close>, which \<open>arg\<close> points to\<close>
  sem1 :: nat
  sem2 :: nat
  child :: child_pc
  main_at :: main_pc

type_synonym hs_event = "line option"

definition th_fun :: "hs_sys \<Rightarrow> (hs_event \<times> hs_sys) option" where
  "th_fun s =
     (case child s of
        C32 \<Rightarrow> Some (Some ThreadPid, s\<lparr>child := C33\<rparr>)
      | C33 \<Rightarrow> Some (Some ThreadId, s\<lparr>child := C34\<rparr>)
      | C34 \<Rightarrow> Some (Some (Arg (n_var s)), s\<lparr>child := C35\<rparr>)
      | C35 \<Rightarrow> Some (None, s\<lparr>sem2 := sem2 s + 1, child := C36\<rparr>)
      | C36 \<Rightarrow> if 0 < sem1 s then Some (None, s\<lparr>sem1 := sem1 s - 1, child := C37\<rparr>) else None
      | C37 \<Rightarrow> Some (Some (Arg (n_var s)), s\<lparr>child := CEnd\<rparr>)
      | _ \<Rightarrow> None)"

text \<open>\<open>main\<close> ignores the result of \<open>pthread_create\<close>, \<open>created\<close>.\<close>

definition hs_main :: "bool \<Rightarrow> hs_sys \<Rightarrow> (hs_event \<times> hs_sys) option" where
  "hs_main created s =
     (case main_at s of
        M47 \<Rightarrow> Some (None, s\<lparr>child := (if created then C32 else Absent), main_at := M48\<rparr>)
      | M48 \<Rightarrow> Some (Some MainId, s\<lparr>main_at := M49\<rparr>)
      | M49 \<Rightarrow> Some (Some ChildId, s\<lparr>main_at := M50\<rparr>)
      | M50 \<Rightarrow> Some (Some MainPid, s\<lparr>main_at := M51\<rparr>)
      | M51 \<Rightarrow> if 0 < sem2 s then Some (None, s\<lparr>sem2 := sem2 s - 1, main_at := M52\<rparr>) else None
      | M52 \<Rightarrow> Some (None, s\<lparr>main_at := M52s (n_var s + 1)\<rparr>)
      | M52s v \<Rightarrow> Some (None, s\<lparr>n_var := v, main_at := M53\<rparr>)
      | M53 \<Rightarrow> Some (None, s\<lparr>sem1 := sem1 s + 1, main_at := M54\<rparr>)
      | M54 \<Rightarrow> if child s = CEnd then Some (None, s\<lparr>main_at := M55\<rparr>) else None
      | M55 \<Rightarrow> Some (None, s\<lparr>main_at := M56\<rparr>)
      | M56 \<Rightarrow> Some (None, s\<lparr>main_at := M58\<rparr>)
      | M58 \<Rightarrow> Some (Some Over, s\<lparr>main_at := MEnd\<rparr>)
      | MEnd \<Rightarrow> None)"

definition hs_start :: hs_sys where
  "hs_start = \<lparr>n_var = 10, sem1 = 0, sem2 = 0, child = Absent, main_at = M47\<rparr>"

text \<open>\<open>created\<close> is what \<open>pthread_create\<close> answers; a returned \<open>main\<close> ends the process.\<close>

inductive hs_step :: "bool \<Rightarrow> hs_sys \<Rightarrow> hs_event \<Rightarrow> hs_sys \<Rightarrow> bool" for created where
  child: "main_at s \<noteq> MEnd \<Longrightarrow> th_fun s = Some (e, t) \<Longrightarrow> hs_step created s e t"
| main: "hs_main created s = Some (e, t) \<Longrightarrow> hs_step created s e t"

section \<open>The invariant\<close>

text \<open>What both know in each phase of \<open>main\<close>: before, during and after the increment.\<close>

fun early :: "main_pc \<Rightarrow> bool" where
  "early M48 = True" | "early M49 = True" | "early M50 = True" | "early M51 = True" | "early _ = False"

definition before_wait :: "hs_sys \<Rightarrow> bool" where
  "before_wait s \<longleftrightarrow> n_var s = 10 \<and> sem1 s = 0 \<and> child s \<noteq> C37 \<and> child s \<noteq> CEnd
     \<and> sem2 s = (if child s = C36 then 1 else 0)"

definition quiet :: "hs_sys \<Rightarrow> bool" where
  "quiet s \<longleftrightarrow> sem1 s = 0 \<and> sem2 s = 0 \<and> child s = C36"

definition after_post :: "hs_sys \<Rightarrow> bool" where
  "after_post s \<longleftrightarrow> n_var s = 11 \<and> sem2 s = 0
     \<and> (child s = C36 \<and> sem1 s = 1 \<or> (child s = C37 \<or> child s = CEnd) \<and> sem1 s = 0)"

definition hs_inv :: "bool \<Rightarrow> hs_sys \<Rightarrow> bool" where
  "hs_inv created s \<longleftrightarrow>
     (case main_at s of
        M47 \<Rightarrow> s = hs_start
      | M52 \<Rightarrow> quiet s \<and> n_var s = 10
      | M52s v \<Rightarrow> quiet s \<and> n_var s = 10 \<and> v = 11
      | M53 \<Rightarrow> quiet s \<and> n_var s = 11
      | M54 \<Rightarrow> after_post s
      | m \<Rightarrow> if early m then before_wait s \<and> (child s = Absent \<longleftrightarrow> \<not> created)
             else after_post s \<and> child s = CEnd)
     \<and> (\<not> created \<longrightarrow> child s = Absent)"

text \<open>The values of the argument still to be printed, and the steps still to be taken.\<close>

definition to_print :: "hs_sys \<Rightarrow> int list" where
  "to_print s =
     (case child s of C35 \<Rightarrow> [11] | C36 \<Rightarrow> [11] | C37 \<Rightarrow> [11] | CEnd \<Rightarrow> [] | _ \<Rightarrow> [10, 11])"

fun args :: "hs_event \<Rightarrow> int list" where
  "args (Some (Arg v)) = [v]"
| "args _ = []"

fun child_left :: "child_pc \<Rightarrow> nat" where
  "child_left Absent = 0" | "child_left C32 = 6" | "child_left C33 = 5" | "child_left C34 = 4"
| "child_left C35 = 3" | "child_left C36 = 2" | "child_left C37 = 1" | "child_left CEnd = 0"

fun main_left :: "main_pc \<Rightarrow> nat" where
  "main_left M47 = 19" | "main_left M48 = 12" | "main_left M49 = 11" | "main_left M50 = 10"
| "main_left M51 = 9" | "main_left M52 = 8" | "main_left (M52s v) = 7" | "main_left M53 = 6"
| "main_left M54 = 5" | "main_left M55 = 4" | "main_left M56 = 3" | "main_left M58 = 2"
| "main_left MEnd = 0"

definition hs_left :: "hs_sys \<Rightarrow> nat" where
  "hs_left s = child_left (child s) + main_left (main_at s)"

lemmas hs_defs = hs_inv_def before_wait_def quiet_def after_post_def to_print_def hs_left_def hs_start_def

lemma child_ok:
  assumes "th_fun s = Some (e, t)" "hs_inv c s"
  shows "hs_inv c t \<and> args e @ to_print t = to_print s \<and> hs_left t < hs_left s"
  using assms
  by (cases "child s"; cases "main_at s"; simp add: th_fun_def split: if_splits; clarify; simp add: hs_defs)

lemma main_ok:
  assumes "hs_main c s = Some (e, t)" "hs_inv c s"
  shows "hs_inv c t \<and> args e @ to_print t = to_print s \<and> hs_left t < hs_left s"
  using assms
  by (cases "main_at s"; simp add: hs_main_def split: if_splits; clarify; simp add: hs_defs split: if_splits)

lemma hs_step_ok:
  assumes "hs_step c s e t" "hs_inv c s"
  shows "hs_inv c t \<and> args e @ to_print t = to_print s \<and> hs_left t < hs_left s"
  using assms(1) by cases (use assms(2) child_ok main_ok in blast)+

interpretation hs: conserving_system "hs_step c" "hs_inv c" "\<lambda>_. []" args to_print
  by unfold_locales (use hs_step_ok in auto)

lemma hs_start_inv: "hs_inv c hs_start"
  by (simp add: hs_inv_def hs_start_def)

lemma hs_run_inv: "runs (hs_step c) hs_start ls t \<Longrightarrow> hs_inv c t"
  using hs.run_preserves hs_start_inv by blast

lemma hs_run_left:
  "runs (hs_step c) s ls t \<Longrightarrow> hs_inv c s \<Longrightarrow> length ls + hs_left t \<le> hs_left s"
proof (induction rule: runs.induct)
  case (snoc s ls t l u)
  have "hs_inv c t" by (rule hs.run_preserves [OF snoc.hyps(1) snoc.prems])
  then have "hs_left u < hs_left t" using hs_step_ok [OF snoc.hyps(2)] by blast
  then show ?case using snoc.IH [OF snoc.prems] by simp
qed simp

text \<open>Who can move, phase by phase.\<close>

lemma hs_can_step:
  assumes inv: "hs_inv True s" and "main_at s \<noteq> MEnd"
  shows "\<exists>e t. hs_step True s e t"
proof -
  have "(\<exists>e t. th_fun s = Some (e, t)) \<or> (\<exists>e t. hs_main True s = Some (e, t))"
  proof (cases "hs_main True s = None")
    case True
    then have "main_at s = M51 \<and> sem2 s = 0 \<or> main_at s = M54 \<and> child s \<noteq> CEnd"
      using assms(2) by (cases "main_at s") (auto simp: hs_main_def split: if_splits)
    then show ?thesis using inv
      by (cases "child s") (auto simp: hs_defs th_fun_def split: if_splits)
  qed auto
  then show ?thesis using assms(2) by (blast intro: hs_step.intros)
qed

definition hs_follow :: "bool \<Rightarrow> bool \<Rightarrow> hs_sys \<Rightarrow> (hs_event \<times> hs_sys) option" where
  "hs_follow c who s =
     (if who then hs_main c s else if main_at s = MEnd then None else th_fun s)"

lemma hs_follow_step: "hs_follow c who s = Some (e, t) \<Longrightarrow> hs_step c s e t"
  by (cases who) (auto simp: hs_follow_def intro: hs_step.intros split: if_splits)

lemma hs_follow_runs: "follow (hs_follow c) cs s = Some (ls, t) \<Longrightarrow> runs (hs_step c) s ls t"
  by (rule follow_runs [of "hs_follow c"]) (rule hs_follow_step)

section \<open>Properties\<close>

text \<open>C36: the two semaphores order the accesses: under every schedule the created thread prints 10
  first and 11 second, and when the process has ended it has printed both; the process does
  not end if the thread was not created.
\<close>

theorem handshake_prints:
  assumes "runs (hs_step created) hs_start ls t"
  shows "concat (map args ls) \<in> {[], [10], [10, 11]}
    \<and> (main_at t = MEnd \<longrightarrow> created \<and> concat (map args ls) = [10, 11])"
proof -
  have inv: "hs_inv created t" by (rule hs_run_inv [OF assms])
  have eq: "concat (map args ls) @ to_print t = [10, 11]"
    using hs.run_conserves [OF assms hs_start_inv] by (simp add: to_print_def hs_start_def)
  moreover have "to_print t \<in> {[], [11], [10, 11]}"
    by (cases "child t") (auto simp: to_print_def)
  ultimately have "concat (map args ls) \<in> {[], [10], [10, 11]}"
    by (auto simp: append_eq_Cons_conv)
  moreover have "created \<and> to_print t = []" if "main_at t = MEnd"
    using inv that by (auto simp: hs_inv_def to_print_def split: if_splits)
  ultimately show ?thesis using eq by auto
qed

lemma handshake_prints_witness:
  "\<exists>ls t. runs (hs_step True) hs_start ls t \<and> main_at t = MEnd
    \<and> (True \<and> concat (map args ls) = [10, 11])"
proof -
  let ?cs = "[True, False, True, False, True, False, False, True, True, True, True, True, False, False,
    True, True, True, True]"
  obtain ls t where f: "follow (hs_follow True) ?cs hs_start = Some (ls, t)" and "main_at t = MEnd"
    by (simp add: hs_follow_def hs_main_def th_fun_def hs_start_def)
  with handshake_prints [OF hs_follow_runs [OF f]] hs_follow_runs [OF f] show ?thesis by blast
qed

text \<open>When the thread was created the handshake never blocks for good: until \<open>main\<close> has
  returned some thread can move, and no run is longer than 19 steps.
\<close>

theorem handshake_ends:
  assumes "runs (hs_step True) hs_start ls t"
  shows "length ls \<le> 19 \<and> (main_at t = MEnd \<or> (\<exists>e u. hs_step True t e u))"
proof -
  have "length ls \<le> 19"
    using hs_run_left [OF assms hs_start_inv] by (simp add: hs_left_def hs_start_def)
  then show ?thesis using hs_can_step [OF hs_run_inv [OF assms]] by blast
qed

lemma handshake_ends_witness:
  "\<exists>e u. hs_step True hs_start e u"
  using handshake_ends [OF runs.refl] by (simp add: hs_start_def)

text \<open>The result of \<open>pthread_create\<close> is not examined: when it fails, \<open>main\<close> prints three lines
  and then waits for ever on \<open>sem2\<close>.
\<close>

theorem handshake_create_fails:
  "\<exists>t. runs (hs_step False) hs_start [None, Some MainId, Some ChildId, Some MainPid] t
     \<and> main_at t = M51 \<and> (\<forall>e u. \<not> hs_step False t e u)"
proof -
  let ?t = "\<lparr>n_var = 10, sem1 = 0, sem2 = 0, child = Absent, main_at = M51\<rparr>"
  have "follow (hs_follow False) [True, True, True, True] hs_start
      = Some ([None, Some MainId, Some ChildId, Some MainPid], ?t)"
    by (simp add: hs_follow_def hs_main_def hs_start_def)
  from hs_follow_runs [OF this] show ?thesis
    by (auto simp: hs_step.simps th_fun_def hs_main_def)
qed

end
