(* ===== verification/CompeteCondition.thy ===== *)
theory CompeteCondition
  imports Prelude
begin

text \<open>
  The race of \<open>process/compete_condition/main.c\<close>: parent and child write a line each to the
  same unbuffered terminal, one character at a time.
\<close>

section \<open>The program\<close>

definition child_msg :: string where
  "child_msg = ''output from child'' @ [CHR 0x0A]"

definition parent_msg :: string where
  "parent_msg = ''output from parent'' @ [CHR 0x0A]"

text \<open>
  One turn of the loop of \<open>help\<close> at the pointer \<open>ptr\<close>, given by the bytes from there on: the
  character that is put and the advanced pointer, or nothing at the terminator.
\<close>

definition cc_help :: "string \<Rightarrow> (char \<times> string) option" where
  "cc_help ptr =
     (case ptr of
        [] \<Rightarrow> None
      | c # rest \<Rightarrow> if c = CHR 0x00 then None else Some (c, rest))"

text \<open>The bytes of a string constant in memory.\<close>

definition c_str :: "string \<Rightarrow> string" where
  "c_str m = m @ [CHR 0x00]"

datatype cc_event = Forked | Perror | Put char

datatype cc_sys =
    Start                      \<comment> \<open>before \<open>fork\<close>\<close>
  | Fork_failed                \<comment> \<open>one process, neither branch is taken\<close>
  | Racing string string       \<comment> \<open>the pointers of the child and of the parent\<close>

inductive cc_step :: "cc_sys \<Rightarrow> cc_event \<Rightarrow> cc_sys \<Rightarrow> bool" where
  fork: "cc_step Start Forked (Racing (c_str child_msg) (c_str parent_msg))"
| fail: "cc_step Start Perror Fork_failed"
| child: "cc_help p = Some (c, p') \<Longrightarrow> cc_step (Racing p q) (Put c) (Racing p' q)"
| parent: "cc_help q = Some (c, q') \<Longrightarrow> cc_step (Racing p q) (Put c) (Racing p q')"

text \<open>Both processes have returned.\<close>

definition cc_over :: "cc_sys \<Rightarrow> bool" where
  "cc_over s = (case s of Racing p q \<Rightarrow> cc_help p = None \<and> cc_help q = None | _ \<Rightarrow> False)"

fun terminal :: "cc_event list \<Rightarrow> string" where
  "terminal [] = []"
| "terminal (Put c # es) = c # terminal es"
| "terminal (_ # es) = terminal es"

section \<open>Interleavings\<close>

lemma terminal_append [simp]: "terminal (xs @ ys) = terminal xs @ terminal ys"
  by (induction xs rule: terminal.induct) auto

lemma help_c_str [simp]:
  "cc_help (c_str (x # xs)) = (if x = CHR 0x00 then None else Some (x, c_str xs))"
  "cc_help (c_str []) = None"
  by (simp_all add: cc_help_def c_str_def)

lemma shuffles_snoc1: "zs \<in> shuffles xs ys \<Longrightarrow> zs @ [x] \<in> shuffles (xs @ [x]) ys"
proof (induction xs ys arbitrary: zs rule: shuffles.induct)
  case (1 ys)
  have "ys @ [x] \<in> shuffles [x] ys" by (induction ys) (auto simp: Cons_in_shuffles_iff)
  then show ?case using 1 by simp
qed (auto simp: image_iff)

lemma shuffles_snoc2: "zs \<in> shuffles xs ys \<Longrightarrow> zs @ [y] \<in> shuffles xs (ys @ [y])"
  using shuffles_snoc1 [of zs ys xs y] by (simp add: shuffles_commutes)

text \<open>What has been written is an interleaving of what each has written.\<close>

definition written :: "string \<Rightarrow> string \<Rightarrow> string \<Rightarrow> cc_sys \<Rightarrow> bool" where
  "written a b out s \<longleftrightarrow>
     (case s of
        Racing p q \<Rightarrow>
          \<exists>a1 a2 b1 b2. a = a1 @ a2 \<and> b = b1 @ b2 \<and> p = c_str a2 \<and> q = c_str b2 \<and> out \<in> shuffles a1 b1
      | _ \<Rightarrow> out = [])"

lemma help_SomeD: "cc_help (c_str xs) = Some (c, p) \<Longrightarrow> \<exists>ys. xs = c # ys \<and> p = c_str ys"
  by (cases xs) (auto split: if_splits)

lemma written_child:
  assumes "written a b out (Racing p q)" "cc_help p = Some (c, p')"
  shows "written a b (out @ [c]) (Racing p' q)"
proof -
  obtain a1 a2 b1 b2 where w: "a = a1 @ a2" "b = b1 @ b2" "p = c_str a2" "q = c_str b2"
    "out \<in> shuffles a1 b1" using assms(1) by (auto simp: written_def)
  then obtain a3 where "a2 = c # a3" "p' = c_str a3" using assms(2) help_SomeD by blast
  then have "a = (a1 @ [c]) @ a3" "p' = c_str a3" using w by simp_all
  moreover have "out @ [c] \<in> shuffles (a1 @ [c]) b1" by (rule shuffles_snoc1) (rule w)
  ultimately show ?thesis using w(2,4) unfolding written_def cc_sys.case by blast
qed

lemma written_parent:
  assumes "written a b out (Racing p q)" "cc_help q = Some (c, q')"
  shows "written a b (out @ [c]) (Racing p q')"
proof -
  obtain a1 a2 b1 b2 where w: "a = a1 @ a2" "b = b1 @ b2" "p = c_str a2" "q = c_str b2"
    "out \<in> shuffles a1 b1" using assms(1) by (auto simp: written_def)
  then obtain b3 where "b2 = c # b3" "q' = c_str b3" using assms(2) help_SomeD by blast
  then have "b = (b1 @ [c]) @ b3" "q' = c_str b3" using w by simp_all
  moreover have "out @ [c] \<in> shuffles a1 (b1 @ [c])" by (rule shuffles_snoc2) (rule w)
  ultimately show ?thesis using w(1,3) unfolding written_def cc_sys.case by blast
qed

lemma run_written: "runs cc_step Start ls t \<Longrightarrow> written child_msg parent_msg (terminal ls) t"
proof (induction Start ls t rule: runs.induct)
  case refl
  show ?case by (simp add: written_def)
next
  case (snoc ls t l u)
  from snoc.hyps(3) snoc.hyps(2) show ?case
  proof cases
    case fork
    have "[] \<in> shuffles [] []" by simp
    then show ?thesis using fork snoc.hyps(2) unfolding written_def by fastforce
  qed (use snoc.hyps(2) in \<open>auto simp: written_child written_parent written_def [of _ _ _ Fork_failed]
      written_def [of _ _ _ Start]\<close>)
qed

text \<open>Every interleaving can be written.\<close>

lemma shuffle_run:
  "zs \<in> shuffles a b \<Longrightarrow> CHR 0x00 \<notin> set a \<Longrightarrow> CHR 0x00 \<notin> set b \<Longrightarrow>
    runs cc_step (Racing (c_str a) (c_str b)) (map Put zs) (Racing (c_str []) (c_str []))"
proof (induction zs arbitrary: a b)
  case Nil
  then show ?case by (auto intro: runs.refl)
next
  case (Cons z zs)
  from Cons.prems(1) consider (left) a' where "a = z # a'" "zs \<in> shuffles a' b"
    | (right) b' where "b = z # b'" "zs \<in> shuffles a b'"
    by (auto simp: Cons_in_shuffles_iff) (metis list.collapse)+
  then show ?case
  proof cases
    case left
    then have "cc_step (Racing (c_str a) (c_str b)) (Put z) (Racing (c_str a') (c_str b))"
      using Cons.prems by (auto intro: cc_step.child)
    with left Cons show ?thesis by (auto intro: runs_Cons)
  next
    case right
    then have "cc_step (Racing (c_str a) (c_str b)) (Put z) (Racing (c_str a) (c_str b'))"
      using Cons.prems by (auto intro: cc_step.parent)
    with right Cons show ?thesis by (auto intro: runs_Cons)
  qed
qed

lemma terminal_puts [simp]: "terminal (map Put zs) = zs"
  by (induction zs) auto

lemma help_end: "cc_help (c_str xs) = None \<Longrightarrow> CHR 0x00 \<notin> set xs \<Longrightarrow> xs = []"
  by (cases xs) auto

lemma msgs_have_no_nul: "CHR 0x00 \<notin> set child_msg" "CHR 0x00 \<notin> set parent_msg"
  by (simp_all add: child_msg_def parent_msg_def)

section \<open>Property\<close>

text \<open>C18: what the terminal can show when both processes have returned is, exactly, every
  interleaving of the two lines.
\<close>

theorem race_is_shuffle:
  "{out. \<exists>ls t. runs cc_step Start ls t \<and> cc_over t \<and> out = terminal ls}
     = shuffles child_msg parent_msg"
proof (rule set_eqI, rule iffI)
  fix out
  assume "out \<in> {out. \<exists>ls t. runs cc_step Start ls t \<and> cc_over t \<and> out = terminal ls}"
  then obtain ls t where r: "runs cc_step Start ls t" and over: "cc_over t" and out: "out = terminal ls"
    by blast
  obtain p q where t: "t = Racing p q" and h: "cc_help p = None" "cc_help q = None"
    using over by (cases t) (auto simp: cc_over_def)
  obtain a1 a2 b1 b2 where w: "child_msg = a1 @ a2" "parent_msg = b1 @ b2" "p = c_str a2" "q = c_str b2"
    "out \<in> shuffles a1 b1" using run_written [OF r] out t by (auto simp: written_def)
  have "CHR 0x00 \<notin> set a2" "CHR 0x00 \<notin> set b2" using msgs_have_no_nul unfolding w(1,2) by simp_all
  then have "a2 = []" "b2 = []" using h w(3,4) help_end by blast+
  then show "out \<in> shuffles child_msg parent_msg" using w by simp
next
  fix out
  assume "out \<in> shuffles child_msg parent_msg"
  from runs_Cons [OF cc_step.fork shuffle_run [OF this msgs_have_no_nul]]
  have "runs cc_step Start (Forked # map Put out) (Racing (c_str []) (c_str []))" .
  moreover have "cc_over (Racing (c_str []) (c_str []))" by (simp add: cc_over_def)
  moreover have "terminal (Forked # map Put out) = out" by simp
  ultimately show "out \<in> {out. \<exists>ls t. runs cc_step Start ls t \<and> cc_over t \<and> out = terminal ls}"
    by (metis (mono_tags, lifting) mem_Collect_eq)
qed

end
