(* ===== verification/Slock.thy ===== *)
theory Slock
  imports Prelude
begin

text \<open>
  Locks made of named semaphores (\<open>process/semaphore/sem_init/slock.c\<close>): the allocator
  invents names until one is free, opens the semaphore exclusively and removes the name at
  once. The kernel's named semaphores are a table of names and a store of semaphores, each
  with its value and the number of times it is open.
\<close>

section \<open>Named semaphores\<close>

datatype errno = EEXIST | EMFILE | EAGAIN | EINTR

record ksem =
  sem_value :: nat
  opens :: nat

record sem_kernel =
  sem_names :: "string \<Rightarrow> nat option"
  sems :: "nat \<Rightarrow> ksem option"
  next_sem :: nat
  sem_room :: nat              \<comment> \<open>how many semaphores can still be opened\<close>

text \<open>\<open>sem_open\<close> with \<open>O_CREAT | O_EXCL\<close> and the initial value 1.\<close>

definition sem_open_excl :: "string \<Rightarrow> sem_kernel \<Rightarrow> errno + (nat \<times> sem_kernel)" where
  "sem_open_excl nm k =
     (if sem_names k nm \<noteq> None then Inl EEXIST
      else if sem_room k = 0 then Inl EMFILE
      else Inr (next_sem k,
             k\<lparr>sem_names := (sem_names k)(nm \<mapsto> next_sem k),
               sems := (sems k)(next_sem k \<mapsto> \<lparr>sem_value = 1, opens = 1\<rparr>),
               next_sem := next_sem k + 1, sem_room := sem_room k - 1\<rparr>))"

text \<open>Removing a name leaves an open semaphore in place.\<close>

definition sem_unlink :: "string \<Rightarrow> sem_kernel \<Rightarrow> sem_kernel" where
  "sem_unlink nm k = k\<lparr>sem_names := (sem_names k)(nm := None)\<rparr>"

text \<open>A semaphore without a name is destroyed by its last close.\<close>

definition sem_close :: "nat \<Rightarrow> sem_kernel \<Rightarrow> sem_kernel option" where
  "sem_close x k =
     map_option (\<lambda>s.
       k\<lparr>sems := (if opens s = 1 \<and> x \<notin> ran (sem_names k) then (sems k)(x := None)
                  else (sems k)(x \<mapsto> s\<lparr>opens := opens s - 1\<rparr>)),
         sem_room := sem_room k + 1\<rparr>) (sems k x)"

section \<open>Names\<close>

definition digit :: "nat \<Rightarrow> char" where
  "digit d = char_of (48 + d)"

fun dec_nat :: "nat \<Rightarrow> string" where
  "dec_nat n = (if n < 10 then [digit n] else dec_nat (n div 10) @ [digit (n mod 10)])"

declare dec_nat.simps [simp del]

text \<open>The conversions \<open>%ld\<close> and \<open>%d\<close> of \<open>snprintf\<close>.\<close>

definition dec :: "int \<Rightarrow> string" where
  "dec n = (if n < 0 then CHR ''-'' # dec_nat (nat (- n)) else dec_nat (nat n))"

text \<open>The format \<open>/%ld.%d\<close>, cut to the buffer of 1024 bytes.\<close>

definition slock_name :: "int \<Rightarrow> int \<Rightarrow> string" where
  "slock_name pid cnt = take 1023 (CHR ''/'' # dec pid @ CHR ''.'' # dec cnt)"

section \<open>The lock\<close>

record slock =
  semp :: nat
  slname :: string             \<comment> \<open>the field \<open>name\<close>\<close>

record sl_state =
  cnt :: int                   \<comment> \<open>the static counter of \<open>s_alloc\<close>\<close>
  kern :: sem_kernel

definition INT_MAX :: int where "INT_MAX = 2147483647"

text \<open>
  The loop of \<open>s_alloc\<close>: the last name, what \<open>sem_open\<close> answered, and the counter. \<open>None\<close>
  is the overflow of \<open>cnt++\<close>.
\<close>

function s_alloc_loop :: "int \<Rightarrow> int \<Rightarrow> sem_kernel \<Rightarrow> (string \<times> (errno + (nat \<times> sem_kernel)) \<times> int) option" where
  "s_alloc_loop pid c k =
     (if INT_MAX \<le> c then None
      else case sem_open_excl (slock_name pid c) k of
             Inl EEXIST \<Rightarrow> s_alloc_loop pid (c + 1) k
           | r \<Rightarrow> Some (slock_name pid c, r, c + 1))"
  by pat_completeness auto
termination by (relation "measure (\<lambda>(pid, c, k). nat (INT_MAX - c))") auto

declare s_alloc_loop.simps [simp del]

definition s_alloc :: "bool \<Rightarrow> int \<Rightarrow> sl_state \<Rightarrow> (slock option \<times> sl_state) option" where
  "s_alloc malloc_ok pid s =
     (if \<not> malloc_ok then Some (None, s)
      else case s_alloc_loop pid (cnt s) (kern s) of
             None \<Rightarrow> None
           | Some (nm, Inl e, c) \<Rightarrow> Some (None, s\<lparr>cnt := c\<rparr>)
           | Some (nm, Inr (x, k), c) \<Rightarrow>
               Some (Some \<lparr>semp = x, slname = nm\<rparr>, s\<lparr>cnt := c, kern := sem_unlink nm k\<rparr>))"

definition s_free :: "slock \<Rightarrow> sl_state \<Rightarrow> sl_state option" where
  "s_free sp s = map_option (\<lambda>k. s\<lparr>kern := k\<rparr>) (sem_close (semp sp) (kern s))"

text \<open>
  The operations of a lock. The outer \<open>None\<close> is a lock whose semaphore no longer exists;
  \<open>s_lock\<close> answers \<open>None\<close> in the inner one as long as the caller has to wait; a call that a
  signal interrupts fails and leaves the semaphore as it is. (The failures are \<open>Inl\<close>: -1 with the
  error in \<open>errno\<close>.)
\<close>

definition set_value :: "nat \<Rightarrow> nat \<Rightarrow> sl_state \<Rightarrow> sl_state" where
  "set_value x v s =
     s\<lparr>kern := (kern s)\<lparr>sems := (sems (kern s))(x := map_option (\<lambda>q. q\<lparr>sem_value := v\<rparr>) (sems (kern s) x))\<rparr>\<rparr>"

definition s_lock :: "bool \<Rightarrow> slock \<Rightarrow> sl_state \<Rightarrow> ((errno + int) \<times> sl_state) option option" where
  "s_lock interrupted sp s =
     map_option (\<lambda>q. if interrupted then Some (Inl EINTR, s)
                      else if sem_value q = 0 then None
                      else Some (Inr 0, set_value (semp sp) (sem_value q - 1) s))
       (sems (kern s) (semp sp))"

definition s_trylock :: "slock \<Rightarrow> sl_state \<Rightarrow> ((errno + int) \<times> sl_state) option" where
  "s_trylock sp s =
     map_option (\<lambda>q. if sem_value q = 0 then (Inl EAGAIN, s)
                      else (Inr 0, set_value (semp sp) (sem_value q - 1) s))
       (sems (kern s) (semp sp))"

definition s_unlock :: "slock \<Rightarrow> sl_state \<Rightarrow> (int \<times> sl_state) option" where
  "s_unlock sp s =
     map_option (\<lambda>q. (0, set_value (semp sp) (sem_value q + 1) s)) (sems (kern s) (semp sp))"

section \<open>Names are different\<close>

definition digit_value :: "char \<Rightarrow> nat" where
  "digit_value c = of_char c - 48"

definition read_dec :: "string \<Rightarrow> nat" where
  "read_dec = foldl (\<lambda>a c. 10 * a + digit_value c) 0"

lemma digit_value_digit [simp]: "d < 10 \<Longrightarrow> digit_value (digit d) = d"
  by (simp add: digit_value_def digit_def)

lemma digit_code: "d < 10 \<Longrightarrow> (of_char (digit d) :: nat) = 48 + d"
  by (simp add: digit_def)

lemma digit_no_sign: "d < 10 \<Longrightarrow> digit d \<noteq> CHR ''-''"
proof
  assume "d < 10" and eq: "digit d = CHR ''-''"
  have "48 + d = (of_char CHR ''-'' :: nat)" using digit_code [OF \<open>d < 10\<close>] unfolding eq by (rule HOL.sym)
  then have "48 + d = 45" by simp
  then show False by simp
qed

lemma read_dec_nat [simp]: "read_dec (dec_nat n) = n"
proof (induction n rule: dec_nat.induct)
  case (1 n)
  then show ?case
    by (cases "n < 10") (simp_all add: dec_nat.simps [of n] read_dec_def)
qed

lemma dec_nat_digits: "c \<in> set (dec_nat n) \<Longrightarrow> c \<noteq> CHR ''-''"
proof (induction n rule: dec_nat.induct)
  case (1 n)
  then show ?case
    by (cases "n < 10") (auto simp: dec_nat.simps [of n] digit_no_sign digit_no_sign [symmetric])
qed

lemma dec_nat_nonempty: "dec_nat n \<noteq> []"
  by (simp add: dec_nat.simps [of n])

lemma dec_inj: "dec a = dec b \<Longrightarrow> a = b"
proof -
  assume eq: "dec a = dec b"
  have mixed: "CHR ''-'' # dec_nat m \<noteq> dec_nat n" for m n
    using dec_nat_digits [of "CHR ''-''" n] by (metis list.set_intros(1))
  have "nat \<bar>a\<bar> = nat \<bar>b\<bar> \<and> (a < 0 \<longleftrightarrow> b < 0)"
    using eq mixed read_dec_nat
    by (auto simp: dec_def abs_if split: if_splits dest: arg_cong [of _ _ read_dec])
      (metis mixed)+
  then show "a = b" by auto
qed

lemma dec_nat_length: "n < 10 ^ Suc m \<Longrightarrow> length (dec_nat n) \<le> Suc m"
proof (induction m arbitrary: n)
  case 0
  then show ?case by (simp add: dec_nat.simps [of n])
next
  case (Suc m)
  show ?case
  proof (cases "n < 10")
    case False
    have "n div 10 < 10 ^ Suc m" using Suc.prems by (simp add: less_mult_imp_div_less)
    then show ?thesis using Suc.IH False by (simp add: dec_nat.simps [of n])
  qed (simp add: dec_nat.simps [of n])
qed

definition C_LONG :: "int \<Rightarrow> bool" where
  "C_LONG n \<longleftrightarrow> \<bar>n\<bar> \<le> 9223372036854775808"

lemma dec_length: "C_LONG n \<Longrightarrow> length (dec n) \<le> 20"
proof -
  assume "C_LONG n"
  then have "nat \<bar>n\<bar> < 10 ^ Suc 18" by (simp add: C_LONG_def)
  then have "length (dec_nat (nat \<bar>n\<bar>)) \<le> Suc 18" by (rule dec_nat_length)
  then show ?thesis by (auto simp: dec_def abs_if split: if_splits)
qed

text \<open>The buffer of the name is long enough, and different counters give different names.\<close>

lemma slock_name_whole:
  "C_LONG pid \<Longrightarrow> C_LONG c \<Longrightarrow> slock_name pid c = CHR ''/'' # dec pid @ CHR ''.'' # dec c"
  using dec_length [of pid] dec_length [of c] by (simp add: slock_name_def)

lemma slock_name_inj:
  "C_LONG pid \<Longrightarrow> C_LONG c \<Longrightarrow> C_LONG d \<Longrightarrow> slock_name pid c = slock_name pid d \<Longrightarrow> c = d"
  by (simp add: slock_name_whole dec_inj)

section \<open>The allocator\<close>

definition kernel_ok :: "sem_kernel \<Rightarrow> bool" where
  "kernel_ok k \<longleftrightarrow> (\<forall>x. next_sem k \<le> x \<longrightarrow> sems k x = None) \<and> ran (sem_names k) \<subseteq> dom (sems k)"

lemma kernel_ok_fresh: "kernel_ok k \<Longrightarrow> sems k (next_sem k) = None \<and> next_sem k \<notin> ran (sem_names k)"
  by (auto simp: kernel_ok_def)

text \<open>What the loop has done when it stops with an open semaphore.\<close>

lemma alloc_loop_opens:
  "s_alloc_loop pid c k = Some (nm, Inr (x, k'), c') \<Longrightarrow>
    sem_names k nm = None \<and> sem_open_excl nm k = Inr (x, k')"
proof (induction pid c k rule: s_alloc_loop.induct)
  case (1 pid c k)
  show ?case
  proof (cases "sem_open_excl (slock_name pid c) k = Inl EEXIST")
    case True
    then show ?thesis
      using 1 by (simp add: s_alloc_loop.simps [of pid c k] split: if_splits)
  next
    case False
    then have "nm = slock_name pid c \<and> sem_open_excl nm k = Inr (x, k')"
      using "1.prems"
      by (auto simp: s_alloc_loop.simps [of pid c k] split: if_splits sum.splits errno.splits)
    then show ?thesis by (auto simp: sem_open_excl_def split: if_splits)
  qed
qed

text \<open>The counters from \<open>c\<close> on whose names are taken.\<close>

definition clashes :: "int \<Rightarrow> int \<Rightarrow> sem_kernel \<Rightarrow> int set" where
  "clashes pid c k = {i. c \<le> i \<and> i < INT_MAX \<and> slock_name pid i \<in> dom (sem_names k)}"

lemma clashes_names:
  assumes "C_LONG pid" "0 \<le> c" "finite (dom (sem_names k))"
  shows "finite (clashes pid c k) \<and> card (clashes pid c k) \<le> card (dom (sem_names k))"
proof -
  have fin: "finite (clashes pid c k)"
    by (rule finite_subset [of _ "{c..INT_MAX}"]) (auto simp: clashes_def)
  have "inj_on (slock_name pid) (clashes pid c k)"
    using assms(1,2) by (auto intro!: inj_onI slock_name_inj simp: clashes_def C_LONG_def INT_MAX_def)
  then have "card (clashes pid c k) \<le> card (dom (sem_names k))"
    by (rule card_inj_on_le) (use assms(3) in \<open>auto simp: clashes_def\<close>)
  then show ?thesis using fin by simp
qed

lemma clashes_next:
  "c \<in> clashes pid c k \<Longrightarrow> finite (clashes pid c k) \<Longrightarrow>
    Suc (card (clashes pid (c + 1) k)) = card (clashes pid c k)"
proof -
  assume c: "c \<in> clashes pid c k" and fin: "finite (clashes pid c k)"
  have "clashes pid (c + 1) k = clashes pid c k - {c}" using c by (auto simp: clashes_def)
  then show ?thesis using card.remove [OF fin c] by simp
qed

lemma alloc_loop_finds:
  assumes "finite (dom (sem_names k))" "0 < sem_room k" "C_LONG pid"
  shows "0 \<le> c \<Longrightarrow> c + int (card (clashes pid c k)) < INT_MAX \<Longrightarrow>
    \<exists>nm x k' c'. s_alloc_loop pid c k = Some (nm, Inr (x, k'), c')
      \<and> c' \<le> c + int (card (clashes pid c k)) + 1"
proof (induction "card (clashes pid c k)" arbitrary: c)
  case 0
  have fin: "finite (clashes pid c k)" using clashes_names [OF assms(3) 0(2) assms(1)] by blast
  then have "slock_name pid c \<notin> dom (sem_names k)" using 0 by (auto simp: clashes_def)
  then show ?case
    using 0 assms(2) by (simp add: s_alloc_loop.simps [of pid c k] sem_open_excl_def domIff)
next
  case (Suc n)
  have fin: "finite (clashes pid c k)" using clashes_names [OF assms(3) Suc(3) assms(1)] by blast
  show ?case
  proof (cases "slock_name pid c \<in> dom (sem_names k)")
    case True
    then have c: "c \<in> clashes pid c k" using Suc.prems by (simp add: clashes_def)
    have n: "Suc (card (clashes pid (c + 1) k)) = card (clashes pid c k)" by (rule clashes_next [OF c fin])
    have "s_alloc_loop pid c k = s_alloc_loop pid (c + 1) k"
      using True Suc.prems
      by (subst s_alloc_loop.simps) (auto simp: sem_open_excl_def)
    moreover have "n = card (clashes pid (c + 1) k)" using n Suc(2) by simp
    moreover have "c + 1 + int (card (clashes pid (c + 1) k)) < INT_MAX" using Suc.prems n by simp
    ultimately show ?thesis using Suc(1) [of "c + 1"] Suc.prems n by fastforce
  next
    case False
    then show ?thesis
      using Suc.prems assms(2) by (simp add: s_alloc_loop.simps [of pid c k] sem_open_excl_def domIff)
  qed
qed

section \<open>Mutual exclusion\<close>

text \<open>
  Processes that share a lock: each is inside or outside, enters by \<open>s_lock\<close> or a successful
  \<open>s_trylock\<close> and leaves by \<open>s_unlock\<close>. A call of \<open>s_lock\<close> may be interrupted.
\<close>

record sl_sys =
  lock_state :: sl_state
  within :: "bool list"

datatype sl_event = Locked nat | Interrupted nat | Busy nat | Unlocked nat

inductive sl_step :: "slock \<Rightarrow> sl_sys \<Rightarrow> sl_event \<Rightarrow> sl_sys \<Rightarrow> bool" for sp where
  lock: "i < length (within s) \<Longrightarrow> \<not> within s ! i \<Longrightarrow> s_lock False sp (lock_state s) = Some (Some (Inr 0, u)) \<Longrightarrow>
     sl_step sp s (Locked i) (s\<lparr>lock_state := u, within := (within s)[i := True]\<rparr>)"
| interrupted: "i < length (within s) \<Longrightarrow> \<not> within s ! i \<Longrightarrow> s_lock True sp (lock_state s) = Some (Some (Inl EINTR, u)) \<Longrightarrow>
     sl_step sp s (Interrupted i) (s\<lparr>lock_state := u\<rparr>)"
| trylock: "i < length (within s) \<Longrightarrow> \<not> within s ! i \<Longrightarrow> s_trylock sp (lock_state s) = Some (Inr 0, u) \<Longrightarrow>
     sl_step sp s (Locked i) (s\<lparr>lock_state := u, within := (within s)[i := True]\<rparr>)"
| busy: "i < length (within s) \<Longrightarrow> \<not> within s ! i \<Longrightarrow> s_trylock sp (lock_state s) = Some (Inl EAGAIN, u) \<Longrightarrow>
     sl_step sp s (Busy i) (s\<lparr>lock_state := u\<rparr>)"
| unlock: "i < length (within s) \<Longrightarrow> within s ! i \<Longrightarrow> s_unlock sp (lock_state s) = Some (0, u) \<Longrightarrow>
     sl_step sp s (Unlocked i) (s\<lparr>lock_state := u, within := (within s)[i := False]\<rparr>)"

definition value_of :: "slock \<Rightarrow> sl_state \<Rightarrow> nat option" where
  "value_of sp s = map_option sem_value (sems (kern s) (semp sp))"

definition sl_inv :: "slock \<Rightarrow> sl_sys \<Rightarrow> bool" where
  "sl_inv sp s \<longleftrightarrow> (\<exists>v. value_of sp (lock_state s) = Some v \<and> int v + count_if id (within s) = 1)"

lemma value_of_set [simp]:
  "value_of sp s = Some v \<Longrightarrow> value_of sp (set_value (semp sp) w s) = Some w"
  by (auto simp: value_of_def set_value_def)

text \<open>What the three operations do to the value.\<close>

lemma s_lock_value:
  "value_of sp s = Some v \<Longrightarrow> s_lock intr sp s = Some (Some (r, u)) \<Longrightarrow>
    (if intr then r = Inl EINTR \<and> u = s else r = Inr 0 \<and> 0 < v \<and> value_of sp u = Some (v - 1))"
  by (auto simp: s_lock_def value_of_def set_value_def split: if_splits)

lemma s_trylock_value:
  "value_of sp s = Some v \<Longrightarrow> s_trylock sp s = Some (r, u) \<Longrightarrow>
    (if v = 0 then r = Inl EAGAIN \<and> u = s else r = Inr 0 \<and> value_of sp u = Some (v - 1))"
  by (auto simp: s_trylock_def value_of_def set_value_def split: if_splits)

lemma s_unlock_value:
  "value_of sp s = Some v \<Longrightarrow> s_unlock sp s = Some (r, u) \<Longrightarrow> value_of sp u = Some (v + 1)"
  by (auto simp: s_unlock_def value_of_def set_value_def)

lemma sl_step_inv: "sl_inv sp s \<Longrightarrow> sl_step sp s e t \<Longrightarrow> sl_inv sp t"
proof -
  assume inv: "sl_inv sp s" and step: "sl_step sp s e t"
  obtain v where v: "value_of sp (lock_state s) = Some v" and n: "int v + count_if id (within s) = 1"
    using inv by (auto simp: sl_inv_def)
  from step show "sl_inv sp t"
  proof cases
    case (lock i u)
    with s_lock_value [OF v lock(5)] n show ?thesis
      by (simp add: sl_inv_def count_if_update of_nat_diff)
  next
    case (interrupted i u)
    with s_lock_value [OF v interrupted(5)] n v show ?thesis by (simp add: sl_inv_def)
  next
    case (trylock i u)
    with s_trylock_value [OF v trylock(5)] n show ?thesis
      by (simp add: sl_inv_def count_if_update of_nat_diff split: if_splits)
  next
    case (busy i u)
    with s_trylock_value [OF v busy(5)] n v show ?thesis
      by (simp add: sl_inv_def split: if_splits)
  next
    case (unlock i u)
    with s_unlock_value [OF v unlock(5)] n show ?thesis
      by (simp add: sl_inv_def count_if_update)
  qed
qed

interpretation sl: inductive_invariant "sl_step sp" "sl_inv sp"
  by unfold_locales (rule sl_step_inv)

section \<open>Properties\<close>

lemma alloc_effect:
  assumes "kernel_ok (kern s)" "s_alloc ok pid s = Some (Some sp, t)"
  shows "semp sp = next_sem (kern s) \<and> sem_names (kern t) = sem_names (kern s)
    \<and> sems (kern t) = (sems (kern s))(semp sp \<mapsto> \<lparr>sem_value = 1, opens = 1\<rparr>)
    \<and> 0 < sem_room (kern s) \<and> sem_room (kern t) = sem_room (kern s) - 1"
proof -
  obtain nm x k c where l: "s_alloc_loop pid (cnt s) (kern s) = Some (nm, Inr (x, k), c)"
    and sp: "sp = \<lparr>semp = x, slname = nm\<rparr>" and t: "t = s\<lparr>cnt := c, kern := sem_unlink nm k\<rparr>"
    using assms(2) by (auto simp: s_alloc_def split: if_splits option.splits sum.splits)
  have o: "sem_names (kern s) nm = None" "sem_open_excl nm (kern s) = Inr (x, k)"
    using alloc_loop_opens [OF l] by simp_all
  then show ?thesis
    using sp t by (auto simp: sem_open_excl_def sem_unlink_def fun_upd_idem split: if_splits)
qed

lemma alloc_value:
  "kernel_ok (kern s) \<Longrightarrow> s_alloc ok pid s = Some (Some sp, t) \<Longrightarrow> value_of sp t = Some 1"
  using alloc_effect by (simp add: value_of_def)

text \<open>C19: an allocated lock owns a semaphore nobody else has, with value 1, and leaves no name
  behind; freeing it gives the kernel back its names, its semaphores and its room.
\<close>

theorem slock_alloc_free:
  assumes "kernel_ok (kern s)" "s_alloc ok pid s = Some (Some sp, t)"
  shows "sems (kern s) (semp sp) = None \<and> value_of sp t = Some 1
    \<and> sem_names (kern t) = sem_names (kern s)
    \<and> (\<exists>u. s_free sp t = Some u \<and> sems (kern u) = sems (kern s)
          \<and> sem_names (kern u) = sem_names (kern s) \<and> sem_room (kern u) = sem_room (kern s))"
proof -
  have fresh: "sems (kern s) (semp sp) = None" "semp sp \<notin> ran (sem_names (kern s))"
    using alloc_effect [OF assms] kernel_ok_fresh [OF assms(1)] by simp_all
  then show ?thesis
    using alloc_effect [OF assms]
    by (simp add: value_of_def s_free_def sem_close_def fun_upd_idem)
qed

definition empty_kernel :: sem_kernel where
  "empty_kernel = \<lparr>sem_names = (\<lambda>_. None), sems = (\<lambda>_. None), next_sem = 0, sem_room = 2\<rparr>"

definition fresh_state :: sl_state where
  "fresh_state = \<lparr>cnt = 0, kern = empty_kernel\<rparr>"

text \<open>The name of the first lock of process 7 is taken: the second name is used.\<close>

definition taken_state :: sl_state where
  "taken_state = \<lparr>cnt = 0, kern = empty_kernel
     \<lparr>sem_names := [''/7.0'' \<mapsto> 0], sems := [0 \<mapsto> \<lparr>sem_value = 1, opens = 1\<rparr>], next_sem := 1\<rparr>\<rparr>"

lemma first_names: "slock_name 7 0 = ''/7.0''" "slock_name 7 1 = ''/7.1''"
  by code_simp+

lemma taken_ok: "kernel_ok (kern taken_state)"
  by (auto simp: kernel_ok_def taken_state_def empty_kernel_def)

lemma taken_alloc:
  "\<exists>t. s_alloc True 7 taken_state = Some (Some \<lparr>semp = 1, slname = ''/7.1''\<rparr>, t)"
proof -
  have one: "sem_open_excl ''/7.0'' (kern taken_state) = Inl EEXIST"
    and two: "\<exists>k. sem_open_excl ''/7.1'' (kern taken_state) = Inr (1, k)"
    by (auto simp: sem_open_excl_def taken_state_def empty_kernel_def)
  obtain k where k: "sem_open_excl ''/7.1'' (kern taken_state) = Inr (1, k)" using two by blast
  have "s_alloc_loop 7 0 (kern taken_state) = s_alloc_loop 7 1 (kern taken_state)"
    using one by (subst s_alloc_loop.simps) (simp add: first_names INT_MAX_def)
  also have "\<dots> = Some (''/7.1'', Inr (1, k), 2)"
    using k by (subst s_alloc_loop.simps) (simp add: first_names INT_MAX_def)
  finally show ?thesis by (simp add: s_alloc_def taken_state_def)
qed

lemma slock_alloc_free_witness:
  "\<exists>sp t u. s_alloc True 7 taken_state = Some (Some sp, t) \<and> slname sp = ''/7.1''
    \<and> value_of sp t = Some 1 \<and> s_free sp t = Some u"
proof -
  obtain t where t: "s_alloc True 7 taken_state = Some (Some \<lparr>semp = 1, slname = ''/7.1''\<rparr>, t)"
    using taken_alloc by blast
  with slock_alloc_free [OF taken_ok t] show ?thesis by fastforce
qed

text \<open>C37: the loop over names ends: with \<open>n\<close> names in the system it needs at most \<open>n + 1\<close> attempts
  and, while the kernel has room, it returns a lock.
\<close>

theorem slock_alloc_ends:
  assumes "finite (dom (sem_names (kern s)))" "0 < sem_room (kern s)" "C_LONG pid"
    and "0 \<le> cnt s" "cnt s + int (card (dom (sem_names (kern s)))) < INT_MAX"
  shows "\<exists>sp t. s_alloc True pid s = Some (Some sp, t)
    \<and> cnt t \<le> cnt s + int (card (dom (sem_names (kern s)))) + 1"
proof -
  have card: "card (clashes pid (cnt s) (kern s)) \<le> card (dom (sem_names (kern s)))"
    using clashes_names [OF assms(3,4,1)] by blast
  obtain nm x k c where l: "s_alloc_loop pid (cnt s) (kern s) = Some (nm, Inr (x, k), c)"
    and c: "c \<le> cnt s + int (card (clashes pid (cnt s) (kern s))) + 1"
    using alloc_loop_finds [OF assms(1,2,3,4)] card assms(5) by auto
  show ?thesis using card c by (simp add: s_alloc_def l)
qed

lemma slock_alloc_ends_witness:
  "\<exists>sp t. s_alloc True 7 taken_state = Some (Some sp, t) \<and> cnt t \<le> 2"
  using slock_alloc_ends [of taken_state 7]
  by (simp add: taken_state_def empty_kernel_def C_LONG_def INT_MAX_def)

text \<open>C11: processes that share an allocated lock exclude each other under every schedule of
  \<open>s_lock\<close> (also when signals interrupt it), \<open>s_trylock\<close> and \<open>s_unlock\<close>, and a process finds the lock free just when nobody is
  inside.
\<close>

theorem slock_excludes:
  assumes "kernel_ok (kern s)" "s_alloc ok pid s = Some (Some sp, t)"
    and "runs (sl_step sp) \<lparr>lock_state = t, within = replicate n False\<rparr> ls u"
  shows "count_if id (within u) \<le> 1
    \<and> (s_lock False sp (lock_state u) = Some None \<longleftrightarrow> count_if id (within u) = 1)"
proof -
  have "value_of sp t = Some 1" by (rule alloc_value [OF assms(1,2)])
  then have "sl_inv sp \<lparr>lock_state = t, within = replicate n False\<rparr>" by (simp add: sl_inv_def)
  then have "sl_inv sp u" by (rule sl.run_preserves [OF assms(3)])
  then show ?thesis by (auto simp: sl_inv_def value_of_def s_lock_def)
qed

lemma slock_excludes_witness:
  "\<exists>sp t u. s_alloc True 7 taken_state = Some (Some sp, t)
    \<and> runs (sl_step sp) \<lparr>lock_state = t, within = [False, False]\<rparr> [Locked 0] u
    \<and> s_lock False sp (lock_state u) = Some None"
proof -
  obtain sp t where t: "s_alloc True 7 taken_state = Some (Some sp, t)"
    using taken_alloc by blast
  let ?s = "\<lparr>lock_state = t, within = [False, False]\<rparr>"
  have "value_of sp t = Some 1" by (rule alloc_value [OF taken_ok t])
  then obtain v where "s_lock False sp t = Some (Some (Inr 0, v))" by (auto simp: s_lock_def value_of_def)
  then have "sl_step sp ?s (Locked 0) (?s\<lparr>lock_state := v, within := (within ?s)[0 := True]\<rparr>)"
    by (intro sl_step.lock) simp_all
  then have "runs (sl_step sp) ?s [Locked 0] \<lparr>lock_state = v, within = [True, False]\<rparr>"
    using runs_Cons [OF _ runs.refl] by fastforce
  moreover from this have "runs (sl_step sp) \<lparr>lock_state = t, within = replicate 2 False\<rparr> [Locked 0]
      \<lparr>lock_state = v, within = [True, False]\<rparr>" by (simp add: numeral_2_eq_2)
  ultimately show ?thesis using slock_excludes [OF taken_ok t, of 2] t by fastforce
qed

end
