(* ===== verification/RwlockDemo.thy ===== *)
theory RwlockDemo
  imports Prelude
begin

text \<open>
  Five readers and three writers of a counter under a read-write lock
  (\<open>thread/synchronization/rwlock/main.c\<close>). The increment of the C integer is a load and a
  store. After ten seconds one \<open>SIGALRM\<close> reaches some thread of the process, whose handler ends
  that thread, wherever it is. \<open>main\<close> joins the threads meanwhile. After undefined behaviour
  (an overflow of the counter, a join of an identifier that was never written) nothing is said
  of the program: the model makes no further step.
\<close>

section \<open>The threads\<close>

datatype reader_pc =
    RLock                \<comment> \<open>27: \<open>pthread_rwlock_rdlock\<close>\<close>
  | RPrint               \<comment> \<open>28, read lock held\<close>
  | RUnlock              \<comment> \<open>29, read lock held\<close>
  | RSleep               \<comment> \<open>30\<close>
  | RGone                \<comment> \<open>ended by the signal handler\<close>

datatype writer_pc =
    WLock                \<comment> \<open>38: \<open>pthread_rwlock_wrlock\<close>\<close>
  | WLoad                \<comment> \<open>39, write lock held\<close>
  | WStore int           \<comment> \<open>39, write lock held\<close>
  | WUnlock              \<comment> \<open>40, write lock held\<close>
  | WSleep               \<comment> \<open>41\<close>
  | WGone

datatype rl_event = Tau | Printed int | Counted | Alarm

record rl_sys =
  count_v :: int
  rd_held :: int               \<comment> \<open>the number of read locks that are held\<close>
  wr_held :: bool              \<comment> \<open>the write lock is held\<close>
  rd_threads :: "reader_pc list"
  wr_threads :: "writer_pc list"
  alarm_set :: bool
  main_runs :: bool            \<comment> \<open>main is in its joins\<close>
  ub :: bool                   \<comment> \<open>the behaviour is undefined from here on\<close>

definition INT_MAX :: int where "INT_MAX = 2147483647"

abbreviation set_reader :: "nat \<Rightarrow> reader_pc \<Rightarrow> rl_sys \<Rightarrow> rl_sys" where
  "set_reader k pc s \<equiv> s\<lparr>rd_threads := (rd_threads s)[k := pc]\<rparr>"

abbreviation set_writer :: "nat \<Rightarrow> writer_pc \<Rightarrow> rl_sys \<Rightarrow> rl_sys" where
  "set_writer k pc s \<equiv> s\<lparr>wr_threads := (wr_threads s)[k := pc]\<rparr>"

definition thread_read :: "nat \<Rightarrow> rl_sys \<Rightarrow> (rl_event \<times> rl_sys) option" where
  "thread_read k s =
     (case rd_threads s ! k of
        RLock \<Rightarrow> if \<not> wr_held s then Some (Tau, (set_reader k RPrint s)\<lparr>rd_held := rd_held s + 1\<rparr>) else None
      | RPrint \<Rightarrow> Some (Printed (count_v s), set_reader k RUnlock s)
      | RUnlock \<Rightarrow> Some (Tau, (set_reader k RSleep s)\<lparr>rd_held := rd_held s - 1\<rparr>)
      | RSleep \<Rightarrow> Some (Tau, set_reader k RLock s)
      | RGone \<Rightarrow> None)"

definition thread_write :: "nat \<Rightarrow> rl_sys \<Rightarrow> (rl_event \<times> rl_sys) option" where
  "thread_write k s =
     (case wr_threads s ! k of
        WLock \<Rightarrow>
          if \<not> wr_held s \<and> rd_held s = 0 then Some (Tau, (set_writer k WLoad s)\<lparr>wr_held := True\<rparr>) else None
      | WLoad \<Rightarrow>
          if count_v s = INT_MAX then Some (Tau, s\<lparr>ub := True\<rparr>)
          else Some (Tau, set_writer k (WStore (count_v s + 1)) s)
      | WStore v \<Rightarrow> Some (Counted, (set_writer k WUnlock s)\<lparr>count_v := v\<rparr>)
      | WUnlock \<Rightarrow> Some (Tau, (set_writer k WSleep s)\<lparr>wr_held := False\<rparr>)
      | WSleep \<Rightarrow> Some (Tau, set_writer k WLock s)
      | WGone \<Rightarrow> None)"

text \<open>\<open>sig_handler\<close> in a reader, in a writer or in the main thread.\<close>

datatype target = To_reader nat | To_writer nat | To_main

definition sig_handler :: "target \<Rightarrow> rl_sys \<Rightarrow> rl_sys" where
  "sig_handler w s =
     (case w of
        To_reader k \<Rightarrow> (set_reader k RGone s)\<lparr>alarm_set := False\<rparr>
      | To_writer k \<Rightarrow> (set_writer k WGone s)\<lparr>alarm_set := False\<rparr>
      | To_main \<Rightarrow> s\<lparr>alarm_set := False, main_runs := False\<rparr>)"

section \<open>Creation and joining\<close>

text \<open>
  The two creation loops of \<open>main\<close>: every reader's identifier goes to \<open>tid[0]\<close>. \<open>None\<close> is an
  entry that was never written; \<open>new\<close> are the identifiers \<open>pthread_create\<close> hands out.
\<close>

fun create_readers :: "nat \<Rightarrow> (nat \<Rightarrow> tid) \<Rightarrow> tid option list \<Rightarrow> tid option list" where
  "create_readers 0 new tids = tids"
| "create_readers (Suc n) new tids = (create_readers n new tids)[0 := Some (new n)]"

fun create_writers :: "nat \<Rightarrow> (nat \<Rightarrow> tid) \<Rightarrow> tid option list \<Rightarrow> tid option list" where
  "create_writers 0 new tids = tids"
| "create_writers (Suc n) new tids = (create_writers n new tids)[n + 5 := Some (new (n + 5))]"

definition rl_tids :: "(nat \<Rightarrow> tid) \<Rightarrow> tid option list" where
  "rl_tids new = create_writers 3 new (create_readers 5 new (replicate 8 None))"

datatype join_result =
    Waits nat            \<comment> \<open>the thread of this entry has not ended\<close>
  | Undefined nat        \<comment> \<open>this entry is not initialised\<close>
  | All_joined

fun join_from :: "nat \<Rightarrow> (tid \<Rightarrow> bool) \<Rightarrow> tid option list \<Rightarrow> join_result" where
  "join_from i ended [] = All_joined"
| "join_from i ended (None # ts) = Undefined i"
| "join_from i ended (Some t # ts) = (if ended t then join_from (i + 1) ended ts else Waits i)"

text \<open>Whatever threads have ended, the joins do not complete: they wait for the last reader or go
  on to an entry of \<open>tid\<close> that was never written.\<close>

lemma rwlock_joins:
  "join_from 0 ended (rl_tids new) = (if ended (new 4) then Undefined 1 else Waits 0)"
  by (simp add: rl_tids_def eval_nat_numeral)

section \<open>The program\<close>

text \<open>The threads are identified by the order of their creation, readers first.\<close>

definition thread_ended :: "rl_sys \<Rightarrow> tid \<Rightarrow> bool" where
  "thread_ended s t = (if t < 5 then rd_threads s ! t = RGone else wr_threads s ! (t - 5) = WGone)"

text \<open>The joins of \<open>main\<close>; \<open>None\<close> while they wait.\<close>

definition main_joins :: "rl_sys \<Rightarrow> rl_sys option" where
  "main_joins s =
     (case join_from 0 (thread_ended s) (rl_tids (\<lambda>n. n)) of
        Waits i \<Rightarrow> None
      | Undefined i \<Rightarrow> Some (s\<lparr>ub := True\<rparr>)
      | All_joined \<Rightarrow> Some (s\<lparr>main_runs := False\<rparr>))"

inductive rl_step :: "rl_sys \<Rightarrow> rl_event \<Rightarrow> rl_sys \<Rightarrow> bool" where
  reader: "k < length (rd_threads s) \<Longrightarrow> thread_read k s = Some (e, t) \<Longrightarrow> \<not> ub s \<Longrightarrow> rl_step s e t"
| writer: "k < length (wr_threads s) \<Longrightarrow> thread_write k s = Some (e, t) \<Longrightarrow> \<not> ub s \<Longrightarrow> rl_step s e t"
| signal: "alarm_set s \<Longrightarrow> \<not> ub s \<Longrightarrow> rl_step s Alarm (sig_handler w s)"
| join: "main_runs s \<Longrightarrow> main_joins s = Some t \<Longrightarrow> \<not> ub s \<Longrightarrow> rl_step s Tau t"

definition rl_start :: rl_sys where
  "rl_start = \<lparr>count_v = 0, rd_held = 0, wr_held = False,
     rd_threads = replicate 5 RLock, wr_threads = replicate 3 WLock, alarm_set = True,
     main_runs = True, ub = False\<rparr>"

section \<open>The invariant\<close>

fun reading :: "reader_pc \<Rightarrow> bool" where
  "reading RPrint = True" | "reading RUnlock = True" | "reading _ = False"

fun writing :: "writer_pc \<Rightarrow> bool" where
  "writing WLoad = True" | "writing (WStore v) = True" | "writing WUnlock = True" | "writing _ = False"

definition fits :: "int \<Rightarrow> writer_pc \<Rightarrow> bool" where
  "fits c pc \<longleftrightarrow> (case pc of WStore v \<Rightarrow> v = c + 1 \<and> v \<le> INT_MAX | _ \<Rightarrow> True)"

text \<open>The locks held by threads the signal has ended.\<close>

definition leaked :: "rl_sys \<Rightarrow> int" where
  "leaked s = rd_held s - count_if reading (rd_threads s)"

definition rl_inv :: "rl_sys \<Rightarrow> bool" where
  "rl_inv s \<longleftrightarrow>
     0 \<le> leaked s
     \<and> count_if writing (wr_threads s) \<le> (if wr_held s then 1 else 0)
     \<and> (wr_held s \<longrightarrow> rd_held s = 0)
     \<and> list_all (fits (count_v s)) (wr_threads s)
     \<and> 0 \<le> count_v s \<and> count_v s \<le> INT_MAX"

lemmas rl_defs = rl_inv_def leaked_def

lemma rl_start_inv: "rl_inv rl_start"
  by (simp add: rl_defs rl_start_def fits_def list_all_iff INT_MAX_def)

text \<open>No reader reads while the write lock is held.\<close>

lemma rl_exclusion:
  "rl_inv s \<Longrightarrow> wr_held s \<Longrightarrow> count_if reading (rd_threads s) = 0"
  using count_if_nonneg [of reading "rd_threads s"] by (intro antisym) (simp_all add: rl_defs)

lemma reader_inv:
  assumes k: "k < length (rd_threads s)" and step: "thread_read k s = Some (e, t)" and inv: "rl_inv s"
  shows "rl_inv t \<and> leaked t = leaked s \<and> count_v t = count_v s \<and> e \<in> {Tau, Printed (count_v s)}"
proof -
  have "reading (rd_threads s ! k) \<longrightarrow> \<not> wr_held s"
    using rl_exclusion [OF inv] count_if_pos [OF k, of reading] by auto
  with assms show ?thesis
    by (cases "rd_threads s ! k"; simp add: thread_read_def split: if_splits; clarify;
        simp add: rl_defs count_if_update)
qed

text \<open>A writer in its critical section is alone there.\<close>

lemma writer_alone:
  assumes "rl_inv s" "k < length (wr_threads s)" "writing (wr_threads s ! k)"
  shows "wr_held s" "\<And>j. j < length (wr_threads s) \<Longrightarrow> j \<noteq> k \<Longrightarrow> \<not> writing (wr_threads s ! j)"
proof -
  have pos: "0 < count_if writing (wr_threads s)" using count_if_pos [of k _ writing] assms(2,3) by blast
  then show held: "wr_held s" using assms(1) by (auto simp: rl_inv_def split: if_splits)
  fix j
  assume j: "j < length (wr_threads s)" "j \<noteq> k"
  show "\<not> writing (wr_threads s ! j)"
  proof
    assume w: "writing (wr_threads s ! j)"
    have "0 < count_if writing ((wr_threads s)[k := WGone])"
      by (rule count_if_pos [of j]) (use j w in simp_all)
    then show False
      using assms held by (simp add: count_if_update rl_inv_def)
  qed
qed

lemma fits_after_store:
  assumes "rl_inv s" "k < length (wr_threads s)" "writing (wr_threads s ! k)"
  shows "list_all (fits c) ((wr_threads s)[k := WUnlock])"
proof -
  have f: "fits c pc" if "\<not> writing pc" for pc using that by (cases pc) (auto simp: fits_def)
  have "fits c ((wr_threads s)[k := WUnlock] ! j)" if "j < length (wr_threads s)" for j
    using writer_alone(2) [OF assms that] that f by (cases "j = k") (auto simp: fits_def)
  then show ?thesis by (simp add: list_all_length)
qed

lemma writer_inv:
  assumes k: "k < length (wr_threads s)" and step: "thread_write k s = Some (e, t)" and inv: "rl_inv s"
  shows "rl_inv t \<and> leaked t = leaked s
    \<and> (e = Tau \<and> count_v t = count_v s \<or> e = Counted \<and> count_v t = count_v s + 1)"
proof -
  have held: "writing (wr_threads s ! k) \<Longrightarrow> wr_held s" using writer_alone(1) [OF inv k] .
  have fit: "fits (count_v s) (wr_threads s ! k)"
    using inv k by (auto simp: rl_inv_def intro: list_all_nth)
  have le: "0 \<le> count_if reading (rd_threads s)" by simp
  show ?thesis
  proof (cases "\<exists>v. wr_threads s ! k = WStore v")
    case True
    then obtain v where v: "wr_threads s ! k = WStore v" by blast
    have "list_all (fits v) ((wr_threads s)[k := WUnlock])"
      by (rule fits_after_store [OF inv k]) (simp add: v)
    then show ?thesis
      using v step inv fit held k by (auto simp: thread_write_def rl_defs count_if_update fits_def)
  next
    case False
    with assms held le show ?thesis
      by (cases "wr_threads s ! k"; simp add: thread_write_def split: if_splits; clarify;
          simp add: rl_defs count_if_update fits_def; linarith?)
  qed
qed

text \<open>The signal may only leave locks behind.\<close>

lemma count_if_erase: "\<not> P y \<Longrightarrow> count_if P (xs[k := y]) \<le> count_if P xs"
  by (cases "k < length xs") (simp_all add: count_if_update list_update_beyond)

lemma signal_inv:
  assumes inv: "rl_inv s"
  shows "rl_inv (sig_handler w s) \<and> leaked s \<le> leaked (sig_handler w s)
    \<and> count_v (sig_handler w s) = count_v s"
proof (cases w)
  case (To_reader k)
  have "count_if reading ((rd_threads s)[k := RGone]) \<le> count_if reading (rd_threads s)"
    by (rule count_if_erase) simp
  then show ?thesis using inv To_reader by (simp add: sig_handler_def rl_defs)
next
  case (To_writer k)
  have "count_if writing ((wr_threads s)[k := WGone]) \<le> count_if writing (wr_threads s)"
    by (rule count_if_erase) simp
  then show ?thesis using inv To_writer by (auto simp: sig_handler_def rl_defs fits_def)
next
  case To_main
  then show ?thesis using inv by (simp add: sig_handler_def rl_defs)
qed

text \<open>What each event says of the number of increments that have been stored.\<close>

fun rl_spec :: "rl_event \<Rightarrow> int \<Rightarrow> int option" where
  "rl_spec (Printed v) c = (if v = c then Some c else None)"
| "rl_spec Counted c = Some (c + 1)"
| "rl_spec _ c = Some c"

lemma rl_step_ok:
  assumes "rl_step s e t" "rl_inv s"
  shows "rl_inv t \<and> rl_spec e (count_v s) = Some (count_v t) \<and> leaked s \<le> leaked t"
  using assms(1)
proof cases
  case (reader k)
  then show ?thesis using reader_inv [OF reader(1,2) assms(2)] by auto
next
  case (writer k)
  then show ?thesis using writer_inv [OF writer(1,2) assms(2)] by auto
next
  case (signal w)
  then show ?thesis using signal_inv [OF assms(2), of w] by simp
next
  case join
  then have "t = s\<lparr>ub := True\<rparr> \<or> t = s\<lparr>main_runs := False\<rparr>"
    by (auto simp: main_joins_def split: join_result.splits)
  then show ?thesis using join(1) assms(2) by (auto simp: rl_defs)
qed




interpretation rl: refined_system rl_step rl_inv count_v rl_spec
  by unfold_locales (use rl_step_ok in auto)

definition stranded :: "rl_sys \<Rightarrow> bool" where
  "stranded s \<longleftrightarrow> rl_inv s \<and> 1 \<le> leaked s"

lemma stranded_no_writer:
  assumes "stranded s"
  shows "\<not> wr_held s \<and> count_if writing (wr_threads s) = 0"
proof -
  have inv: "rl_inv s" and one: "1 \<le> leaked s" using assms by (simp_all add: stranded_def)
  have "\<not> wr_held s"
    using rl_exclusion [OF inv] inv one by (auto simp: rl_defs)
  then show ?thesis using inv by (auto simp: rl_inv_def intro: antisym)
qed

lemma stranded_step:
  assumes "stranded s" "rl_step s e t"
  shows "stranded t \<and> e \<noteq> Counted"
proof -
  have inv: "rl_inv s" and "rl_inv t" "1 \<le> leaked t"
    using assms rl_step_ok by (force simp: stranded_def)+
  moreover from assms(2) have "e \<noteq> Counted"
  proof cases
    case (reader k)
    then show ?thesis using reader_inv [OF reader(1,2) inv] by auto
  next
    case (writer k)
    have "\<not> writing (wr_threads s ! k)"
      using stranded_no_writer [OF assms(1)] count_if_pos [OF writer(1), of writing] by auto
    then show ?thesis using writer(2)
      by (cases "wr_threads s ! k") (auto simp: thread_write_def split: if_splits)
  qed simp_all
  ultimately show ?thesis by (simp add: stranded_def)
qed

interpretation rls: inductive_invariant rl_step stranded
  by unfold_locales (use stranded_step in blast)

section \<open>Executable schedules\<close>

datatype turn = Reader nat | Writer nat | Signal target | Main

definition rl_follow :: "turn \<Rightarrow> rl_sys \<Rightarrow> (rl_event \<times> rl_sys) option" where
  "rl_follow c s =
     (if ub s then None else case c of
        Reader k \<Rightarrow> if k < length (rd_threads s) then thread_read k s else None
      | Writer k \<Rightarrow> if k < length (wr_threads s) then thread_write k s else None
      | Signal w \<Rightarrow> if alarm_set s then Some (Alarm, sig_handler w s) else None
      | Main \<Rightarrow> if main_runs s then map_option (\<lambda>t. (Tau, t)) (main_joins s) else None)"

lemma rl_follow_step: "rl_follow c s = Some (e, t) \<Longrightarrow> rl_step s e t"
  by (cases c) (auto simp: rl_follow_def intro: rl_step.intros split: if_splits)

lemma rl_follow_runs: "follow rl_follow cs s = Some (ls, t) \<Longrightarrow> runs rl_step s ls t"
  by (rule follow_runs [of rl_follow]) (rule rl_follow_step)

lemmas rl_exec = rl_follow_def thread_read_def thread_write_def sig_handler_def rl_start_def INT_MAX_def
  eval_nat_numeral

section \<open>Properties\<close>



text \<open>When the signal ends a reader between its lock and its unlock, the read lock is never
  given back: from then on no writer increments the counter.
\<close>

theorem rwlock_signal_strands:
  assumes "runs rl_step rl_start ls s" "k < length (rd_threads s)" "reading (rd_threads s ! k)"
    and "runs rl_step (sig_handler (To_reader k) s) ms t"
  shows "Counted \<notin> set ms"
proof -
  have inv: "rl_inv s" using rl.run_preserves [OF assms(1) rl_start_inv] .
  have "count_if reading ((rd_threads s)[k := RGone]) + 1 = count_if reading (rd_threads s)"
    using assms(2,3) by (simp add: count_if_update)
  then have st: "stranded (sig_handler (To_reader k) s)"
    using inv signal_inv [OF inv, of "To_reader k"]
    by (simp add: stranded_def leaked_def sig_handler_def rl_inv_def)
  have lab: "e \<noteq> Counted" if "stranded u" "rl_step u e v" for u e v
    using stranded_step [OF that] by simp
  have "list_all (\<lambda>e. e \<noteq> Counted) ms"
    by (rule rls.run_labels [OF lab assms(4) st])
  then show ?thesis by (auto simp: list_all_iff)
qed

lemma rwlock_signal_strands_witness:
  "\<exists>s t. runs rl_step rl_start [Tau] s \<and> runs rl_step (sig_handler (To_reader 0) s) [Tau, Printed 0] t
    \<and> Counted \<notin> set [Tau, Printed 0]"
proof -
  define s where "s = rl_start\<lparr>rd_held := 1, rd_threads := [RPrint, RLock, RLock, RLock, RLock]\<rparr>"
  have s: "follow rl_follow [Reader 0] rl_start = Some ([Tau], s)"
    and k: "0 < length (rd_threads s)" "reading (rd_threads s ! 0)"
    and f: "\<exists>t. follow rl_follow [Reader 1, Reader 1] (sig_handler (To_reader 0) s) = Some ([Tau, Printed 0], t)"
    by (simp_all add: rl_exec s_def)
  obtain t where t: "follow rl_follow [Reader 1, Reader 1] (sig_handler (To_reader 0) s) = Some ([Tau, Printed 0], t)"
    using f by blast
  from rwlock_signal_strands [OF rl_follow_runs [OF s] k rl_follow_runs [OF t]]
    rl_follow_runs [OF s] rl_follow_runs [OF t]
  show ?thesis by blast
qed

text \<open>When the signal ends the last reader, the next step of \<open>main\<close> is undefined.\<close>

theorem rwlock_signal_ub:
  "\<exists>s t. runs rl_step rl_start [Alarm] s \<and> rl_step s Tau t \<and> ub t"
proof -
  let ?cs = "[Signal (To_reader 4), Main]"
  have "\<exists>t. follow rl_follow ?cs rl_start = Some ([Alarm, Tau], t) \<and> ub t"
    by (simp add: rl_exec main_joins_def rwlock_joins thread_ended_def)
  then obtain t where t: "follow rl_follow ?cs rl_start = Some ([Alarm, Tau], t)" "ub t" by blast
  have "runs rl_step rl_start ([Alarm] @ [Tau]) t" using rl_follow_runs [OF t(1)] by simp
  then obtain s where "runs rl_step rl_start [Alarm] s" "rl_step s Tau t"
    by (cases rule: runs.cases) auto
  then show ?thesis using t(2) by blast
qed

end
