(* ===== verification/EchoSession.thy ===== *)
theory EchoSession
  imports EpollServersProps
begin

text \<open>
  A client of \<open>epoll/epoll_ET/client.c\<close> and \<open>epoll/epoll_LT/client.c\<close> (the two files are the
  same) talking to the server beside it: the client's process, the server's run and the
  connection between them in one system. The client sends a line, makes one \<open>read\<close> and shows
  what it got.
\<close>

section \<open>The client\<close>

definition NEWLINE :: char where "NEWLINE = CHR 0x0A"
definition NUL :: char where "NUL = CHR 0x00"

text \<open>\<open>fgets(buf, k + 1, stdin)\<close> on a non-empty input: up to \<open>k\<close> bytes, no further than a newline.\<close>

fun fgets_line :: "nat \<Rightarrow> string \<Rightarrow> string" where
  "fgets_line 0 inp = []"
| "fgets_line (Suc k) [] = []"
| "fgets_line (Suc k) (c # inp) = (if c = NEWLINE then [c] else c # fgets_line k inp)"

definition fgets :: "nat \<Rightarrow> string \<Rightarrow> (string \<times> string) option" where
  "fgets sz inp =
     (if inp = [] then None
      else let l = fgets_line (sz - 1) inp in Some (l, drop (length l) inp))"

text \<open>The bytes that \<open>strlen\<close> counts.\<close>

definition upto_nul :: "string \<Rightarrow> string" where
  "upto_nul l = takeWhile (\<lambda>c. c \<noteq> NUL) l"

definition client_size :: nat where "client_size = 128"

lemma fgets_line_cases: "inp \<noteq> [] \<Longrightarrow> 0 < k \<Longrightarrow> fgets_line k inp \<noteq> []"
  by (cases k; cases inp) auto

lemma fgets_line_length: "length (fgets_line k inp) \<le> k"
  by (induction k inp rule: fgets_line.induct) auto

lemma fgets_line_prefix: "fgets_line k inp @ drop (length (fgets_line k inp)) inp = inp"
  by (induction k inp rule: fgets_line.induct) auto

lemma fgetsD:
  assumes "fgets client_size inp = Some (l, rest)"
  shows "inp = l @ rest \<and> l \<noteq> [] \<and> length l < client_size"
proof -
  have "inp \<noteq> []" "l = fgets_line 127 inp" "rest = drop (length l) inp"
    using assms by (auto simp: fgets_def client_size_def Let_def split: if_splits)
  then show ?thesis
    using fgets_line_prefix [of 127 inp] fgets_line_length [of 127 inp] fgets_line_cases [of inp 127]
    by (simp add: client_size_def)
qed

text \<open>All that the client would send of an input: of each line the bytes before the first NUL.\<close>

function wire :: "string \<Rightarrow> string" where
  "wire inp = (case fgets client_size inp of None \<Rightarrow> [] | Some (l, rest) \<Rightarrow> upto_nul l @ wire rest)"
  by pat_completeness auto
termination by (relation "measure length") (auto dest!: fgetsD)

declare wire.simps [simp del]

lemma wire_plain: "NUL \<notin> set inp \<Longrightarrow> wire inp = inp"
proof (induction inp rule: wire.induct)
  case (1 inp)
  show ?case
  proof (cases "fgets client_size inp")
    case None
    then show ?thesis by (simp add: wire.simps [of inp]) (simp add: fgets_def Let_def split: if_splits)
  next
    case (Some x)
    then obtain l rest where f: "fgets client_size inp = Some (l, rest)" by (cases x) auto
    note d = fgetsD [OF f]
    then have "wire rest = rest" using 1 f by auto
    moreover have "upto_nul l = l" using d 1(2) by (auto simp: upto_nul_def takeWhile_eq_all_conv)
    ultimately have "wire inp = l @ rest" using f by (simp add: wire.simps [of inp])
    then show ?thesis using d by simp
  qed
qed

record session =
  srv :: eserver               \<comment> \<open>the server process\<close>
  typed :: string              \<comment> \<open>what the user will still type\<close>
  uplink :: string             \<comment> \<open>bytes from the client that have not reached the server\<close>
  replies :: string            \<comment> \<open>bytes from the server the client has not read\<close>
  awaiting :: bool             \<comment> \<open>the client is in \<open>read\<close>\<close>
  gone :: bool                 \<comment> \<open>the client has ended\<close>
  fin :: bool                  \<comment> \<open>the server's side has learnt of it\<close>

datatype sess_ev = Srv net_ev | Sent string | Carried string | Shown string | Left | Closed

text \<open>
  The client's moves: what it does at \<open>fgets\<close>, and what it does when the \<open>read\<close> returns the
  first \<open>n\<close> of the bytes that have arrived.
\<close>

datatype ask = Ends | Says string string      \<comment> \<open>the bytes sent and the remaining input\<close>

definition client_ask :: "session \<Rightarrow> ask" where
  "client_ask s =
     (case fgets client_size (typed s) of
        None \<Rightarrow> Ends
      | Some (l, rest) \<Rightarrow> Says (upto_nul l) rest)"

definition client_read :: "nat \<Rightarrow> session \<Rightarrow> (string \<times> session) option" where
  "client_read n s =
     (if 0 < n \<and> n \<le> min client_size (length (replies s))
      then Some (take n (replies s), s\<lparr>replies := drop n (replies s), awaiting := False\<rparr>)
      else None)"

section \<open>Client and server\<close>

text \<open>The server's own steps; its \<open>write\<close> calls to \<open>f\<close> do not fail.\<close>

fun server_side :: "fd \<Rightarrow> net_ev \<Rightarrow> bool" where
  "server_side f (Arrived g d) = (g \<noteq> f)"
| "server_side f (Hangup g) = (g \<noteq> f)"
| "server_side f (Unsent g d) = (g \<noteq> f)"
| "server_side f _ = True"

text \<open>
  What the client sends reaches the server piece by piece, and a \<open>read\<close> returns any non-empty
  beginning of what has been answered. \<open>whole\<close> says that neither is cut: a request arrives in one
  piece and a \<open>read\<close> returns all that has been answered, up to its size, as on the loopback
  interface. When the server has ended, \<open>read\<close> returns 0 or fails, and a \<open>write\<close> may kill the client.
\<close>

inductive session_step :: "nat \<Rightarrow> bool \<Rightarrow> fd \<Rightarrow> session \<Rightarrow> sess_ev \<Rightarrow> session \<Rightarrow> bool"
  for chunk whole f
where
  server: "eserver_step chunk (srv s) e v \<Longrightarrow> server_side f e \<Longrightarrow>
     session_step chunk whole f s (Srv e) (s\<lparr>srv := v, replies := replies s @ answer f e\<rparr>)"
| ask: "\<not> awaiting s \<Longrightarrow> \<not> gone s \<Longrightarrow> client_ask s = Says l rest \<Longrightarrow>
     session_step chunk whole f s (Sent l) (s\<lparr>typed := rest, uplink := uplink s @ l, awaiting := True\<rparr>)"
| carry: "0 < n \<Longrightarrow> n \<le> length (uplink s) \<Longrightarrow> \<not> whole \<or> n = length (uplink s) \<Longrightarrow>
     eserver_step chunk (srv s) (Arrived f (take n (uplink s))) v \<Longrightarrow>
     session_step chunk whole f s (Carried (take n (uplink s))) (s\<lparr>srv := v, uplink := drop n (uplink s)\<rparr>)"
| display: "awaiting s \<Longrightarrow> client_read n s = Some (d, t) \<Longrightarrow>
     \<not> whole \<or> n = min client_size (length (replies s)) \<Longrightarrow>
     session_step chunk whole f s (Shown d) t"
| cut_off: "awaiting s \<Longrightarrow> \<not> running (srv s) \<Longrightarrow> session_step chunk whole f s (Shown []) (s\<lparr>awaiting := False\<rparr>)"
| leave: "\<not> awaiting s \<Longrightarrow> \<not> gone s \<Longrightarrow> client_ask s = Ends \<or> \<not> running (srv s) \<Longrightarrow>
     session_step chunk whole f s Left (s\<lparr>gone := True\<rparr>)"
| closed: "gone s \<Longrightarrow> uplink s = [] \<Longrightarrow> \<not> fin s \<Longrightarrow> eserver_step chunk (srv s) (Hangup f) v \<Longrightarrow>
     session_step chunk whole f s Closed (s\<lparr>srv := v, fin := True\<rparr>)"

text \<open>A client that has just been accepted.\<close>

definition session_start :: "eserver \<Rightarrow> string \<Rightarrow> session" where
  "session_start v inp = \<lparr>srv = v, typed = inp, uplink = [], replies = [], awaiting = False, gone = False, fin = False\<rparr>"

definition connected :: "fd \<Rightarrow> eserver \<Rightarrow> bool" where
  "connected f v \<longleftrightarrow> opened (kern v) f \<and> f \<noteq> serverfd v \<and> \<not> eof (net v) f"

section \<open>The connection while the client lives\<close>

lemma client_asks:
  assumes "client_ask s = Says l rest"
  shows "wire (typed s) = l @ wire rest \<and> length l < client_size"
proof -
  obtain k where k: "fgets client_size (typed s) = Some (k, rest)" "l = upto_nul k"
    using assms by (auto simp: client_ask_def split: option.splits)
  have "length l \<le> length k" by (simp add: k(2) upto_nul_def length_takeWhile_le)
  moreover have "wire (typed s) = l @ wire rest" using k by (simp add: wire.simps [of "typed s"])
  ultimately show ?thesis using fgetsD [OF k(1)] by simp
qed

lemma client_ends: "client_ask s = Ends \<longleftrightarrow> typed s = []"
  by (auto simp: client_ask_def fgets_def Let_def)

inductive_cases eserver_stepE: "eserver_step chunk v e w"

lemma read_fd_eof: "read_fd k f n = Some (d, n') \<Longrightarrow> eof n' = eof n"
  by (auto simp: read_fd_def split: if_splits)

lemma client_event:
  "serve_client chunk r d v = Some (e, w) \<Longrightarrow>
    (\<forall>g. e \<noteq> Accepted g) \<and> (\<forall>g x. e \<noteq> Arrived g x) \<and> (\<forall>g. e \<noteq> Hangup g) \<and> e \<noteq> Joined
    \<and> eof (net w) = eof (net v) \<and> (f \<noteq> d \<longrightarrow> opened (kern w) f = opened (kern v) f)
    \<and> serverfd w = serverfd v"
  by (auto simp: serve_client_def Let_def read_fd_eof dest: write_end_event(2) split: if_splits option.splits)

lemma ctl_opened: "epoll_ctl operation f m d k = (b, k') \<Longrightarrow> opened k' = opened k"
  by (metis ctl_simps(3) snd_conv)

lemma listener_event:
  "serve_listener r v = Some (e, w) \<Longrightarrow> r_accept r = -1 \<or> fresh_fd (r_accept r) (kern v) \<Longrightarrow>
    (e = Quiet \<or> e = Accepted (r_accept r)) \<and> serverfd w = serverfd v
    \<and> (opened (kern v) f \<longrightarrow> opened (kern w) f \<and> eof (net w) f = eof (net v) f)"
  by (auto simp: serve_listener_def Let_def exit1_def accept_on_def fresh_fd_def dest!: ctl_opened
      split: if_splits prod.splits)

text \<open>The server does not close the connection of a client that has not hung up.\<close>

lemma client_keeps:
  assumes "serve_client chunk r f v = Some (e, w)" "opened (kern v) f" "\<not> eof (net v) f" "0 < chunk"
  shows "opened (kern w) f"
proof (cases "r_read_fails r")
  case True
  then show ?thesis using assms(1,2) by (auto simp: serve_client_def)
next
  case False
  then obtain buf n where rd: "read_fd chunk f (net v) = Some (buf, n)"
    using assms(1) by (auto simp: serve_client_def split: option.splits)
  then have "buf \<noteq> []" using assms(3,4) by (auto simp: read_fd_def has_input_def split: if_splits)
  then show ?thesis using assms(1,2) False rd by (auto simp: serve_client_def Let_def split: option.splits)
qed

lemma server_keeps:
  assumes step: "eserver_step chunk v e w" and con: "connected f v" and side: "server_side f e"
    and chunk: "0 < chunk"
  shows "connected f w"
  using step
proof cases
  case (serve g m d rest r t)
  show ?thesis
  proof (cases "d = serverfd v")
    case True
    then have l: "serve_listener r v = Some (e, t)" using serve by (simp add: serve_entry_def)
    show ?thesis using listener_event [OF l, of f] serve con by (auto simp: connected_def)
  next
    case False
    note server = this
    show ?thesis
    proof (cases "has m EPOLLIN")
      case True
      then have c: "serve_client chunk r d v = Some (e, t)" using serve server by (simp add: serve_entry_def)
      have "opened (kern t) f"
        using client_event [OF c, of f] client_keeps [of chunk r f v e t] c con chunk
        by (cases "f = d") (auto simp: connected_def)
      then show ?thesis using client_event [OF c, of f] serve con by (simp add: connected_def)
    qed (use serve server con in \<open>auto simp: serve_entry_def connected_def\<close>)
  qed
next
  case (written r)
  then show ?thesis using con by (auto simp: connected_def finish_write_def split: option.splits)
qed (use con side in \<open>auto simp: connected_def arrive_def hang_up_def exit1_def\<close>)

lemma serve_entry_event:
  "serve_entry chunk r m d v = Some (e, w) \<Longrightarrow> (\<forall>g x. e \<noteq> Arrived g x) \<and> (\<forall>g. e \<noteq> Hangup g)"
  using client_event [of chunk r d v e w]
  by (auto simp: serve_entry_def serve_listener_def Let_def split: if_splits prod.splits)

lemma finish_write_event:
  "finish_write r v = Some (e, w) \<Longrightarrow> (\<forall>g x. e \<noteq> Arrived g x) \<and> (\<forall>g. e \<noteq> Hangup g)"
  using write_end_event(2) by (fastforce simp: finish_write_def split: option.splits)

lemma arrivalD:
  assumes "eserver_step chunk v (Arrived f l) w"
  shows "w = v\<lparr>net := arrive f l (net v), edge := (edge v)(f := True)\<rparr>"
  using assms by cases (auto dest: serve_entry_event finish_write_event)

lemma hangupD:
  assumes "eserver_step chunk v (Hangup f) w"
  shows "w = v\<lparr>net := hang_up f (net v), edge := (edge v)(f := True)\<rparr>"
  using assms by cases (auto dest: serve_entry_event finish_write_event)

lemma arrival_keeps: "eserver_step chunk v (Arrived f l) w \<Longrightarrow> connected f v \<Longrightarrow> connected f w"
  by (auto dest!: arrivalD simp: connected_def arrive_def)

text \<open>A server that has ended stays so.\<close>

lemma serve_running: "serve_entry chunk r m d v = Some (e, w) \<Longrightarrow> running w \<Longrightarrow> running v"
  by (auto simp: serve_entry_def serve_listener_def serve_client_def exit1_def Let_def
      split: if_splits prod.splits option.splits)

lemma running_before: "eserver_step chunk v e w \<Longrightarrow> running w \<Longrightarrow> running v"
  by (erule eserver_stepE) (auto simp: exit1_def)

text \<open>A request that fits into one \<open>read\<close> of the server is answered by one \<open>write\<close>.\<close>

lemma turn_in_one:
  assumes "serve_client chunk r d v = Some (e, w)" "length (inq (net v) f) \<le> chunk" "writing v = None"
  shows "inq (net w) f = inq (net v) f \<and> answer f e = [] \<and> in_write f (writing w) = []
    \<or> inq (net w) f = [] \<and> (answer f e = [] \<or> in_write f (writing w) = [])"
proof (cases "r_read_fails r")
  case True
  then show ?thesis using assms(1,3) by (simp add: serve_client_def)
next
  case False
  then obtain buf n where rd: "read_fd chunk d (net v) = Some (buf, n)"
    using assms(1) by (auto simp: serve_client_def split: option.splits)
  have q: "f \<noteq> d \<Longrightarrow> inq n f = inq (net v) f" "f = d \<Longrightarrow> inq n f = []"
    using rd assms(2) by (auto simp: read_fd_def split: if_splits)
  have net: "net w = n" using assms(1) False rd by (auto simp: serve_client_def Let_def split: if_splits option.splits)
  have "f \<noteq> d \<Longrightarrow> answer f e = [] \<and> in_write f (writing w) = []"
    "answer f e = [] \<or> in_write f (writing w) = []"
    using assms(1,3) False rd write_end_event(1) [of "r_write r" d "map toupper buf" e f]
    by (auto simp: serve_client_def Let_def split: if_splits option.splits)
  then show ?thesis using q by (cases "f = d") (simp_all add: net)
qed

lemma server_in_one:
  assumes step: "eserver_step chunk v e w" and inv: "es_inv v" and side: "server_side f e"
    and len: "length (inq (net v) f) \<le> chunk"
  shows "inq (net w) f = inq (net v) f \<and> answer f e = [] \<and> in_write f (writing w) = in_write f (writing v)
    \<or> in_write f (writing v) = [] \<and> inq (net w) f = [] \<and> (answer f e = [] \<or> in_write f (writing w) = [])
    \<or> inq (net w) f = inq (net v) f \<and> in_write f (writing w) = []"
  using step
proof cases
  case (serve g m d rest r t)
  show ?thesis
  proof (cases "d = serverfd v")
    case True
    then have "serve_listener r v = Some (e, t)" using serve by (simp add: serve_entry_def)
    then show ?thesis using es_listener_step [of v r e t] inv serve by (simp add: es_inv_def)
  next
    case False
    note server = this
    show ?thesis
    proof (cases "has m EPOLLIN")
      case True
      then have c: "serve_client chunk r d v = Some (e, t)" using serve server by (simp add: serve_entry_def)
      show ?thesis using turn_in_one [OF c len serve(3)] serve(1,3) by auto
    qed (use serve server in \<open>auto simp: serve_entry_def\<close>)
  qed
next
  case (written r)
  then have "w = v\<lparr>writing := None\<rparr>" using finish_writeD [of r v e w f] by simp
  then show ?thesis by simp
qed (use side in \<open>auto simp: arrive_def hang_up_def exit1_def\<close>)

section \<open>The session\<close>

text \<open>What was sent and not yet shown, as capitals.\<close>

definition under_way :: "fd \<Rightarrow> session \<Rightarrow> string" where
  "under_way f s = replies s @ in_write f (writing (srv s)) @ map toupper (inq (net (srv s)) f)
     @ map toupper (uplink s)"

lemma under_way_held: "under_way f s = replies s @ es_held f (srv s) @ map toupper (uplink s)"
  by (simp add: under_way_def es_held_def)

fun sent_caps :: "sess_ev \<Rightarrow> string" where
  "sent_caps (Sent l) = map toupper l"
| "sent_caps _ = []"

fun shown_bytes :: "sess_ev \<Rightarrow> string" where
  "shown_bytes (Shown d) = d"
| "shown_bytes _ = []"

definition sess_inv :: "fd \<Rightarrow> session \<Rightarrow> bool" where
  "sess_inv f s \<longleftrightarrow> es_inv (srv s) \<and> (\<not> fin s \<longrightarrow> connected f (srv s))
     \<and> (gone s \<longrightarrow> \<not> awaiting s) \<and> (fin s \<longrightarrow> gone s)
     \<and> (gone s \<and> running (srv s) \<longrightarrow> typed s = [])"

lemma server_side_due: "server_side f e \<Longrightarrow> due f e = []"
  by (cases e) auto

lemma sess_step_ok:
  assumes "session_step chunk whole f s e t" "sess_inv f s" "0 < chunk"
  shows "sess_inv f t \<and> shown_bytes e @ under_way f t = under_way f s @ sent_caps e
    \<and> map toupper (wire (typed s)) = sent_caps e @ map toupper (wire (typed t))"
  using assms(1)
proof cases
  case (server e' v)
  have es: "es_inv (srv s)" using assms(2) by (simp add: sess_inv_def)
  note st = eserver_step_inv [OF assms(3) server(3) es, of f]
  have "connected f (srv s) \<Longrightarrow> connected f v" using server_keeps [OF server(3) _ server(4) assms(3)] .
  moreover have "running v \<Longrightarrow> running (srv s)" using running_before [OF server(3)] .
  ultimately show ?thesis
    using st server(1,2) server_side_due [OF server(4)] assms(2) by (simp add: sess_inv_def under_way_held)
next
  case (ask l rest)
  then show ?thesis
    using client_asks [OF ask(5)] assms(2) by (simp add: sess_inv_def under_way_held)
next
  case (carry n v)
  have es: "es_inv (srv s)" using assms(2) by (simp add: sess_inv_def)
  note st = eserver_step_inv [OF assms(3) carry(6) es, of f]
  have up: "map toupper (take n (uplink s)) @ map toupper (drop n (uplink s)) = map toupper (uplink s)"
    by (simp flip: map_append)
  have "connected f (srv s) \<Longrightarrow> connected f v" using arrival_keeps [OF carry(6)] .
  moreover have "running v \<Longrightarrow> running (srv s)" using running_before [OF carry(6)] .
  ultimately show ?thesis
    using st carry(1,2) assms(2) up by (simp add: sess_inv_def under_way_held)
next
  case (display n d)
  then show ?thesis
    using assms(2) by (auto simp: client_read_def sess_inv_def under_way_def split: if_splits)
next
  case cut_off
  then show ?thesis using assms(2) by (auto simp: sess_inv_def under_way_def)
next
  case leave
  then show ?thesis using client_ends [of s] assms(2) by (auto simp: sess_inv_def under_way_def)
next
  case (closed v)
  have es: "es_inv (srv s)" using assms(2) by (simp add: sess_inv_def)
  note st = eserver_step_inv [OF assms(3) closed(6) es, of f]
  have "running v \<Longrightarrow> running (srv s)" using running_before [OF closed(6)] .
  then show ?thesis using st closed assms(2) by (simp add: sess_inv_def under_way_held)
qed

text \<open>With the chunk sizes of the two servers.\<close>

interpretation es5: conserving_system "session_step 5 whole f" "sess_inv f" sent_caps shown_bytes "under_way f"
  for whole f
  by unfold_locales (use sess_step_ok [of 5] in auto)

interpretation es512: conserving_system "session_step 512 whole f" "sess_inv f" sent_caps shown_bytes "under_way f"
  for whole f
  by unfold_locales (use sess_step_ok [of 512] in auto)

interpretation ty5: conserving_system "session_step 5 whole f" "sess_inv f" "\<lambda>_. []" sent_caps
    "\<lambda>s. map toupper (wire (typed s))" for whole f
  by unfold_locales (use sess_step_ok [of 5] in auto)

interpretation ty512: conserving_system "session_step 512 whole f" "sess_inv f" "\<lambda>_. []" sent_caps
    "\<lambda>s. map toupper (wire (typed s))" for whole f
  by unfold_locales (use sess_step_ok [of 512] in auto)

lemma session_start_inv:
  "es_inv v \<Longrightarrow> connected f v \<Longrightarrow> sess_inv f (session_start v inp)"
  by (simp add: sess_inv_def session_start_def)

lemma session_start_under_way: "es_held f v = [] \<Longrightarrow> under_way f (session_start v inp) = []"
  by (simp add: under_way_held session_start_def)

section \<open>Lockstep\<close>

text \<open>While the server runs at most one line is under way, in one piece, and none when the
  client asks for the next.\<close>

definition one_piece :: "fd \<Rightarrow> session \<Rightarrow> bool" where
  "one_piece f s \<longleftrightarrow> length (filter (\<lambda>x. x \<noteq> [])
     [replies s, in_write f (writing (srv s)), inq (net (srv s)) f, uplink s]) \<le> 1"

definition lockstep :: "fd \<Rightarrow> session \<Rightarrow> bool" where
  "lockstep f s \<longleftrightarrow> sess_inv f s
     \<and> (running (srv s) \<longrightarrow> length (under_way f s) < client_size \<and> one_piece f s
          \<and> (\<not> awaiting s \<longrightarrow> under_way f s = []))"

lemma under_way_Nil:
  "under_way f s = [] \<longleftrightarrow> replies s = [] \<and> in_write f (writing (srv s)) = [] \<and> inq (net (srv s)) f = [] \<and> uplink s = []"
  by (simp add: under_way_def)

lemma lockstep_server:
  assumes step: "eserver_step 512 (srv s) e v" and side: "server_side f e" and inv: "lockstep f s"
  shows "lockstep f (s\<lparr>srv := v, replies := replies s @ answer f e\<rparr>)"
proof -
  let ?t = "s\<lparr>srv := v, replies := replies s @ answer f e\<rparr>"
  have "session_step 512 True f s (Srv e) ?t" by (rule session_step.server [OF step side])
  then have st: "sess_inv f ?t" "under_way f ?t = under_way f s"
    using sess_step_ok [of 512 True f s "Srv e" ?t] inv by (auto simp: lockstep_def)
  have run: "running v \<Longrightarrow> running (srv s)" using running_before [OF step] .
  have "one_piece f ?t" if r: "running v"
  proof -
    have len: "length (inq (net (srv s)) f) \<le> 512" and one: "one_piece f s"
      using inv run [OF r] by (simp_all add: lockstep_def under_way_def client_size_def)
    have es: "es_inv (srv s)" using inv by (simp add: lockstep_def sess_inv_def)
    have "answer f e @ in_write f (writing v) @ map toupper (inq (net v) f)
        = in_write f (writing (srv s)) @ map toupper (inq (net (srv s)) f)"
      using st(2) by (simp add: under_way_def)
    then show ?thesis
      using server_in_one [OF step es side len] one
      by (auto simp: one_piece_def split: if_splits)
  qed
  then show ?thesis using st inv run by (simp add: lockstep_def)
qed

lemma lockstep_step:
  assumes step: "session_step 512 True f s e t" and inv: "lockstep f s"
  shows "lockstep f t"
proof -
  have ok: "sess_inv f t \<and> shown_bytes e @ under_way f t = under_way f s @ sent_caps e"
    using sess_step_ok [OF step] inv by (simp add: lockstep_def)
  from step show ?thesis
  proof cases
    case (server e' v)
    then show ?thesis using lockstep_server [OF server(3,4) inv] by simp
  next
    case (ask l rest)
    have "length l < client_size" using client_asks [OF ask(5)] by blast
    moreover have "running (srv s) \<Longrightarrow> under_way f s = []" using ask inv by (simp add: lockstep_def)
    moreover have "under_way f s = [] \<Longrightarrow> one_piece f t \<and> under_way f t = map toupper l"
      using ask ok by (simp add: under_way_Nil one_piece_def)
    ultimately show ?thesis using ok ask by (auto simp: lockstep_def)
  next
    case (carry n v)
    have v: "writing v = writing (srv s)" "running v = running (srv s)"
      "inq (net v) f = inq (net (srv s)) f @ take n (uplink s)"
      using arrivalD [OF carry(6)] by (simp_all add: arrive_def)
    have "one_piece f t" if "running v"
    proof -
      have "one_piece f s" using that v inv by (simp add: lockstep_def)
      moreover have "uplink s \<noteq> []" "n = length (uplink s)" using carry(3,4,5) by auto
      ultimately show ?thesis using carry(2) v by (auto simp: one_piece_def split: if_splits)
    qed
    moreover have "under_way f t = under_way f s" using ok carry(1) by simp
    ultimately show ?thesis using ok inv carry(2) v(2) by (simp add: lockstep_def)
  next
    case (display n d)
    have "under_way f t = []" if "running (srv s)"
    proof -
      have "length (replies s) \<le> client_size" "replies s \<noteq> []" "one_piece f s"
        using inv display that by (auto simp: lockstep_def under_way_def client_read_def split: if_splits)
      then show ?thesis
        using display by (auto simp: under_way_Nil one_piece_def client_read_def split: if_splits)
    qed
    moreover have "srv t = srv s" using display by (auto simp: client_read_def split: if_splits)
    moreover have "under_way f t = [] \<Longrightarrow> one_piece f t" by (simp add: under_way_Nil one_piece_def)
    ultimately show ?thesis using ok by (auto simp: lockstep_def client_size_def)
  next
    case cut_off
    then show ?thesis using ok by (simp add: lockstep_def)
  next
    case leave
    have "under_way f s = [] \<Longrightarrow> one_piece f t"
      by (simp add: leave(2) under_way_Nil one_piece_def)
    then show ?thesis using ok inv leave by (auto simp: lockstep_def)
  next
    case (closed v)
    have v: "writing v = writing (srv s)" "running v = running (srv s)" "inq (net v) f = inq (net (srv s)) f"
      using hangupD [OF closed(6)] by (simp_all add: hang_up_def)
    have "\<not> awaiting s" using inv closed(3) by (simp add: lockstep_def sess_inv_def)
    moreover have "under_way f s = [] \<Longrightarrow> one_piece f t"
      by (simp add: closed(2) v under_way_Nil one_piece_def)
    moreover note v
    ultimately show ?thesis using ok inv closed(1,2) by (auto simp: lockstep_def)
  qed
qed

interpretation ls: inductive_invariant "session_step 512 True f" "lockstep f" for f
  by unfold_locales (rule lockstep_step)

lemma session_start_lockstep:
  "es_inv v \<Longrightarrow> connected f v \<Longrightarrow> es_held f v = [] \<Longrightarrow> lockstep f (session_start v inp)"
  by (simp add: lockstep_def session_start_inv session_start_under_way client_size_def)
    (simp add: session_start_def one_piece_def es_held_def)

section \<open>Schedules\<close>

datatype sess_move = By_server es_move | Client | Carry nat | Reads nat

definition sess_exec :: "nat \<Rightarrow> fd \<Rightarrow> sess_move \<Rightarrow> session \<Rightarrow> (sess_ev \<times> session) option" where
  "sess_exec chunk f mv s =
     (case mv of
        By_server m \<Rightarrow>
          (case es_exec chunk m (srv s) of
             None \<Rightarrow> None
           | Some (e, v) \<Rightarrow>
               if server_side f e then Some (Srv e, s\<lparr>srv := v, replies := replies s @ answer f e\<rparr>) else None)
      | Client \<Rightarrow>
          if awaiting s \<or> gone s then None
          else (case client_ask s of
             Ends \<Rightarrow> Some (Left, s\<lparr>gone := True\<rparr>)
           | Says l rest \<Rightarrow> Some (Sent l, s\<lparr>typed := rest, uplink := uplink s @ l, awaiting := True\<rparr>))
      | Carry n \<Rightarrow>
          if 0 < n \<and> n = length (uplink s)
          then map_option (\<lambda>(e, v). (Carried (take n (uplink s)), s\<lparr>srv := v, uplink := drop n (uplink s)\<rparr>))
                 (es_exec chunk (Arrive f (take n (uplink s))) (srv s))
          else None
      | Reads n \<Rightarrow>
          if awaiting s \<and> n = min client_size (length (replies s))
          then map_option (\<lambda>(d, t). (Shown d, t)) (client_read n s) else None)"

lemma es_exec_arrives:
  "es_exec chunk (Arrive f l) v = Some (e, w) \<Longrightarrow> eserver_step chunk v (Arrived f l) w"
  by (auto simp: es_exec_def intro: eserver_step.arrive split: if_splits)

lemma sess_exec_step:
  assumes "sess_exec chunk f mv s = Some (e, t)"
  shows "session_step chunk True f s e t"
proof (cases mv)
  case (By_server m)
  then show ?thesis using assms
    by (auto simp: sess_exec_def intro: session_step.server [OF es_exec_step] split: option.splits if_splits)
next
  case Client
  then show ?thesis using assms
    by (auto simp: sess_exec_def intro: session_step.ask session_step.leave split: if_splits ask.splits)
next
  case (Carry n)
  then obtain e' v where "es_exec chunk (Arrive f (take n (uplink s))) (srv s) = Some (e', v)"
    and "0 < n" "n = length (uplink s)"
    and t: "e = Carried (take n (uplink s))" "t = s\<lparr>srv := v, uplink := drop n (uplink s)\<rparr>"
    using assms by (auto simp: sess_exec_def split: if_splits)
  then have "session_step chunk True f s (Carried (take n (uplink s))) (s\<lparr>srv := v, uplink := drop n (uplink s)\<rparr>)"
    by (intro session_step.carry es_exec_arrives) simp_all
  then show ?thesis by (simp only: t)
next
  case (Reads n)
  then show ?thesis using assms
    by (auto simp: sess_exec_def intro: session_step.display split: if_splits)
qed

text \<open>A server that has accepted a client as descriptor 4, and a session on it.\<close>

definition sess_outcome ::
  "nat \<Rightarrow> eserver option \<Rightarrow> string \<Rightarrow> sess_move list \<Rightarrow> (sess_ev list \<Rightarrow> session \<Rightarrow> bool) \<Rightarrow> bool" where
  "sess_outcome chunk v0 inp ms P =
     es_outcome chunk [Join, Wait [(3, EPOLLIN, 3)], Serve (gets 4)] v0
       (\<lambda>_ v. connected 4 v \<and> inq (net v) 4 = [] \<and> in_write 4 (writing v) = []
          \<and> (case follow (sess_exec chunk 4) ms (session_start v inp) of
               None \<Rightarrow> False | Some (ls, t) \<Rightarrow> P ls t))"

lemma sess_outcome_runs:
  "sess_outcome chunk v0 inp ms P \<Longrightarrow> \<exists>v1 es v ls t. v0 = Some v1 \<and> runs (eserver_step chunk) v1 es v
    \<and> connected 4 v \<and> inq (net v) 4 = [] \<and> in_write 4 (writing v) = []
    \<and> runs (session_step chunk True 4) (session_start v inp) ls t \<and> P ls t"
proof -
  assume "sess_outcome chunk v0 inp ms P"
  from es_outcome_runs [OF this [unfolded sess_outcome_def]]
  obtain v1 es v where r: "v0 = Some v1" "runs (eserver_step chunk) v1 es v" "connected 4 v" "inq (net v) 4 = []"
      "in_write 4 (writing v) = []"
    and f: "case follow (sess_exec chunk 4) ms (session_start v inp) of None \<Rightarrow> False | Some (ls, t) \<Rightarrow> P ls t"
    by blast
  obtain ls t where "follow (sess_exec chunk 4) ms (session_start v inp) = Some (ls, t)" and "P ls t"
    using f by (auto split: option.splits)
  moreover from this have "runs (session_step chunk True 4) (session_start v inp) ls t"
    by (intro follow_runs [of "sess_exec chunk 4"] sess_exec_step)
  ultimately show ?thesis using r by blast
qed

definition hello_line :: string where "hello_line = ''hello, you'' @ [NEWLINE]"

text \<open>One line typed, answered and shown, and the end of the input.\<close>

lemma lt_session_outcome:
  "sess_outcome 512 (lt_setup 3 0 5) hello_line
     [Client, Carry 11, By_server (Wait [(4, EPOLLIN, 4)]), By_server (Serve (gets (-1))), Reads 11, Client]
     (\<lambda>ls t. gone t \<and> running (srv t))"
  by code_simp

lemma et_session_outcome:
  "sess_outcome 5 (et_setup 3 0 5) hello_line
     [Client, Carry 11, By_server (Wait [(4, EPOLLIN, 4)]), By_server (Serve (gets (-1))), Reads 5, Client]
     (\<lambda>ls t. gone t \<and> concat (map shown_bytes ls) = ''HELLO'')"
  by code_simp

lemma session_total:
  assumes "a @ u = s" "s @ r = i @ concat (map (\<lambda>_. []) ls)"
  shows "i = a @ u @ r"
proof -
  have "concat (map (\<lambda>_. []) ls) = []" by (induction ls) auto
  with assms show ?thesis by auto
qed

section \<open>Properties\<close>

text \<open>C3: client and server together, whichever server it is and however TCP cuts requests and
  answers: what the client's terminal shows, followed by what is under way, is the capitals of
  what it has sent, and with what it will still send the capitals of all that it sends of its
  input, which is the whole input when that has no NUL byte (the client measures its lines with
  \<open>strlen\<close>). Nothing is shown out of order, twice or altered. The connection works: no \<open>write\<close> of
  the server to the client fails.
\<close>

theorem session_shows_prefix:
  assumes "et_setup b p q = Some v0 \<and> runs et_step v0 es v \<and> chunk = 5
      \<or> lt_setup b p q = Some v0 \<and> runs lt_step v0 es v \<and> chunk = 512"
    and "connected f v" "inq (net v) f = []" "in_write f (writing v) = []"
    and "runs (session_step chunk whole f) (session_start v inp) ls t"
  shows "map toupper (wire inp) = concat (map shown_bytes ls) @ under_way f t @ map toupper (wire (typed t))
    \<and> (NUL \<notin> set inp \<longrightarrow> wire inp = inp)"
proof -
  have "es_inv v" using assms(1) et_setup_inv et.run_preserves lt_setup_inv lt.run_preserves by blast
  then have i: "sess_inv f (session_start v inp)" using session_start_inv assms(2) by blast
  have u: "under_way f (session_start v inp) = []"
    using assms(3,4) by (intro session_start_under_way) (simp add: es_held_def)
  have ty: "typed (session_start v inp) = inp" by (simp add: session_start_def)
  from assms(1) consider "chunk = 5" | "chunk = 512" by blast
  then have "map toupper (wire inp) = concat (map shown_bytes ls) @ under_way f t @ map toupper (wire (typed t))"
  proof cases
    case 1
    note r = assms(5) [unfolded 1]
    show ?thesis
      by (rule session_total [of _ _ "concat (map sent_caps ls)" _ _ ls])
        (use es5.run_conserves [OF r i] ty5.run_conserves [OF r i] in \<open>simp_all add: u ty\<close>)
  next
    case 2
    note r = assms(5) [unfolded 2]
    show ?thesis
      by (rule session_total [of _ _ "concat (map sent_caps ls)" _ _ ls])
        (use es512.run_conserves [OF r i] ty512.run_conserves [OF r i] in \<open>simp_all add: u ty\<close>)
  qed
  then show ?thesis using wire_plain by blast
qed

text \<open>C38: with the level triggered server, over a connection that delivers each request and each
  answer whole, client and server stay in lockstep as long as the server runs: whenever the
  client asks for the next line everything it has sent has been shown, so a client that has
  ended has shown the capitals of all that it sends of its input, the whole input when that has
  no NUL byte.
\<close>

theorem lt_session_complete:
  assumes "lt_setup b p q = Some v0" "runs lt_step v0 es v"
    and "connected f v" "inq (net v) f = []" "in_write f (writing v) = []"
    and "runs (session_step 512 True f) (session_start v inp) ls t" "\<not> awaiting t" "running (srv t)"
  shows "map toupper (wire inp) = concat (map shown_bytes ls) @ map toupper (wire (typed t))
    \<and> (gone t \<longrightarrow> wire (typed t) = []) \<and> (NUL \<notin> set inp \<longrightarrow> wire inp = inp)"
proof -
  have es: "es_inv v" using assms(1,2) lt_setup_inv lt.run_preserves by blast
  then have i: "sess_inv f (session_start v inp)" using session_start_inv assms(3) by blast
  have held: "es_held f v = []" using assms(4,5) by (simp add: es_held_def)
  have ty: "typed (session_start v inp) = inp" by (simp add: session_start_def)
  have ls: "lockstep f t"
    using ls.run_preserves [OF assms(6)] session_start_lockstep [OF es assms(3) held] by blast
  then have none: "under_way f t = []" using assms(7,8) by (simp add: lockstep_def)
  have "map toupper (wire inp) = concat (map shown_bytes ls) @ under_way f t @ map toupper (wire (typed t))"
    by (rule session_total [of _ _ "concat (map sent_caps ls)" _ _ ls])
      (use es512.run_conserves [OF assms(6) i] ty512.run_conserves [OF assms(6) i]
        session_start_under_way [OF held] in \<open>simp_all add: ty\<close>)
  moreover have "gone t \<longrightarrow> wire (typed t) = []"
    using ls assms(8) by (simp add: lockstep_def sess_inv_def wire.simps fgets_def)
  ultimately show ?thesis using none wire_plain by simp
qed

text \<open>With the edge triggered server, which reads five bytes at a time, the client loses the
  end of its input: it makes one \<open>read\<close> for each line and leaves when the input ends, also
  when TCP delivers every request and every answer whole.
\<close>

theorem et_session_loses_tail:
  "\<exists>v0 es v ls t. et_setup 3 0 5 = Some v0 \<and> runs et_step v0 es v \<and> connected 4 v \<and> inq (net v) 4 = []
     \<and> runs (session_step 5 True 4) (session_start v hello_line) ls t \<and> gone t
     \<and> concat (map shown_bytes ls) = ''HELLO''"
  using sess_outcome_runs [OF et_session_outcome] by metis

theorem session_shows_prefix_witness:
  "\<exists>v t ls. runs (session_step 5 True 4) (session_start v hello_line) ls t \<and> gone t
     \<and> map toupper hello_line = ''HELLO'' @ under_way 4 t @ map toupper (wire (typed t))"
proof -
  obtain v0 es v ls t where r: "et_setup 3 0 5 = Some v0" "runs et_step v0 es v" "connected 4 v" "inq (net v) 4 = []"
    "in_write 4 (writing v) = []"
    "runs (session_step 5 True 4) (session_start v hello_line) ls t" "gone t" "concat (map shown_bytes ls) = ''HELLO''"
    using sess_outcome_runs [OF et_session_outcome] by metis
  have "NUL \<notin> set hello_line" by code_simp
  then show ?thesis using session_shows_prefix [OF disjI1 r(3,4,5,6)] r by metis
qed

theorem lt_session_complete_witness:
  "\<exists>v t ls. runs (session_step 512 True 4) (session_start v hello_line) ls t \<and> gone t
     \<and> map toupper hello_line = concat (map shown_bytes ls)"
proof -
  obtain v0 es v ls t where r: "lt_setup 3 0 5 = Some v0" "runs lt_step v0 es v" "connected 4 v" "inq (net v) 4 = []"
    "in_write 4 (writing v) = []"
    "runs (session_step 512 True 4) (session_start v hello_line) ls t" "gone t" "running (srv t)"
    using sess_outcome_runs [OF lt_session_outcome] by metis
  have nul: "NUL \<notin> set hello_line" by code_simp
  have "es_inv v" using r(1,2) lt_setup_inv lt.run_preserves by blast
  then have "sess_inv 4 t" using es512.run_preserves [OF r(6)] session_start_inv r(3) by blast
  then have "\<not> awaiting t" using r(7) by (simp add: sess_inv_def)
  from lt_session_complete [OF r(1-6) this r(8)] r nul show ?thesis by force
qed

end
