(* ===== verification/Files.thy ===== *)
theory Files
  imports Prelude "HOL-Library.Word"
begin

unbundle bit_operations_syntax

text \<open>
  The part of the file system that the programs of \<open>IO\<close> and \<open>file_system\<close> use: names, inodes
  with their link counts, and the table of open files of one process, which owns all files
  and is not root. Errors come from the state only; a full disk has no counterpart.
\<close>

section \<open>State\<close>

type_synonym mode = "32 word"

definition S_IRUSR :: mode where "S_IRUSR = 0x100"
definition S_IWUSR :: mode where "S_IWUSR = 0x80"
definition S_IXUSR :: mode where "S_IXUSR = 0x40"
definition S_IRGRP :: mode where "S_IRGRP = 0x20"
definition S_IWGRP :: mode where "S_IWGRP = 0x10"
definition S_IXGRP :: mode where "S_IXGRP = 0x08"
definition S_IROTH :: mode where "S_IROTH = 0x04"
definition S_IWOTH :: mode where "S_IWOTH = 0x02"
definition S_IXOTH :: mode where "S_IXOTH = 0x01"
definition S_IRWXU :: mode where "S_IRWXU = 0x1C0"
definition S_IRWXG :: mode where "S_IRWXG = 0x38"
definition S_IRWXO :: mode where "S_IRWXO = 0x07"

lemmas mode_bits = S_IRUSR_def S_IWUSR_def S_IXUSR_def S_IRGRP_def S_IWGRP_def S_IXGRP_def
  S_IROTH_def S_IWOTH_def S_IXOTH_def S_IRWXU_def S_IRWXG_def S_IRWXO_def

datatype kind = Regular | Symlink string | Directory

record inode =
  kind :: kind
  data :: string
  perm :: mode
  nlink :: nat

record open_file =                 \<comment> \<open>an open file\<close>
  ino :: nat
  pos :: nat
  rd :: bool
  wr :: bool
  app :: bool

record fs =
  names :: "string \<Rightarrow> nat option"
  inodes :: "nat \<Rightarrow> inode option"
  next_ino :: nat
  files :: "open_file option list"   \<comment> \<open>by descriptor\<close>
  cmask :: mode                 \<comment> \<open>the file mode creation mask\<close>

datatype errno = ENOENT | EEXIST | EACCES | EISDIR | ELOOP | EBADF | EINVAL | ENOTDIR | EPERM

definition bit_set :: "mode \<Rightarrow> mode \<Rightarrow> bool" where
  "bit_set m b \<longleftrightarrow> m AND b \<noteq> 0"

section \<open>Names\<close>

text \<open>A symbolic link is followed at most 40 times.\<close>

fun resolve :: "nat \<Rightarrow> fs \<Rightarrow> string \<Rightarrow> string option" where
  "resolve 0 k p = None"
| "resolve (Suc n) k p =
     (case names k p of
        None \<Rightarrow> Some p
      | Some i \<Rightarrow>
          (case inodes k i of
             None \<Rightarrow> Some p
           | Some nd \<Rightarrow> (case kind nd of Symlink q \<Rightarrow> resolve n k q | _ \<Rightarrow> Some p)))"

definition MAXSYMLINKS :: nat where "MAXSYMLINKS = 40"

text \<open>The inode a path leads to, through symbolic links.\<close>

definition lookup :: "string \<Rightarrow> fs \<Rightarrow> errno + (nat \<times> inode)" where
  "lookup p k =
     (case resolve MAXSYMLINKS k p of
        None \<Rightarrow> Inl ELOOP
      | Some q \<Rightarrow>
          (case names k q of
             None \<Rightarrow> Inl ENOENT
           | Some i \<Rightarrow> (case inodes k i of None \<Rightarrow> Inl ENOENT | Some nd \<Rightarrow> Inr (i, nd))))"

text \<open>A new inode under a new name. A directory is also linked by its own entry \<open>.\<close>.\<close>

definition new_node :: "string \<Rightarrow> kind \<Rightarrow> mode \<Rightarrow> fs \<Rightarrow> fs" where
  "new_node p kd m k =
     k\<lparr>names := (names k)(p := Some (next_ino k)),
       inodes := (inodes k)(next_ino k := Some \<lparr>kind = kd, data = [], perm = m, nlink = if kd = Directory then 2 else 1\<rparr>),
       next_ino := next_ino k + 1\<rparr>"

definition set_node :: "nat \<Rightarrow> inode \<Rightarrow> fs \<Rightarrow> fs" where
  "set_node i nd k = k\<lparr>inodes := (inodes k)(i := Some nd)\<rparr>"

section \<open>Opening\<close>

definition O_RDONLY :: mode where "O_RDONLY = 0"
definition O_WRONLY :: mode where "O_WRONLY = 1"
definition O_RDWR :: mode where "O_RDWR = 2"
definition O_CREAT :: mode where "O_CREAT = 0x40"
definition O_TRUNC :: mode where "O_TRUNC = 0x200"
definition O_APPEND :: mode where "O_APPEND = 0x400"

lemmas open_flags = O_RDONLY_def O_WRONLY_def O_RDWR_def O_CREAT_def O_TRUNC_def O_APPEND_def

definition for_reading :: "mode \<Rightarrow> bool" where
  "for_reading fl \<longleftrightarrow> fl AND 3 = O_RDONLY \<or> fl AND 3 = O_RDWR"

definition for_writing :: "mode \<Rightarrow> bool" where
  "for_writing fl \<longleftrightarrow> fl AND 3 = O_WRONLY \<or> fl AND 3 = O_RDWR"

text \<open>The lowest free descriptor is taken.\<close>

fun alloc_fd :: "open_file \<Rightarrow> open_file option list \<Rightarrow> nat \<times> open_file option list" where
  "alloc_fd f [] = (0, [Some f])"
| "alloc_fd f (None # fs) = (0, Some f # fs)"
| "alloc_fd f (Some g # fs) = (case alloc_fd f fs of (n, gs) \<Rightarrow> (Suc n, Some g # gs))"

definition open_node :: "nat \<Rightarrow> mode \<Rightarrow> fs \<Rightarrow> nat \<times> fs" where
  "open_node i fl k =
     (case alloc_fd \<lparr>ino = i, pos = 0, rd = for_reading fl, wr = for_writing fl, app = bit_set fl O_APPEND\<rparr>
             (files k) of
        (n, fs) \<Rightarrow> (n, k\<lparr>files := fs\<rparr>))"

definition may :: "inode \<Rightarrow> mode \<Rightarrow> bool" where
  "may nd b \<longleftrightarrow> bit_set (perm nd) b"

text \<open>\<open>open(p, fl, m)\<close>.\<close>

definition open_call :: "string \<Rightarrow> mode \<Rightarrow> mode \<Rightarrow> fs \<Rightarrow> errno + (nat \<times> fs)" where
  "open_call p fl m k =
     (case resolve MAXSYMLINKS k p of
        None \<Rightarrow> Inl ELOOP
      | Some q \<Rightarrow>
          (case lookup p k of
             Inl e \<Rightarrow>
               if bit_set fl O_CREAT
               then Inr (open_node (next_ino k) fl (new_node q Regular (m AND 0xFFF AND NOT (cmask k)) k))
               else Inl e
           | Inr (i, nd) \<Rightarrow>
               if kind nd = Directory \<and> (for_writing fl \<or> bit_set fl O_CREAT) then Inl EISDIR
               else if (for_reading fl \<longrightarrow> may nd S_IRUSR) \<and> (for_writing fl \<longrightarrow> may nd S_IWUSR)
               then Inr (open_node i fl (if bit_set fl O_TRUNC then set_node i (nd\<lparr>data := []\<rparr>) k else k))
               else Inl EACCES))"

definition creat :: "string \<Rightarrow> mode \<Rightarrow> fs \<Rightarrow> errno + (nat \<times> fs)" where
  "creat p m k = open_call p (O_WRONLY OR O_CREAT OR O_TRUNC) m k"

section \<open>Open files\<close>

definition file_at :: "nat \<Rightarrow> fs \<Rightarrow> open_file option" where
  "file_at n k = (if n < length (files k) then files k ! n else None)"

definition set_file :: "nat \<Rightarrow> open_file \<Rightarrow> fs \<Rightarrow> fs" where
  "set_file n f k = k\<lparr>files := (files k)[n := Some f]\<rparr>"

text \<open>The open file and its inode.\<close>

definition opened_as :: "nat \<Rightarrow> fs \<Rightarrow> (open_file \<times> inode) option" where
  "opened_as n k =
     (case file_at n k of
        None \<Rightarrow> None
      | Some f \<Rightarrow> map_option (\<lambda>nd. (f, nd)) (inodes k (ino f)))"

definition read_call :: "nat \<Rightarrow> nat \<Rightarrow> fs \<Rightarrow> errno + (string \<times> fs)" where
  "read_call n cnt k =
     (case opened_as n k of
        None \<Rightarrow> Inl EBADF
      | Some (f, nd) \<Rightarrow>
          if \<not> rd f then Inl EBADF
          else if kind nd = Directory then Inl EISDIR
          else (let d = take cnt (drop (pos f) (data nd))
                in Inr (d, set_file n (f\<lparr>pos := pos f + length d\<rparr>) k)))"

text \<open>Bytes stored from a position on; a gap behind the end is filled with zeros.\<close>

definition NULB :: char where "NULB = CHR 0x00"

definition put_at :: "nat \<Rightarrow> string \<Rightarrow> string \<Rightarrow> string" where
  "put_at at d old =
     take at old @ replicate (at - length old) NULB @ d @ drop (at + length d) old"

definition write_call :: "nat \<Rightarrow> string \<Rightarrow> fs \<Rightarrow> errno + (nat \<times> fs)" where
  "write_call n d k =
     (case opened_as n k of
        None \<Rightarrow> Inl EBADF
      | Some (f, nd) \<Rightarrow>
          if \<not> wr f then Inl EBADF
          else (let at = (if app f then length (data nd) else pos f)
                in Inr (length d,
                     set_file n (f\<lparr>pos := at + length d\<rparr>)
                       (set_node (ino f) (nd\<lparr>data := put_at at d (data nd)\<rparr>) k))))"

definition resized :: "nat \<Rightarrow> string \<Rightarrow> string" where
  "resized n d = take n d @ replicate (n - length d) NULB"

definition ftruncate :: "nat \<Rightarrow> nat \<Rightarrow> fs \<Rightarrow> errno + fs" where
  "ftruncate n sz k =
     (case opened_as n k of
        None \<Rightarrow> Inl EBADF
      | Some (f, nd) \<Rightarrow>
          if \<not> wr f then Inl EINVAL else Inr (set_node (ino f) (nd\<lparr>data := resized sz (data nd)\<rparr>) k))"

definition fstat_size :: "nat \<Rightarrow> fs \<Rightarrow> errno + nat" where
  "fstat_size n k = (case opened_as n k of None \<Rightarrow> Inl EBADF | Some (f, nd) \<Rightarrow> Inr (length (data nd)))"

section \<open>Links\<close>

text \<open>\<open>link\<close> does not follow its first argument and gives it a second name. The directory is the
  caller's own and may be written, and the disk has room: the errors EACCES, EMLINK and ENOSPC, with
  which a real file system may refuse the new name, do not occur here.\<close>

definition link_call :: "string \<Rightarrow> string \<Rightarrow> fs \<Rightarrow> errno + fs" where
  "link_call old nw k =
     (case names k old of
        None \<Rightarrow> Inl ENOENT
      | Some i \<Rightarrow>
          (case inodes k i of
             None \<Rightarrow> Inl ENOENT
           | Some nd \<Rightarrow>
               if names k nw \<noteq> None then Inl EEXIST
               else if kind nd = Directory then Inl EPERM
               else Inr (set_node i (nd\<lparr>nlink := nlink nd + 1\<rparr>) (k\<lparr>names := (names k)(nw := Some i)\<rparr>))))"

text \<open>The inode goes with its last name unless a process has it open.\<close>

definition is_open :: "nat \<Rightarrow> fs \<Rightarrow> bool" where
  "is_open i k \<longleftrightarrow> list_ex (\<lambda>x. case x of None \<Rightarrow> False | Some f \<Rightarrow> ino f = i) (files k)"

definition unlink_call :: "string \<Rightarrow> fs \<Rightarrow> errno + fs" where
  "unlink_call p k =
     (case names k p of
        None \<Rightarrow> Inl ENOENT
      | Some i \<Rightarrow>
          (case inodes k i of
             None \<Rightarrow> Inl ENOENT
           | Some nd \<Rightarrow>
               if kind nd = Directory then Inl EISDIR
               else (let k1 = k\<lparr>names := (names k)(p := None)\<rparr>
                     in Inr (if nlink nd = 1 \<and> \<not> is_open i k
                             then k1\<lparr>inodes := (inodes k)(i := None)\<rparr>
                             else set_node i (nd\<lparr>nlink := nlink nd - 1\<rparr>) k1))))"

definition symlink_call :: "string \<Rightarrow> string \<Rightarrow> fs \<Rightarrow> errno + fs" where
  "symlink_call target p k =
     (if names k p \<noteq> None then Inl EEXIST else Inr (new_node p (Symlink target) 0x1FF k))"

definition readlink :: "string \<Rightarrow> nat \<Rightarrow> fs \<Rightarrow> errno + string" where
  "readlink p sz k =
     (case names k p of
        None \<Rightarrow> Inl ENOENT
      | Some i \<Rightarrow>
          (case inodes k i of
             None \<Rightarrow> Inl ENOENT
           | Some nd \<Rightarrow> (case kind nd of Symlink t \<Rightarrow> Inr (take sz t) | _ \<Rightarrow> Inl EINVAL)))"

definition mkdir_call :: "string \<Rightarrow> mode \<Rightarrow> fs \<Rightarrow> errno + fs" where
  "mkdir_call p m k =
     (if names k p \<noteq> None then Inl EEXIST
      else Inr (new_node p Directory (m AND 0x1FF AND NOT (cmask k)) k))"

section \<open>Permissions\<close>

definition umask_call :: "mode \<Rightarrow> fs \<Rightarrow> fs" where
  "umask_call m k = k\<lparr>cmask := m AND 0x1FF\<rparr>"

definition chmod_call :: "string \<Rightarrow> mode \<Rightarrow> fs \<Rightarrow> errno + fs" where
  "chmod_call p m k =
     (case lookup p k of
        Inl e \<Rightarrow> Inl e
      | Inr (i, nd) \<Rightarrow> Inr (set_node i (nd\<lparr>perm := m AND 0xFFF\<rparr>) k))"

definition access_call :: "string \<Rightarrow> mode \<Rightarrow> fs \<Rightarrow> bool" where
  "access_call p b k = (case lookup p k of Inl e \<Rightarrow> False | Inr (i, nd) \<Rightarrow> may nd b)"

section \<open>A well-formed file system\<close>

text \<open>
  Every name leads to an inode, numbers from \<open>next_ino\<close> on are unused, the link count of an
  inode is the number of its names (of a directory it is larger: its own entry \<open>.\<close> counts, and
  the entry \<open>..\<close> of what is below it), and open files have inodes.
\<close>

definition names_of :: "nat \<Rightarrow> fs \<Rightarrow> string set" where
  "names_of i k = {p. names k p = Some i}"

definition links_ok :: "inode \<Rightarrow> nat \<Rightarrow> bool" where
  "links_ok nd c \<longleftrightarrow> (if kind nd = Directory then c < nlink nd else nlink nd = c)"

definition wf_fs :: "fs \<Rightarrow> bool" where
  "wf_fs k \<longleftrightarrow>
     (\<forall>p i. names k p = Some i \<longrightarrow> inodes k i \<noteq> None)
     \<and> (\<forall>i. next_ino k \<le> i \<longrightarrow> inodes k i = None)
     \<and> (\<forall>i nd. inodes k i = Some nd \<longrightarrow> finite (names_of i k) \<and> links_ok nd (card (names_of i k)))
     \<and> (\<forall>f. Some f \<in> set (files k) \<longrightarrow> inodes k (ino f) \<noteq> None)"

lemma wf_names: "wf_fs k \<Longrightarrow> names k p = Some i \<Longrightarrow> \<exists>nd. inodes k i = Some nd"
  unfolding wf_fs_def by blast

lemma wf_fresh: "wf_fs k \<Longrightarrow> next_ino k \<le> i \<Longrightarrow> inodes k i = None"
  unfolding wf_fs_def by blast

lemma wf_links: "wf_fs k \<Longrightarrow> inodes k i = Some nd \<Longrightarrow> finite (names_of i k) \<and> links_ok nd (card (names_of i k))"
  unfolding wf_fs_def by blast

lemma wf_files: "wf_fs k \<Longrightarrow> Some f \<in> set (files k) \<Longrightarrow> inodes k (ino f) \<noteq> None"
  unfolding wf_fs_def by blast

lemma wf_fresh_name: "wf_fs k \<Longrightarrow> names k p \<noteq> Some (next_ino k)"
  using wf_names [of k p "next_ino k"] wf_fresh [of k "next_ino k"] by auto

lemma wf_fsI:
  assumes "\<And>p i. names k p = Some i \<Longrightarrow> inodes k i \<noteq> None"
    and "\<And>i. next_ino k \<le> i \<Longrightarrow> inodes k i = None"
    and "\<And>i nd. inodes k i = Some nd \<Longrightarrow> finite (names_of i k) \<and> links_ok nd (card (names_of i k))"
    and "\<And>f. Some f \<in> set (files k) \<Longrightarrow> inodes k (ino f) \<noteq> None"
  shows "wf_fs k"
  using assms unfolding wf_fs_def by blast

lemma wf_set_node:
  assumes wf: "wf_fs k" and nd: "inodes k i = Some nd" "nlink nd' = nlink nd" "kind nd' = kind nd"
  shows "wf_fs (set_node i nd' k)"
proof (rule wf_fsI)
  fix p j
  assume "names (set_node i nd' k) p = Some j"
  then show "inodes (set_node i nd' k) j \<noteq> None" using wf_names [OF wf] by (auto simp: set_node_def)
next
  fix j
  assume "next_ino (set_node i nd' k) \<le> j"
  then show "inodes (set_node i nd' k) j = None"
    using wf_fresh [OF wf, of j] nd(1) by (auto simp: set_node_def)
next
  fix j n
  assume "inodes (set_node i nd' k) j = Some n"
  moreover have "names_of j (set_node i nd' k) = names_of j k" by (simp add: names_of_def set_node_def)
  ultimately show "finite (names_of j (set_node i nd' k)) \<and> links_ok n (card (names_of j (set_node i nd' k)))"
    using wf_links [OF wf nd(1)] wf_links [OF wf, of j n] nd(2,3)
    by (cases "j = i") (simp_all add: set_node_def links_ok_def)
next
  fix f
  assume "Some f \<in> set (files (set_node i nd' k))"
  then show "inodes (set_node i nd' k) (ino f) \<noteq> None" using wf_files [OF wf] by (auto simp: set_node_def)
qed

lemma names_of_new:
  assumes "names k p = None"
  shows "names_of i (new_node p kd m k) = (if i = next_ino k then insert p (names_of i k) else names_of i k)"
  using assms by (auto simp: names_of_def new_node_def)

lemma wf_new_node:
  assumes wf: "wf_fs k" and p: "names k p = None"
  shows "wf_fs (new_node p kd m k)"
proof (rule wf_fsI)
  fix q j
  assume "names (new_node p kd m k) q = Some j"
  then show "inodes (new_node p kd m k) j \<noteq> None"
    using wf_names [OF wf, of q j] by (auto simp: new_node_def split: if_splits)
next
  fix j
  assume "next_ino (new_node p kd m k) \<le> j"
  then show "inodes (new_node p kd m k) j = None" using wf_fresh [OF wf, of j] by (simp add: new_node_def)
next
  fix j n
  assume n: "inodes (new_node p kd m k) j = Some n"
  have none: "names_of (next_ino k) k = {}" using wf_fresh_name [OF wf] by (simp add: names_of_def)
  show "finite (names_of j (new_node p kd m k)) \<and> links_ok n (card (names_of j (new_node p kd m k)))"
  proof (cases "j = next_ino k")
    case True
    then have "names_of j (new_node p kd m k) = {p}" using none by (simp add: names_of_new [of k p, OF p])
    moreover have "n = \<lparr>kind = kd, data = [], perm = m, nlink = if kd = Directory then 2 else 1\<rparr>"
      using n True by (simp add: new_node_def)
    ultimately show ?thesis by (simp add: links_ok_def)
  next
    case False
    then have "inodes k j = Some n" using n by (simp add: new_node_def)
    then show ?thesis using wf_links [OF wf] False by (simp add: names_of_new [of k p, OF p])
  qed
next
  fix f
  assume "Some f \<in> set (files (new_node p kd m k))"
  then show "inodes (new_node p kd m k) (ino f) \<noteq> None" using wf_files [OF wf] by (auto simp: new_node_def)
qed

lemma alloc_fd_set: "Some g \<in> set (snd (alloc_fd f fs)) \<Longrightarrow> g = f \<or> Some g \<in> set fs"
  by (induction f fs rule: alloc_fd.induct) (auto split: prod.splits)

lemma alloc_fd_at:
  "fst (alloc_fd f fs) < length (snd (alloc_fd f fs)) \<and> snd (alloc_fd f fs) ! fst (alloc_fd f fs) = Some f"
  by (induction f fs rule: alloc_fd.induct) (auto split: prod.splits)

lemma wf_fs_files:
  assumes wf: "wf_fs k" and "\<And>f. Some f \<in> set fs \<Longrightarrow> inodes k (ino f) \<noteq> None"
  shows "wf_fs (k\<lparr>files := fs\<rparr>)"
  using assms by (simp add: wf_fs_def names_of_def)

lemma wf_open_node:
  assumes wf: "wf_fs k" and i: "inodes k i \<noteq> None"
  shows "wf_fs (snd (open_node i fl k))"
proof -
  let ?f = "\<lparr>ino = i, pos = 0, rd = for_reading fl, wr = for_writing fl, app = bit_set fl O_APPEND\<rparr>"
  obtain n fs where al: "alloc_fd ?f (files k) = (n, fs)" by fastforce
  have "inodes k (ino f) \<noteq> None" if "Some f \<in> set fs" for f
  proof -
    have "f = ?f \<or> Some f \<in> set (files k)" using alloc_fd_set [of f ?f "files k"] that al by simp
    then show ?thesis by (elim disjE) (use i wf_files [OF wf, of f] in simp_all)
  qed
  then have "wf_fs (k\<lparr>files := fs\<rparr>)" by (rule wf_fs_files [OF wf])
  then show ?thesis by (simp add: open_node_def al)
qed

lemma wf_set_file:
  assumes wf: "wf_fs k" and i: "inodes k (ino f) \<noteq> None"
  shows "wf_fs (set_file n f k)"
  unfolding set_file_def
proof (rule wf_fs_files [OF wf])
  fix g
  assume "Some g \<in> set ((files k)[n := Some f])"
  then have "Some g = Some f \<or> Some g \<in> set (files k)" by (rule in_set_list_update)
  then show "inodes k (ino g) \<noteq> None" using wf_files [OF wf] i by auto
qed

lemma resolve_absent:
  "resolve n k p = Some q \<Longrightarrow> names k q = None \<or> (\<exists>i. names k q = Some i \<and> (inodes k i = None
    \<or> (\<exists>nd. inodes k i = Some nd \<and> (\<forall>t. kind nd \<noteq> Symlink t))))"
proof (induction n k p rule: resolve.induct)
  case (2 n k p)
  show ?case
  proof (cases "names k p")
    case (Some i)
    show ?thesis
    proof (cases "inodes k i")
      case nd: (Some nd)
      show ?thesis
        using 2 Some nd by (cases "kind nd") auto
    qed (use 2 Some in auto)
  qed (use 2 in auto)
qed simp

lemma lookup_cases:
  assumes "wf_fs k"
  obtains (found) i nd where "lookup p k = Inr (i, nd)" "inodes k i = Some nd" "\<forall>t. kind nd \<noteq> Symlink t"
    | (loop) "lookup p k = Inl ELOOP" "resolve MAXSYMLINKS k p = None"
    | (absent) q where "lookup p k = Inl ENOENT" "resolve MAXSYMLINKS k p = Some q" "names k q = None"
proof (cases "resolve MAXSYMLINKS k p")
  case None
  show ?thesis by (rule loop) (simp_all add: lookup_def None)
next
  case (Some q)
  show ?thesis
  proof (cases "names k q")
    case None
    show ?thesis by (rule absent [of q]) (simp_all add: lookup_def Some None)
  next
    case i: (Some i)
    obtain nd where nd: "inodes k i = Some nd" using wf_names [OF assms i] by blast
    show ?thesis
      by (rule found [of i nd]) (use Some i nd resolve_absent [OF Some] in \<open>simp_all add: lookup_def\<close>)
  qed
qed

lemma wf_open_call:
  assumes wf: "wf_fs k" and op: "open_call p fl m k = Inr (n, k')"
  shows "wf_fs k'"
proof -
  from wf show ?thesis
  proof (cases rule: lookup_cases [of _ p])
    case (found i nd)
    let ?k = "if bit_set fl O_TRUNC then set_node i (nd\<lparr>data := []\<rparr>) k else k"
    have "open_node i fl ?k = (n, k')"
      using op found by (auto simp: open_call_def split: option.splits if_splits)
    moreover have "wf_fs ?k" using wf_set_node [OF wf found(2)] wf by simp
    moreover have "inodes ?k i \<noteq> None" using found(2) by (simp add: set_node_def)
    ultimately show ?thesis using wf_open_node by (metis snd_conv)
  next
    case loop
    then show ?thesis using op by (simp add: open_call_def)
  next
    case (absent q)
    let ?k = "new_node q Regular (m AND 0xFFF AND NOT (cmask k)) k"
    have "open_node (next_ino k) fl ?k = (n, k')"
      using op absent by (auto simp: open_call_def split: if_splits)
    moreover have "wf_fs ?k" by (rule wf_new_node [OF wf absent(3)])
    moreover have "inodes ?k (next_ino k) \<noteq> None" by (simp add: new_node_def)
    ultimately show ?thesis using wf_open_node by (metis snd_conv)
  qed
qed

lemma wf_creat: "wf_fs k \<Longrightarrow> creat p m k = Inr (n, k') \<Longrightarrow> wf_fs k'"
  unfolding creat_def by (rule wf_open_call)

lemma opened_asD:
  "opened_as n k = Some (f, nd) \<Longrightarrow> file_at n k = Some f \<and> inodes k (ino f) = Some nd"
  by (auto simp: opened_as_def split: option.splits)

lemma wf_read_call: "wf_fs k \<Longrightarrow> read_call n c k = Inr (d, k') \<Longrightarrow> wf_fs k'"
  by (auto simp: read_call_def Let_def dest!: opened_asD intro!: wf_set_file split: option.splits if_splits)

lemma wf_write_call: "wf_fs k \<Longrightarrow> write_call n d k = Inr (c, k') \<Longrightarrow> wf_fs k'"
  by (auto simp: write_call_def Let_def dest!: opened_asD intro!: wf_set_file wf_set_node split: option.splits if_splits)
    (auto simp: set_node_def)

lemma wf_ftruncate: "wf_fs k \<Longrightarrow> ftruncate n sz k = Inr k' \<Longrightarrow> wf_fs k'"
  by (auto simp: ftruncate_def dest!: opened_asD intro!: wf_set_node split: option.splits if_splits)

lemma wf_symlink: "wf_fs k \<Longrightarrow> symlink_call t p k = Inr k' \<Longrightarrow> wf_fs k'"
  by (auto simp: symlink_call_def intro: wf_new_node split: if_splits)

lemma wf_mkdir: "wf_fs k \<Longrightarrow> mkdir_call p m k = Inr k' \<Longrightarrow> wf_fs k'"
  by (auto simp: mkdir_call_def intro: wf_new_node split: if_splits)

lemma wf_umask: "wf_fs k \<Longrightarrow> wf_fs (umask_call m k)"
  by (simp add: umask_call_def wf_fs_def names_of_def)

lemma wf_chmod:
  assumes wf: "wf_fs k" and ch: "chmod_call p m k = Inr k'"
  shows "wf_fs k'"
  using wf
proof (cases rule: lookup_cases [of _ p])
  case (found i nd)
  then have "k' = set_node i (nd\<lparr>perm := m AND 0xFFF\<rparr>) k" using ch by (simp add: chmod_call_def)
  then show ?thesis using wf_set_node [OF wf found(2)] by simp
qed (use ch in \<open>simp_all add: chmod_call_def\<close>)

text \<open>A link adds a name to an inode, an unlink takes one away.\<close>

lemma wf_link:
  assumes wf: "wf_fs k" and li: "link_call old nw k = Inr k'"
  shows "wf_fs k'"
proof -
  obtain i nd where i: "names k old = Some i" "inodes k i = Some nd" and nw: "names k nw = None"
    and kd: "kind nd \<noteq> Directory"
    and k': "k' = set_node i (nd\<lparr>nlink := nlink nd + 1\<rparr>) (k\<lparr>names := (names k)(nw := Some i)\<rparr>)"
    using li by (auto simp: link_call_def split: option.splits if_splits)
  have na: "names_of j k' = (if j = i then insert nw (names_of j k) else names_of j k)" for j
    using nw by (auto simp: k' names_of_def set_node_def)
  show ?thesis
  proof (rule wf_fsI)
    fix p j
    assume "names k' p = Some j"
    then show "inodes k' j \<noteq> None"
      using wf_names [OF wf, of p j] i by (auto simp: k' set_node_def split: if_splits)
  next
    fix j
    assume "next_ino k' \<le> j"
    then show "inodes k' j = None" using wf_fresh [OF wf, of j] i by (auto simp: k' set_node_def)
  next
    fix j n
    assume n: "inodes k' j = Some n"
    have nin: "nw \<notin> names_of i k" using nw by (simp add: names_of_def)
    show "finite (names_of j k') \<and> links_ok n (card (names_of j k'))"
    proof (cases "j = i")
      case True
      then have "n = nd\<lparr>nlink := nlink nd + 1\<rparr>" using n by (simp add: k' set_node_def)
      then show ?thesis using wf_links [OF wf i(2)] nin True kd by (simp add: na links_ok_def)
    next
      case False
      then have "inodes k j = Some n" using n by (simp add: k' set_node_def)
      then show ?thesis using wf_links [OF wf] False by (simp add: na)
    qed
  next
    fix f
    assume "Some f \<in> set (files k')"
    then show "inodes k' (ino f) \<noteq> None" using wf_files [OF wf, of f] by (simp add: k' set_node_def)
  qed
qed

lemma not_open: "\<not> is_open i k \<Longrightarrow> Some f \<in> set (files k) \<Longrightarrow> ino f \<noteq> i"
  by (force simp: is_open_def list_ex_iff)

lemma wf_unlink:
  assumes wf: "wf_fs k" and un: "unlink_call p k = Inr k'"
  shows "wf_fs k'"
proof -
  obtain i where i1: "names k p = Some i" using un by (cases "names k p") (simp_all add: unlink_call_def)
  obtain nd where i2: "inodes k i = Some nd" using un i1 by (cases "inodes k i") (simp_all add: unlink_call_def)
  note i = i1 i2
  have kd: "kind nd \<noteq> Directory" using un i by (auto simp: unlink_call_def)
  have k': "k' = (if nlink nd = 1 \<and> \<not> is_open i k
        then k\<lparr>names := (names k)(p := None), inodes := (inodes k)(i := None)\<rparr>
        else set_node i (nd\<lparr>nlink := nlink nd - 1\<rparr>) (k\<lparr>names := (names k)(p := None)\<rparr>))"
    using un i by (cases "kind nd = Directory") (simp_all add: unlink_call_def Let_def)
  have pi: "p \<in> names_of i k" using i by (simp add: names_of_def)
  have li: "finite (names_of i k)" "nlink nd = card (names_of i k)"
    using wf_links [OF wf i(2)] kd by (simp_all add: links_ok_def)
  have nm: "names k' = (names k)(p := None)" "next_ino k' = next_ino k" "files k' = files k"
    by (simp_all add: k' set_node_def)
  have na: "names_of j k' = names_of j k - {p}" for j by (auto simp: names_of_def nm)
  have nodes: "inodes k' j = inodes k j" if "j \<noteq> i" for j using that by (simp add: k' set_node_def)
  have only: "names_of i k = {p}" if "nlink nd = 1"
  proof -
    have "card (names_of i k) = Suc 0" using that li(2) by simp
    then obtain x where "names_of i k = {x}" by (auto simp: card_1_singleton_iff)
    then show ?thesis using pi by auto
  qed
  show ?thesis
  proof (rule wf_fsI)
    fix q j
    assume q: "names k' q = Some j"
    then have qj: "names k q = Some j" "q \<noteq> p" by (auto simp: nm split: if_splits)
    show "inodes k' j \<noteq> None"
    proof (cases "j = i")
      case True
      then have "q \<in> names_of i k" using qj by (simp add: names_of_def)
      then have "nlink nd \<noteq> 1" using only qj(2) by auto
      then show ?thesis using True by (simp add: k' set_node_def)
    next
      case False
      then show ?thesis using nodes wf_names [OF wf qj(1)] by auto
    qed
  next
    fix j
    assume "next_ino k' \<le> j"
    then have "inodes k j = None" using wf_fresh [OF wf] nm by simp
    then show "inodes k' j = None" using i(2) nodes by (cases "j = i") auto
  next
    fix j n
    assume n: "inodes k' j = Some n"
    show "finite (names_of j k') \<and> links_ok n (card (names_of j k'))"
    proof (cases "j = i")
      case True
      then have "n = nd\<lparr>nlink := nlink nd - 1\<rparr>" using n by (auto simp: k' set_node_def split: if_splits)
      then show ?thesis using li pi True kd by (simp add: na card_Diff_singleton links_ok_def)
    next
      case False
      then have "inodes k j = Some n" using n nodes by simp
      moreover have "p \<notin> names_of j k" using i(1) False by (simp add: names_of_def)
      ultimately show ?thesis using wf_links [OF wf] by (simp add: na)
    qed
  next
    fix f
    assume f: "Some f \<in> set (files k')"
    then have "inodes k (ino f) \<noteq> None" using wf_files [OF wf] nm by simp
    then show "inodes k' (ino f) \<noteq> None"
      using not_open [of i k f] f nm by (cases "ino f = i") (auto simp: nodes, auto simp: k' set_node_def)
  qed
qed

text \<open>Removing the name just added gives the file system back.\<close>

lemma link_unlink:
  assumes wf: "wf_fs k" and li: "link_call old nw k = Inr k'"
  shows "unlink_call nw k' = Inr k"
proof -
  obtain i nd where i: "names k old = Some i" "inodes k i = Some nd" and nw: "names k nw = None"
    and kd: "kind nd \<noteq> Directory"
    and k': "k' = set_node i (nd\<lparr>nlink := nlink nd + 1\<rparr>) (k\<lparr>names := (names k)(nw := Some i)\<rparr>)"
    using li by (auto simp: link_call_def split: option.splits if_splits)
  have "old \<in> names_of i k" using i by (simp add: names_of_def)
  then have "nlink nd \<noteq> 0" using wf_links [OF wf i(2)] kd by (auto simp: links_ok_def)
  then show ?thesis
    using nw kd i by (simp add: k' unlink_call_def set_node_def Let_def fun_upd_idem)
qed

end
