(* ===== verification/FilePrograms.thy ===== *)
theory FilePrograms
  imports Files
begin

text \<open>
  The small programs of \<open>IO\<close> and \<open>file_system\<close>, each as a function of the file system it
  finds: what it prints, its exit code and the file system it leaves. Where a program indexes
  outside its buffer the result is \<open>None\<close>.
\<close>

datatype out_line =
    Perror string        \<comment> \<open>a line of \<open>perror\<close>, without the text of the error\<close>
  | Line string          \<comment> \<open>a line of \<open>printf\<close>\<close>
  | Num string int       \<comment> \<open>a line of \<open>printf\<close> with a number\<close>
  | Raw string           \<comment> \<open>bytes written to standard output\<close>

type_synonym result = "out_line list \<times> int \<times> fs"

abbreviation left_fs :: "result \<Rightarrow> fs" where
  "left_fs r \<equiv> snd (snd r)"

abbreviation exit_code :: "result \<Rightarrow> int" where
  "exit_code r \<equiv> fst (snd r)"

abbreviation printed :: "result \<Rightarrow> out_line list" where
  "printed r \<equiv> fst r"

section \<open>Modes: umask, chmod, access\<close>

definition RWRWRW :: mode where
  "RWRWRW = S_IRUSR OR S_IWUSR OR S_IRGRP OR S_IWGRP OR S_IROTH OR S_IWOTH"

definition umask_main :: "fs \<Rightarrow> result" where
  "umask_main k =
     (case creat ''hello.txt'' RWRWRW (umask_call 0 k) of
        Inl e \<Rightarrow> ([Perror ''creat file fail''], 1, umask_call 0 k)
      | Inr (fd, k1) \<Rightarrow>
          (case creat ''world.txt'' RWRWRW (umask_call (S_IWOTH OR S_IROTH) k1) of
             Inl e \<Rightarrow> ([Perror ''creat file fail''], 1, umask_call (S_IWOTH OR S_IROTH) k1)
           | Inr (fd2, k2) \<Rightarrow> ([], 0, k2)))"

definition chmod_main :: "fs \<Rightarrow> result" where
  "chmod_main k =
     (let k0 = umask_call 0 k;
          (out, k1) = (case creat ''hello.txt'' RWRWRW k0 of
             Inl e \<Rightarrow> ([Perror ''create file fail''], k0)
           | Inr (fd, k1) \<Rightarrow> ([], k1))
      in (out, 0, case chmod_call ''hello.txt'' (S_IRUSR OR S_IRGRP OR S_IROTH) k1 of Inl e \<Rightarrow> k1 | Inr k2 \<Rightarrow> k2))"

definition access_line :: "string \<Rightarrow> mode \<Rightarrow> string \<Rightarrow> fs \<Rightarrow> out_line" where
  "access_line p b what k =
     Line (if access_call p b k then what @ '' file ok'' else what @ '' permission denf'')"

definition access_main :: "string list \<Rightarrow> fs \<Rightarrow> result" where
  "access_main args k =
     (case args of
        [] \<Rightarrow> ([Line ''usage: access <pathname>''], 0, k)
      | p # _ \<Rightarrow>
          ([access_line p S_IRUSR ''read'' k, access_line p S_IWUSR ''write'' k,
            access_line p S_IXUSR ''extcute'' k], 0, k))"

section \<open>Creating and opening\<close>

definition close_file :: "nat \<Rightarrow> fs \<Rightarrow> fs" where
  "close_file n k = k\<lparr>files := (files k)[n := None]\<rparr>"

text \<open>\<open>IO/create\<close>: \<open>perror\<close> is called whatever happened.\<close>

definition create_main :: "fs \<Rightarrow> result" where
  "create_main k =
     (case creat ''hellofile.txt'' S_IRWXU k of
        Inl e \<Rightarrow> ([Perror ''fd1:''], 0, k)
      | Inr (fd, k1) \<Rightarrow> ([Perror ''fd1:''], 0, close_file fd k1))"

text \<open>\<open>IO/open\<close>: the second call has no mode argument, so \<open>open\<close> takes a \<open>stray\<close> value for it.\<close>

definition open_or_complain :: "string \<Rightarrow> mode \<Rightarrow> mode \<Rightarrow> string \<Rightarrow> fs \<Rightarrow> out_line list \<times> fs" where
  "open_or_complain p fl m msg k =
     (case open_call p fl m k of Inl e \<Rightarrow> ([Perror msg], k) | Inr (fd, k1) \<Rightarrow> ([], k1))"

definition open_main :: "mode \<Rightarrow> fs \<Rightarrow> result" where
  "open_main stray k =
     (let (o1, k1) = open_or_complain ''hello.txt'' O_RDWR 0 ''fd1 :'' k;
          (o2, k2) = open_or_complain ''world.txt'' (O_RDWR OR O_CREAT) stray ''fd2 :'' k1;
          (o3, k3) = open_or_complain ''linux.txt'' (O_RDWR OR O_CREAT) (S_IRWXG OR S_IRWXO) ''fd3 :'' k2
      in (o1 @ o2 @ o3, 0, k3))"

section \<open>Reading and writing\<close>

text \<open>\<open>IO/write\<close>: the terminator is stored behind the bytes read, in a buffer of 1024.\<close>

definition write_main :: "fs \<Rightarrow> result option" where
  "write_main k =
     (let r1 = open_call ''file1.txt'' O_RDONLY 0 k;
          k1 = (case r1 of Inl e \<Rightarrow> k | Inr (fd, k1) \<Rightarrow> k1);
          r2 = open_call ''file2.txt'' (O_WRONLY OR O_APPEND) 0 k1;
          k2 = (case r2 of Inl e \<Rightarrow> k1 | Inr (fd, k2) \<Rightarrow> k2)
      in case (r1, r2) of
           (Inr (fd1, _), Inr (fd2, _)) \<Rightarrow>
             (case read_call fd1 1024 k2 of
                Inl e \<Rightarrow> None
              | Inr (buf, k3) \<Rightarrow>
                  if length buf = 1024 then None
                  else (case write_call fd2 buf k3 of
                          Inl e \<Rightarrow> Some ([], 0, k3)
                        | Inr (n, k4) \<Rightarrow> Some ([], 0, k4)))
         | _ \<Rightarrow> Some ([], 0, k2))"

text \<open>\<open>IO/read\<close>: a failed \<open>open\<close> gives the descriptor -1, whose \<open>read\<close> returns -1.\<close>

definition c_text :: "string \<Rightarrow> string" where
  "c_text d = takeWhile (\<lambda>c. c \<noteq> NULB) d"

definition read_main :: "fs \<Rightarrow> result option" where
  "read_main k =
     (case open_call ''hello.txt'' O_RDWR 0 k of
        Inl e \<Rightarrow> None
      | Inr (fd, k1) \<Rightarrow>
          (case read_call fd 100 k1 of
             Inl e \<Rightarrow> None
           | Inr (buf, k2) \<Rightarrow>
               Some (Perror ''fd1'' # (if buf = [] then [] else [Line (''buf : '' @ c_text buf)]), 0, k2)))"

text \<open>
  \<open>IO/unblock_read\<close>: the terminal delivers \<open>typed\<close>; \<open>buf\<close> is the uninitialised buffer. Twenty
  bytes are written whatever was read.
\<close>

definition unblock_read_main :: "int \<Rightarrow> string \<Rightarrow> (nat \<Rightarrow> char) \<Rightarrow> out_line list \<times> int" where
  "unblock_read_main fd typed buf =
     (if fd < 0 then ([Perror ''fd : ''], 1)
      else let got = take 20 typed
           in ([Num ''fd:'' fd, Num ''STDOUT_FILENO:'' 1, Num ''STDIN_FILENO:'' 0, Num ''STDERR_FILENO:'' 2]
               @ (if got = [] then []
                  else [Raw (map (\<lambda>i. if i < length got then got ! i else buf i) [0..<20])]), 0))"

text \<open>\<open>IO/fcntl\<close>: standard input is made non-blocking; \<open>None\<close> in \<open>inp\<close> is a failed \<open>read\<close>.\<close>

definition fcntl_main :: "bool \<Rightarrow> string option \<Rightarrow> out_line list \<times> int" where
  "fcntl_main set_ok inp =
     (if \<not> set_ok then ([Perror ''fcntl set fail''], 1)
      else case inp of
             None \<Rightarrow> ([Perror ''read fail''], 1)
           | Some d \<Rightarrow> ([Raw (take 10 d)], 0))"

definition size_line :: "nat \<Rightarrow> fs \<Rightarrow> out_line list option" where
  "size_line fd k =
     (case fstat_size fd k of Inl e \<Rightarrow> None | Inr n \<Rightarrow> Some [Num ''hello.txt size is '' (int n)])"

text \<open>\<open>file_system/truncate\<close>; \<open>None\<close>: \<open>fstat\<close> fails and \<open>info\<close> is read uninitialised.\<close>

definition test_text :: string where
  "test_text = ''test and change file size''"

definition truncated :: "nat \<Rightarrow> nat \<Rightarrow> fs \<Rightarrow> fs" where
  "truncated fd n k = (case ftruncate fd n k of Inl e \<Rightarrow> k | Inr k1 \<Rightarrow> k1)"

definition truncate_main :: "fs \<Rightarrow> result option" where
  "truncate_main k =
     (case creat ''hello.txt'' (S_IRUSR OR S_IWUSR OR S_IRGRP OR S_IWGRP) k of
        Inl e \<Rightarrow> Some ([Perror ''create file fail''], 1, k)
      | Inr (fd, k1) \<Rightarrow>
          let w = write_call fd test_text k1;
              (cnt, k2) = (case w of Inl e \<Rightarrow> (-1, k1) | Inr (n, k2) \<Rightarrow> (int n, k2));
              k3 = truncated fd 100000 k2;
              k4 = truncated fd 5 k3
          in case (size_line fd k1, size_line fd k2, size_line fd k3, size_line fd k4) of
               (Some l1, Some l2, Some l3, Some l4) \<Rightarrow>
                 Some (l1 @ [Num ''count is '' cnt] @ l2 @ l3 @ l4, 0, k4)
             | _ \<Rightarrow> None)"

section \<open>Links\<close>

definition link_main :: "fs \<Rightarrow> result" where
  "link_main k =
     (case open_call ''hello.txt'' (O_RDWR OR O_CREAT) S_IRWXU k of
        Inl e \<Rightarrow> ([Perror ''create file fail''], 1, k)
      | Inr (fd, k1) \<Rightarrow>
          (case link_call ''hello.txt'' ''hardlink.txt'' k1 of
             Inl e \<Rightarrow> ([Perror ''create hard link fail''], 1, k1)
           | Inr k2 \<Rightarrow>
               (case unlink_call ''hardlink.txt'' k2 of
                  Inl e \<Rightarrow> ([Perror ''delete hard link fail''], 1, k2)
                | Inr k3 \<Rightarrow> ([Line ''unlink success''], 0, k3))))"

text \<open>\<open>file_system/symlink\<close>: the results of \<open>creat\<close>, \<open>symlink\<close> and \<open>readlink\<close> are not examined.\<close>

definition symlink_main :: "fs \<Rightarrow> result option" where
  "symlink_main k =
     (let k1 = (case creat ''hello.txt'' (S_IRUSR OR S_IWUSR) k of Inl e \<Rightarrow> k | Inr (fd, k1) \<Rightarrow> k1);
          k2 = (case symlink_call ''hello.txt'' ''symlink.txt'' k1 of Inl e \<Rightarrow> k1 | Inr k2 \<Rightarrow> k2)
      in case readlink ''symlink.txt'' 512 k2 of
           Inl e \<Rightarrow> None
         | Inr t \<Rightarrow> if length t = 512 then None
                     else Some ([Line (''sysmlink.txt : '' @ c_text t)], 0, k2))"

section \<open>Directories\<close>

text \<open>The loop of \<open>mkdir\<close> over its arguments.\<close>

fun mkdir_all :: "string list \<Rightarrow> fs \<Rightarrow> result" where
  "mkdir_all [] k = ([], 0, k)"
| "mkdir_all (p # ps) k =
     (case mkdir_call p (S_IRWXU OR S_IRWXG) k of
        Inl e \<Rightarrow> ([Perror ''create dir fail''], 1, k)
      | Inr k1 \<Rightarrow> mkdir_all ps k1)"

definition mkdir_main :: "string list \<Rightarrow> fs \<Rightarrow> result" where
  "mkdir_main args k =
     (if args = [] then ([Line ''input argument too less''], 1, k) else mkdir_all args k)"

text \<open>An open directory: its entries and the position in them.\<close>

record dirstream =
  entries :: "string list"
  dpos :: nat

definition opendir :: "string list \<Rightarrow> dirstream" where
  "opendir es = \<lparr>entries = es, dpos = 0\<rparr>"

definition readdir :: "dirstream \<Rightarrow> (string \<times> dirstream) option" where
  "readdir d = (if dpos d < length (entries d) then Some (entries d ! dpos d, d\<lparr>dpos := dpos d + 1\<rparr>) else None)"

definition rewinddir :: "dirstream \<Rightarrow> dirstream" where
  "rewinddir d = d\<lparr>dpos := 0\<rparr>"

definition telldir :: "dirstream \<Rightarrow> nat" where
  "telldir d = dpos d"

definition seekdir :: "nat \<Rightarrow> dirstream \<Rightarrow> dirstream" where
  "seekdir n d = d\<lparr>dpos := n\<rparr>"

text \<open>The loop over the entries, with and without their locations.\<close>

function print_entries :: "bool \<Rightarrow> dirstream \<Rightarrow> out_line list \<times> dirstream" where
  "print_entries loc d =
     (case readdir d of
        None \<Rightarrow> ([], d)
      | Some (nm, d1) \<Rightarrow>
          (case print_entries loc d1 of
             (out, d2) \<Rightarrow>
               ((if loc then [Num ''current location '' (int (telldir d1)), Line (''file name :'' @ nm)]
                 else [Line nm]) @ out, d2)))"
  by pat_completeness auto
termination
  by (relation "measure (\<lambda>(loc, d). length (entries d) - dpos d)") (auto simp: readdir_def split: if_splits)

declare print_entries.simps [simp del]

definition opendir_main :: "string list \<Rightarrow> string list option \<Rightarrow> out_line list \<times> int" where
  "opendir_main args dir =
     (if length args \<noteq> 1 then ([Line ''input on argument please''], 1)
      else case dir of
             None \<Rightarrow> ([Perror ''open dir fail''], 1)
           | Some es \<Rightarrow> (fst (print_entries False (opendir es)), 0))"

definition rewinddir_main :: "string list option \<Rightarrow> out_line list \<times> int" where
  "rewinddir_main dir =
     (case dir of
        None \<Rightarrow> ([Perror ''open dir fail''], 0)
      | Some es \<Rightarrow>
          (case print_entries False (opendir es) of
             (out, d) \<Rightarrow>
               (out @ [Line ''----------------------------------''] @ fst (print_entries False (rewinddir d)), 0)))"

definition telldir_main :: "string list option \<Rightarrow> out_line list \<times> int" where
  "telldir_main dir =
     (case dir of
        None \<Rightarrow> ([Perror ''open dir fail''], 0)
      | Some es \<Rightarrow>
          let c = telldir (opendir es)
          in (case print_entries True (opendir es) of
                (out, d) \<Rightarrow>
                  (out @ [Line ''-------------------------------''] @ fst (print_entries True (seekdir c d)), 0)))"

end
