(* ===== verification/FileProgramsProps.thy ===== *)
theory FileProgramsProps
  imports FilePrograms
begin

text \<open>
  What the file programs leave behind and where they leave their buffers.
\<close>

section \<open>Opening, in terms of the state\<close>

lemma open_node_simps [simp]:
  "names (snd (open_node i fl k)) = names k" "inodes (snd (open_node i fl k)) = inodes k"
  "next_ino (snd (open_node i fl k)) = next_ino k" "cmask (snd (open_node i fl k)) = cmask k"
  by (simp_all add: open_node_def split: prod.splits)

lemma set_file_simps [simp]:
  "names (set_file n f k) = names k" "inodes (set_file n f k) = inodes k"
  "next_ino (set_file n f k) = next_ino k" "cmask (set_file n f k) = cmask k"
  by (simp_all add: set_file_def)

lemma set_node_simps [simp]:
  "names (set_node i nd k) = names k" "inodes (set_node i nd k) = (inodes k)(i := Some nd)"
  "files (set_node i nd k) = files k" "cmask (set_node i nd k) = cmask k"
  by (simp_all add: set_node_def)

lemma new_node_simps [simp]:
  "names (new_node p kd m k) = (names k)(p := Some (next_ino k))" "cmask (new_node p kd m k) = cmask k"
  "inodes (new_node p kd m k) =
     (inodes k)(next_ino k := Some \<lparr>kind = kd, data = [], perm = m, nlink = if kd = Directory then 2 else 1\<rparr>)"
  "files (new_node p kd m k) = files k" "next_ino (new_node p kd m k) = next_ino k + 1"
  by (simp_all add: new_node_def)

lemma umask_simps [simp]:
  "names (umask_call m k) = names k" "inodes (umask_call m k) = inodes k"
  "next_ino (umask_call m k) = next_ino k" "cmask (umask_call m k) = m AND 0x1FF"
  "files (umask_call m k) = files k"
  by (simp_all add: umask_call_def)

text \<open>The file a descriptor just opened stands for.\<close>

lemma open_node_file:
  "open_node i fl k = (n, k') \<Longrightarrow>
    file_at n k' = Some \<lparr>ino = i, pos = 0, rd = for_reading fl, wr = for_writing fl, app = bit_set fl O_APPEND\<rparr>"
  using alloc_fd_at [of "\<lparr>ino = i, pos = 0, rd = for_reading fl, wr = for_writing fl,
      app = bit_set fl O_APPEND\<rparr>" "files k"]
  by (auto simp: open_node_def file_at_def split: prod.splits)

text \<open>The modes and flags that occur.\<close>

lemma flag_facts:
  "for_reading O_RDONLY" "\<not> for_writing O_RDONLY" "\<not> bit_set O_RDONLY O_CREAT" "\<not> bit_set O_RDONLY O_TRUNC"
  "\<not> bit_set O_RDONLY O_APPEND"
  "for_reading O_RDWR" "for_writing O_RDWR" "\<not> bit_set O_RDWR O_CREAT" "\<not> bit_set O_RDWR O_TRUNC"
  "\<not> bit_set O_RDWR O_APPEND"
  "for_reading (O_RDWR OR O_CREAT)" "for_writing (O_RDWR OR O_CREAT)" "bit_set (O_RDWR OR O_CREAT) O_CREAT"
  "\<not> bit_set (O_RDWR OR O_CREAT) O_TRUNC" "\<not> bit_set (O_RDWR OR O_CREAT) O_APPEND"
  "\<not> for_reading (O_WRONLY OR O_APPEND)" "for_writing (O_WRONLY OR O_APPEND)"
  "\<not> bit_set (O_WRONLY OR O_APPEND) O_CREAT" "\<not> bit_set (O_WRONLY OR O_APPEND) O_TRUNC"
  "bit_set (O_WRONLY OR O_APPEND) O_APPEND"
  "\<not> for_reading (O_WRONLY OR O_CREAT OR O_TRUNC)" "for_writing (O_WRONLY OR O_CREAT OR O_TRUNC)"
  "bit_set (O_WRONLY OR O_CREAT OR O_TRUNC) O_CREAT" "bit_set (O_WRONLY OR O_CREAT OR O_TRUNC) O_TRUNC"
  "\<not> bit_set (O_WRONLY OR O_CREAT OR O_TRUNC) O_APPEND"
  by (simp_all add: for_reading_def for_writing_def bit_set_def open_flags)

lemma resolve_plain:
  "names k p = None \<Longrightarrow> resolve MAXSYMLINKS k p = Some p"
  "names k p = Some i \<Longrightarrow> inodes k i = Some nd \<Longrightarrow> (\<And>t. kind nd \<noteq> Symlink t) \<Longrightarrow> resolve MAXSYMLINKS k p = Some p"
  by (simp_all add: MAXSYMLINKS_def eval_nat_numeral split: kind.split)

lemma lookup_plain:
  "names k p = None \<Longrightarrow> lookup p k = Inl ENOENT"
  "names k p = Some i \<Longrightarrow> inodes k i = Some nd \<Longrightarrow> (\<And>t. kind nd \<noteq> Symlink t) \<Longrightarrow> lookup p k = Inr (i, nd)"
  by (simp_all add: lookup_def resolve_plain)

text \<open>A new file.\<close>

lemma open_new:
  assumes "names k p = None" "bit_set fl O_CREAT"
  shows "open_call p fl m k = Inr (open_node (next_ino k) fl (new_node p Regular (m AND 0xFFF AND NOT (cmask k)) k))"
  using assms by (simp add: open_call_def lookup_plain resolve_plain)

text \<open>A file that exists.\<close>

lemma open_found:
  assumes "lookup p k = Inr (i, nd)"
  shows "open_call p fl m k =
    (if kind nd = Directory \<and> (for_writing fl \<or> bit_set fl O_CREAT) then Inl EISDIR
     else if (for_reading fl \<longrightarrow> may nd S_IRUSR) \<and> (for_writing fl \<longrightarrow> may nd S_IWUSR)
     then Inr (open_node i fl (if bit_set fl O_TRUNC then set_node i (nd\<lparr>data := []\<rparr>) k else k))
     else Inl EACCES)"
proof -
  obtain q where "resolve MAXSYMLINKS k p = Some q"
    using assms by (auto simp: lookup_def split: option.splits)
  then show ?thesis by (simp add: open_call_def assms)
qed

text \<open>What a path leads to does not depend on open files, contents or modes.\<close>

lemma resolve_cong:
  assumes "names k' = names k" "\<And>i. map_option kind (inodes k' i) = map_option kind (inodes k i)"
  shows "resolve n k' p = resolve n k p"
proof (induction n arbitrary: p)
  case (Suc n)
  show ?case
  proof (cases "names k p")
    case (Some i)
    then show ?thesis
      using assms(2) [of i] Suc assms(1)
      by (cases "inodes k i"; cases "inodes k' i") (auto split: kind.split)
  qed (simp add: assms(1))
qed simp

lemma lookup_cong:
  assumes "names k' = names k" "inodes k' = inodes k"
  shows "lookup p k' = lookup p k"
proof -
  have "resolve n k' q = resolve n k q" for n q by (rule resolve_cong) (simp_all add: assms)
  then show ?thesis unfolding lookup_def assms by simp
qed

lemma lookup_open [simp]: "lookup p (snd (open_node i fl k)) = lookup p k"
  by (rule lookup_cong) simp_all

lemma lookup_set_file [simp]: "lookup p (set_file n f k) = lookup p k"
  by (rule lookup_cong) simp_all

lemma lookup_set_node:
  assumes "lookup p k = Inr (i, nd)" "inodes k i = Some nd" "kind nd' = kind nd"
  shows "lookup p (set_node i nd' k) = Inr (i, nd')"
proof -
  have "resolve MAXSYMLINKS (set_node i nd' k) p = resolve MAXSYMLINKS k p"
    by (rule resolve_cong) (use assms in simp_all)
  then show ?thesis using assms by (auto simp: lookup_def split: option.splits if_splits)
qed

lemma lookup_node: "lookup p k = Inr (i, nd) \<Longrightarrow> inodes k i = Some nd"
  by (auto simp: lookup_def split: option.splits)

text \<open>Mode and content of the file a path leads to.\<close>

definition mode_of :: "string \<Rightarrow> fs \<Rightarrow> mode option" where
  "mode_of p k = (case lookup p k of Inl e \<Rightarrow> None | Inr (i, nd) \<Rightarrow> Some (perm nd))"

definition content_of :: "string \<Rightarrow> fs \<Rightarrow> string option" where
  "content_of p k = (case lookup p k of Inl e \<Rightarrow> None | Inr (i, nd) \<Rightarrow> Some (data nd))"

lemma mode_plain:
  "names k p = Some i \<Longrightarrow> inodes k i = Some nd \<Longrightarrow> kind nd = Regular \<Longrightarrow> mode_of p k = Some (perm nd)"
  by (simp add: mode_of_def lookup_plain)

text \<open>Creating a file in a name that is free.\<close>

lemma creat_new:
  assumes "names k p = None"
  obtains fd where "creat p m k = Inr (fd, snd (open_node (next_ino k) (O_WRONLY OR O_CREAT OR O_TRUNC)
      (new_node p Regular (m AND 0xFFF AND NOT (cmask k)) k)))"
  using open_new [of k p "O_WRONLY OR O_CREAT OR O_TRUNC" m] assms
  by (cases "open_node (next_ino k) (O_WRONLY OR O_CREAT OR O_TRUNC)
      (new_node p Regular (m AND 0xFFF AND NOT (cmask k)) k)")
    (simp add: creat_def flag_facts)

section \<open>Every program keeps the file system well formed\<close>

lemma wf_close_file:
  assumes wf: "wf_fs k"
  shows "wf_fs (close_file n k)"
  unfolding close_file_def
proof (rule wf_fs_files [OF wf])
  fix f
  assume "Some f \<in> set ((files k)[n := None])"
  then have "Some f = None \<or> Some f \<in> set (files k)" by (rule in_set_list_update)
  then show "inodes k (ino f) \<noteq> None" using wf_files [OF wf] by simp
qed

lemma wf_truncated: "wf_fs k \<Longrightarrow> wf_fs (truncated fd n k)"
  by (auto simp: truncated_def intro: wf_ftruncate split: sum.splits)

text \<open>What a call keeps, as a rule for the case distinction a program makes on its result.\<close>

definition keeps :: "errno + ('a \<times> fs) \<Rightarrow> bool" where
  "keeps r \<longleftrightarrow> (case r of Inl e \<Rightarrow> True | Inr x \<Rightarrow> wf_fs (snd x))"

lemma keepsD: "keeps (Inr (x, k)) \<Longrightarrow> wf_fs k"
  by (simp add: keeps_def)

lemma keepsI: "(\<And>x k. r = Inr (x, k) \<Longrightarrow> wf_fs k) \<Longrightarrow> keeps r"
  by (cases r) (simp_all add: keeps_def split_paired_all)

lemma keeps_calls:
  assumes "wf_fs k"
  shows "keeps (open_call p fl m k)" "keeps (creat p m k)" "keeps (read_call n c k)" "keeps (write_call n d k)"
proof -
  show "keeps (open_call p fl m k)" by (rule keepsI) (rule wf_open_call [OF assms])
  show "keeps (creat p m k)" by (rule keepsI) (rule wf_creat [OF assms])
  show "keeps (read_call n c k)" by (rule keepsI) (rule wf_read_call [OF assms])
  show "keeps (write_call n d k)" by (rule keepsI) (rule wf_write_call [OF assms])
qed

lemma wf_umask_main: "wf_fs k \<Longrightarrow> wf_fs (left_fs (umask_main k))"
proof -
  assume "wf_fs k"
  then have k: "wf_fs (umask_call 0 k)" by (rule wf_umask)
  show ?thesis
  proof (cases "creat ''hello.txt'' RWRWRW (umask_call 0 k)")
    case (Inr x)
    obtain fd k1 where x: "x = (fd, k1)" by fastforce
    have k1: "wf_fs (umask_call (S_IWOTH OR S_IROTH) k1)"
      using keepsD keeps_calls(2) [OF k, of "''hello.txt''" RWRWRW] Inr x wf_umask by metis
    show ?thesis
      using keeps_calls(2) [OF k1, of "''world.txt''" RWRWRW] k1 Inr x
      by (auto simp: umask_main_def keeps_def split: sum.splits)
  qed (use k in \<open>simp add: umask_main_def\<close>)
qed

lemma wf_chmod_main: "wf_fs k \<Longrightarrow> wf_fs (left_fs (chmod_main k))"
proof -
  assume "wf_fs k"
  then have k: "wf_fs (umask_call 0 k)" by (rule wf_umask)
  show ?thesis
    using keeps_calls(2) [OF k, of "''hello.txt''" RWRWRW] k
    by (auto simp: chmod_main_def Let_def keeps_def dest: wf_chmod split: sum.split)
qed

lemma wf_create_main: "wf_fs k \<Longrightarrow> wf_fs (left_fs (create_main k))"
  using keeps_calls(2) [of k "''hellofile.txt''" S_IRWXU]
  by (auto simp: create_main_def keeps_def wf_close_file split: sum.split)

lemma wf_open_or_complain: "wf_fs k \<Longrightarrow> wf_fs (snd (open_or_complain p fl m msg k))"
  using keeps_calls(1) [of k p fl m] by (auto simp: open_or_complain_def keeps_def split: sum.split)

lemma wf_open_main: "wf_fs k \<Longrightarrow> wf_fs (left_fs (open_main stray k))"
  by (simp add: open_main_def Let_def wf_open_or_complain split_def)

definition opened_fs :: "fs \<Rightarrow> errno + (nat \<times> fs) \<Rightarrow> fs" where
  "opened_fs k r = (case r of Inl e \<Rightarrow> k | Inr (fd, k1) \<Rightarrow> k1)"

lemma wf_opened: "wf_fs k \<Longrightarrow> keeps r \<Longrightarrow> wf_fs (opened_fs k r)"
  by (auto simp: opened_fs_def keeps_def split: sum.split)

lemma wf_write_main: "wf_fs k \<Longrightarrow> write_main k = Some r \<Longrightarrow> wf_fs (left_fs r)"
proof -
  assume k: "wf_fs k" and run: "write_main k = Some r"
  let ?r1 = "open_call ''file1.txt'' O_RDONLY 0 k"
  let ?k1 = "opened_fs k ?r1"
  let ?r2 = "open_call ''file2.txt'' (O_WRONLY OR O_APPEND) 0 ?k1"
  let ?k2 = "opened_fs ?k1 ?r2"
  have k1: "wf_fs ?k1" by (rule wf_opened [OF k keeps_calls(1) [OF k]])
  have k2: "wf_fs ?k2" by (rule wf_opened [OF k1 keeps_calls(1) [OF k1]])
  show ?thesis
  proof (cases "\<exists>fd1 x1 fd2 x2. ?r1 = Inr (fd1, x1) \<and> ?r2 = Inr (fd2, x2)")
    case False
    then have "r = ([], 0, ?k2)"
      using run by (auto simp: write_main_def Let_def opened_fs_def split: sum.splits)
    then show ?thesis using k2 by simp
  next
    case True
    then obtain fd1 x1 fd2 x2 where r: "?r1 = Inr (fd1, x1)" "?r2 = Inr (fd2, x2)" by blast
    then have run: "(case read_call fd1 1024 ?k2 of Inl e \<Rightarrow> None
        | Inr (buf, k3) \<Rightarrow> if length buf = 1024 then None
            else (case write_call fd2 buf k3 of Inl e \<Rightarrow> Some ([], 0, k3) | Inr (n, k4) \<Rightarrow> Some ([], 0, k4))) = Some r"
      using run by (simp add: write_main_def Let_def opened_fs_def)
    then obtain buf k3 where rd: "read_call fd1 1024 ?k2 = Inr (buf, k3)" by (auto split: sum.splits)
    have k3: "wf_fs k3" by (rule wf_read_call [OF k2 rd])
    show ?thesis using run rd k3 keeps_calls(4) [OF k3, of fd2 buf]
      by (auto simp: keeps_def split: sum.splits if_splits)
  qed
qed

lemma wf_read_main: "wf_fs k \<Longrightarrow> read_main k = Some r \<Longrightarrow> wf_fs (left_fs r)"
  using wf_read_call [OF wf_open_call [of k "''hello.txt''" O_RDWR 0]]
  by (fastforce simp: read_main_def split: sum.splits)

lemma wf_truncate_main: "wf_fs k \<Longrightarrow> truncate_main k = Some r \<Longrightarrow> wf_fs (left_fs r)"
proof -
  assume k: "wf_fs k" and run: "truncate_main k = Some r"
  show ?thesis
  proof (cases "creat ''hello.txt'' (S_IRUSR OR S_IWUSR OR S_IRGRP OR S_IWGRP) k")
    case (Inr x)
    obtain fd k1 where x: "x = (fd, k1)" by fastforce
    have k1: "wf_fs k1" using wf_creat [OF k] Inr x by simp
    have k2: "wf_fs (opened_fs k1 (write_call fd test_text k1))"
      by (rule wf_opened [OF k1 keeps_calls(4) [OF k1]])
    have "left_fs r = truncated fd 5 (truncated fd 100000 (opened_fs k1 (write_call fd test_text k1)))"
      using run Inr x
      by (cases "write_call fd test_text k1")
        (auto simp: truncate_main_def Let_def opened_fs_def split: option.splits)
    then show ?thesis using k2 by (simp add: wf_truncated)
  qed (use k run in \<open>auto simp: truncate_main_def\<close>)
qed

lemma wf_link_main: "wf_fs k \<Longrightarrow> wf_fs (left_fs (link_main k))"
  using keeps_calls(1) [of k "''hello.txt''" "O_RDWR OR O_CREAT" S_IRWXU]
  by (auto simp: link_main_def keeps_def dest: wf_link split: sum.split) (meson wf_link wf_unlink)

lemma wf_symlink_main: "wf_fs k \<Longrightarrow> symlink_main k = Some r \<Longrightarrow> wf_fs (left_fs r)"
proof -
  assume k: "wf_fs k" and run: "symlink_main k = Some r"
  let ?k1 = "opened_fs k (creat ''hello.txt'' (S_IRUSR OR S_IWUSR) k)"
  have k1: "wf_fs ?k1" by (rule wf_opened [OF k keeps_calls(2) [OF k]])
  then have "wf_fs (case symlink_call ''hello.txt'' ''symlink.txt'' ?k1 of Inl e \<Rightarrow> ?k1 | Inr k2 \<Rightarrow> k2)"
    using wf_symlink [OF k1] by (auto split: sum.split)
  then show ?thesis
    using run by (auto simp: symlink_main_def Let_def opened_fs_def split: sum.splits if_splits)
qed

lemma wf_mkdir_all: "wf_fs k \<Longrightarrow> wf_fs (left_fs (mkdir_all ps k))"
  by (induction ps k rule: mkdir_all.induct) (auto dest: wf_mkdir split: sum.splits)

lemma wf_mkdir_main: "wf_fs k \<Longrightarrow> wf_fs (left_fs (mkdir_main args k))"
  by (simp add: mkdir_main_def wf_mkdir_all)

section \<open>Open files\<close>

lemma alloc_fd_keeps:
  "n < length fs \<Longrightarrow> fs ! n = Some g \<Longrightarrow>
    n < length (snd (alloc_fd f fs)) \<and> snd (alloc_fd f fs) ! n = Some g \<and> fst (alloc_fd f fs) \<noteq> n"
proof (induction f fs arbitrary: n rule: alloc_fd.induct)
  case (3 f h fs)
  show ?case
  proof (cases n)
    case (Suc m)
    have "m < length (snd (alloc_fd f fs)) \<and> snd (alloc_fd f fs) ! m = Some g \<and> fst (alloc_fd f fs) \<noteq> m"
      by (rule "3.IH") (use Suc "3.prems" in simp_all)
    then show ?thesis using Suc by (auto split: prod.split)
  qed (use "3.prems" in \<open>simp split: prod.split\<close>)
qed (auto split: nat.splits simp: nth_Cons)

text \<open>Opening another file leaves the open files as they are.\<close>

lemma open_node_keeps:
  "open_node i fl k = (n, k') \<Longrightarrow> file_at m k = Some g \<Longrightarrow> file_at m k' = Some g \<and> n \<noteq> m"
  using alloc_fd_keeps [of m "files k" g "\<lparr>ino = i, pos = 0, rd = for_reading fl, wr = for_writing fl,
      app = bit_set fl O_APPEND\<rparr>"]
  by (auto simp: open_node_def file_at_def split: prod.splits if_splits)

lemma file_at_set_file [simp]: "m \<noteq> n \<Longrightarrow> file_at n (set_file m f k) = file_at n k"
  by (simp add: file_at_def set_file_def)

lemma file_at_set_same [simp]: "file_at n k = Some g \<Longrightarrow> file_at n (set_file n f k) = Some f"
  by (auto simp: file_at_def set_file_def split: if_splits)

lemma file_at_set_node [simp]: "file_at n (set_node i nd k) = file_at n k"
  by (simp add: file_at_def)

lemma put_at_end [simp]: "put_at (length old) d old = old @ d"
  by (simp add: put_at_def)

lemma put_at_start [simp]: "put_at 0 d [] = d"
  by (simp add: put_at_def)

section \<open>What a successful creat or open gives\<close>

lemma creat_opens:
  assumes wf: "wf_fs k" and cr: "creat p m k = Inr (fd, k1)"
  shows "\<exists>i nd. opened_as fd k1 = Some (\<lparr>ino = i, pos = 0, rd = False, wr = True, app = False\<rparr>, nd) \<and> data nd = []"
  using wf
proof (cases rule: lookup_cases [of _ p])
  case (found i nd)
  let ?fl = "O_WRONLY OR O_CREAT OR O_TRUNC"
  have "open_node i ?fl (set_node i (nd\<lparr>data := []\<rparr>) k) = (fd, k1)"
    using cr found by (simp add: creat_def open_found flag_facts split: if_splits)
  note o = this
  have "k1 = snd (open_node i ?fl (set_node i (nd\<lparr>data := []\<rparr>) k))" using o by simp
  then show ?thesis using open_node_file [OF o] by (simp add: opened_as_def flag_facts)
next
  case loop
  then show ?thesis using cr by (simp add: creat_def open_call_def)
next
  case (absent q)
  let ?fl = "O_WRONLY OR O_CREAT OR O_TRUNC"
  let ?k = "new_node q Regular (m AND 0xFFF AND NOT (cmask k)) k"
  have "open_node (next_ino k) ?fl ?k = (fd, k1)"
    using cr absent by (simp add: creat_def open_call_def flag_facts)
  note o = this
  have "k1 = snd (open_node (next_ino k) ?fl ?k)" using o by simp
  then show ?thesis using open_node_file [OF o] by (simp add: opened_as_def flag_facts)
qed

lemma open_no_directory:
  assumes wf: "wf_fs k" and op: "open_call p fl m k = Inr (fd, k1)" and cr: "bit_set fl O_CREAT"
  shows "\<exists>i nd. names k1 p = Some i \<and> inodes k1 i = Some nd \<and> kind nd \<noteq> Directory"
proof (cases "names k p")
  case None
  have "open_node (next_ino k) fl (new_node p Regular (m AND 0xFFF AND NOT (cmask k)) k) = (fd, k1)"
    using open_new [OF None cr, of m] op by simp
  then have "k1 = snd (open_node (next_ino k) fl (new_node p Regular (m AND 0xFFF AND NOT (cmask k)) k))" by simp
  then show ?thesis by simp
next
  case (Some i)
  obtain nd where nd: "inodes k i = Some nd" using wf_names [OF wf Some] by blast
  have dir: "kind nd \<noteq> Directory"
  proof
    assume d: "kind nd = Directory"
    have "lookup p k = Inr (i, nd)" by (rule lookup_plain(2) [OF Some nd]) (simp add: d)
    then show False using op d cr by (simp add: open_found)
  qed
  from wf show ?thesis
  proof (cases rule: lookup_cases [of _ p])
    case (found j n)
    have o: "open_node j fl (if bit_set fl O_TRUNC then set_node j (n\<lparr>data := []\<rparr>) k else k) = (fd, k1)"
      using op found by (simp add: open_found split: if_splits)
    then have "k1 = snd (open_node j fl (if bit_set fl O_TRUNC then set_node j (n\<lparr>data := []\<rparr>) k else k))" by simp
    then show ?thesis using Some nd dir found(2) by (cases "j = i") auto
  next
    case loop
    then show ?thesis using op by (simp add: open_call_def)
  next
    case (absent q)
    let ?k = "new_node q Regular (m AND 0xFFF AND NOT (cmask k)) k"
    have "open_node (next_ino k) fl ?k = (fd, k1)"
      using op absent cr by (simp add: open_call_def)
    then have "k1 = snd (open_node (next_ino k) fl ?k)" by simp
    moreover have "i \<noteq> next_ino k" using wf_fresh_name [OF wf, of p] Some by auto
    moreover have "q \<noteq> p" using absent(3) Some by auto
    ultimately show ?thesis using Some nd dir by simp
  qed
qed

text \<open>The regular file of a name, and what \<open>creat\<close> does to it and to the others.\<close>

definition regular_at :: "string \<Rightarrow> fs \<Rightarrow> inode option" where
  "regular_at p k =
     (case names k p of
        None \<Rightarrow> None
      | Some i \<Rightarrow>
          (case inodes k i of
             None \<Rightarrow> None
           | Some nd \<Rightarrow> if kind nd = Regular then Some nd else None))"

definition creatable :: "string \<Rightarrow> fs \<Rightarrow> bool" where
  "creatable p k \<longleftrightarrow> (case regular_at p k of None \<Rightarrow> names k p = None | Some nd \<Rightarrow> may nd S_IWUSR)"

lemma regular_atD:
  assumes "regular_at p k = Some nd"
  shows "\<exists>i. names k p = Some i \<and> inodes k i = Some nd \<and> kind nd = Regular"
  using assms by (auto simp: regular_at_def split: option.splits if_splits)

lemma regular_lookup:
  "regular_at p k = Some nd \<Longrightarrow> mode_of p k = Some (perm nd) \<and> content_of p k = Some (data nd)"
  using lookup_plain(2) [of k p] regular_atD [of p k nd] by (auto simp: mode_of_def content_of_def)

lemma regular_open [simp]: "regular_at p (snd (open_node i fl k)) = regular_at p k"
  by (simp add: regular_at_def cong: option.case_cong)

lemma regular_umask [simp]: "regular_at p (umask_call m k) = regular_at p k"
  by (simp add: regular_at_def cong: option.case_cong)

lemma creatable_umask [simp]: "creatable p (umask_call m k) = creatable p k"
  by (simp add: creatable_def cong: option.case_cong)

lemma creat_regular:
  assumes "regular_at p k = Some nd" "may nd S_IWUSR"
  shows "\<exists>fd i. names k p = Some i \<and> inodes k i = Some nd
    \<and> creat p m k = Inr (fd, snd (open_node i (O_WRONLY OR O_CREAT OR O_TRUNC) (set_node i (nd\<lparr>data := []\<rparr>) k)))"
proof -
  obtain i where i: "names k p = Some i" "inodes k i = Some nd" "kind nd = Regular" using regular_atD [OF assms(1)] by blast
  then have "lookup p k = Inr (i, nd)" by (simp add: lookup_plain)
  then show ?thesis
    using i assms(2) by (cases "open_node i (O_WRONLY OR O_CREAT OR O_TRUNC) (set_node i (nd\<lparr>data := []\<rparr>) k)")
      (simp add: creat_def open_found flag_facts)
qed

definition creates :: "string \<Rightarrow> mode \<Rightarrow> fs \<Rightarrow> fs \<Rightarrow> bool" where
  "creates p m k k1 \<longleftrightarrow> wf_fs k1
     \<and> (\<exists>nd. regular_at p k1 = Some nd \<and> data nd = []
          \<and> Some (perm nd) = (if names k p = None then Some (m AND 0xFFF AND NOT (cmask k)) else mode_of p k))
     \<and> (\<forall>q. q \<noteq> p \<longrightarrow> names k1 q = names k q \<and> map_option perm (regular_at q k1) = map_option perm (regular_at q k)
          \<and> (map_option data (regular_at q k) = Some [] \<longrightarrow> map_option data (regular_at q k1) = Some []))"

lemma creat_creates:
  assumes wf: "wf_fs k" and p: "creatable p k"
  obtains fd k1 where "creat p m k = Inr (fd, k1)" "creates p m k k1"
proof (cases "regular_at p k")
  case None
  then have n: "names k p = None" using p by (simp add: creatable_def)
  obtain fd where c: "creat p m k = Inr (fd, snd (open_node (next_ino k) (O_WRONLY OR O_CREAT OR O_TRUNC)
      (new_node p Regular (m AND 0xFFF AND NOT (cmask k)) k)))" (is "_ = Inr (fd, ?k1)") by (rule creat_new [OF n])
  have "regular_at q ?k1 = regular_at q k" if "q \<noteq> p" for q
    using that wf_fresh_name [OF wf, of q] by (auto simp: regular_at_def split: option.split)
  then have "creates p m k ?k1"
    using wf_creat [OF wf c] n by (simp add: creates_def) (simp add: regular_at_def)
  then show ?thesis using that c by blast
next
  case (Some nd)
  then obtain fd i where i: "names k p = Some i" "inodes k i = Some nd"
    and c: "creat p m k = Inr (fd, snd (open_node i (O_WRONLY OR O_CREAT OR O_TRUNC) (set_node i (nd\<lparr>data := []\<rparr>) k)))"
      (is "_ = Inr (fd, ?k1)") using creat_regular [OF Some, of m] p by (auto simp: creatable_def)
  have kd: "kind nd = Regular" using regular_atD [OF Some] i by auto
  have "map_option perm (regular_at q ?k1) = map_option perm (regular_at q k)
      \<and> (map_option data (regular_at q k) = Some [] \<longrightarrow> map_option data (regular_at q ?k1) = Some [])" for q
    using i kd by (auto simp: regular_at_def split: option.split)
  moreover have "regular_at p ?k1 = Some (nd\<lparr>data := []\<rparr>)" using i kd by (simp add: regular_at_def)
  ultimately have "creates p m k ?k1"
    using wf_creat [OF wf c] i regular_lookup [OF Some] by (simp add: creates_def)
  then show ?thesis using that c by blast
qed

section \<open>Properties\<close>

text \<open>A file system with one regular file, for the witnesses.\<close>

definition one_file :: "string \<Rightarrow> string \<Rightarrow> mode \<Rightarrow> fs" where
  "one_file p d m =
     \<lparr>names = [p \<mapsto> 0], inodes = [0 \<mapsto> \<lparr>kind = Regular, data = d, perm = m, nlink = 1\<rparr>],
      next_ino = 1, files = [], cmask = 0x12\<rparr>"

lemma one_file_wf: "wf_fs (one_file p d m)"
  by (rule wf_fsI) (auto simp: one_file_def names_of_def links_ok_def split: if_splits)

text \<open>Every program of \<open>IO\<close> and \<open>file_system\<close> that changes the file system leaves it well formed:
  names lead to inodes, link counts are numbers of names, open files have inodes.
\<close>

theorem file_programs_keep_wf:
  assumes "wf_fs k"
  shows "wf_fs (left_fs (umask_main k)) \<and> wf_fs (left_fs (chmod_main k))
    \<and> wf_fs (left_fs (create_main k)) \<and> wf_fs (left_fs (open_main stray k))
    \<and> wf_fs (left_fs (link_main k)) \<and> wf_fs (left_fs (mkdir_main args k))
    \<and> pred_option (\<lambda>r. wf_fs (left_fs r)) (write_main k)
    \<and> pred_option (\<lambda>r. wf_fs (left_fs r)) (read_main k)
    \<and> pred_option (\<lambda>r. wf_fs (left_fs r)) (truncate_main k)
    \<and> pred_option (\<lambda>r. wf_fs (left_fs r)) (symlink_main k)"
  using assms wf_umask_main wf_chmod_main wf_create_main wf_open_main wf_link_main wf_mkdir_main
    wf_write_main wf_read_main wf_truncate_main wf_symlink_main
  by (simp add: pred_option_def)

lemma file_programs_keep_wf_witness:
  "wf_fs (left_fs (link_main (one_file ''hello.txt'' ''x'' RWRWRW)))"
  using file_programs_keep_wf [OF one_file_wf] by blast

text \<open>C40: \<open>umask\<close>: where each of the two names is free or names a regular file that may be written, the
  program ends with 0; a name that was free leads to an empty file of mode 0666 (\<open>hello.txt\<close>) or
  0660 (\<open>world.txt\<close>, created under the mask 0006), whatever the mask was before; a file that existed
  is emptied and keeps the mode it had.
\<close>

theorem umask_sets_modes:
  assumes wf: "wf_fs k" and hello: "creatable ''hello.txt'' k" and world: "creatable ''world.txt'' k"
  shows "exit_code (umask_main k) = 0
    \<and> mode_of ''hello.txt'' (left_fs (umask_main k)) =
        (if names k ''hello.txt'' = None then Some 0x1B6 else mode_of ''hello.txt'' k)
    \<and> mode_of ''world.txt'' (left_fs (umask_main k)) =
        (if names k ''world.txt'' = None then Some 0x1B0 else mode_of ''world.txt'' k)
    \<and> content_of ''hello.txt'' (left_fs (umask_main k)) = Some []
    \<and> content_of ''world.txt'' (left_fs (umask_main k)) = Some []"
proof -
  let ?k0 = "umask_call 0 k"
  have w0: "wf_fs ?k0" and h0: "creatable ''hello.txt'' ?k0" and m0: "mode_of p ?k0 = mode_of p k" for p
    using wf_umask [OF wf] hello lookup_cong [of ?k0 k] by (simp_all add: mode_of_def)
  from w0 h0 obtain fd1 k1 where c1: "creat ''hello.txt'' RWRWRW ?k0 = Inr (fd1, k1)"
    and e1: "creates ''hello.txt'' RWRWRW ?k0 k1" by (rule creat_creates)
  let ?k2 = "umask_call (S_IWOTH OR S_IROTH) k1"
  have w2: "wf_fs ?k2" and m2: "mode_of p ?k2 = mode_of p k1" for p
    using e1 wf_umask lookup_cong [of ?k2 k1] by (simp_all add: creates_def mode_of_def)
  have k1: "names k1 ''world.txt'' = names k ''world.txt''"
      "map_option perm (regular_at ''world.txt'' k1) = map_option perm (regular_at ''world.txt'' k)"
    using e1 by (simp_all add: creates_def)
  then have world2: "creatable ''world.txt'' ?k2"
    using world unfolding creatable_umask by (auto simp: creatable_def may_def split: option.splits)
  have mw: "mode_of ''world.txt'' k1 = mode_of ''world.txt'' k" if "names k ''world.txt'' \<noteq> None"
    using world k1 that regular_lookup [of "''world.txt''" k] regular_lookup [of "''world.txt''" k1]
    by (auto simp: creatable_def split: option.splits)
  from w2 world2 obtain fd2 k3 where c2: "creat ''world.txt'' RWRWRW ?k2 = Inr (fd2, k3)"
    and e2: "creates ''world.txt'' RWRWRW ?k2 k3" by (rule creat_creates)
  have r: "umask_main k = ([], 0, k3)" using c1 c2 by (simp add: umask_main_def)
  obtain h where h: "regular_at ''hello.txt'' k1 = Some h" "data h = []"
      "Some (perm h) = (if names k ''hello.txt'' = None then Some 0x1B6 else mode_of ''hello.txt'' k)"
    using e1 unfolding creates_def m0 by (auto simp: RWRWRW_def mode_bits)
  have "map_option perm (regular_at ''hello.txt'' k3) = Some (perm h)" "map_option data (regular_at ''hello.txt'' k3) = Some []"
    using e2 h(1,2) by (simp_all add: creates_def)
  then obtain h3 where h3: "regular_at ''hello.txt'' k3 = Some h3" "data h3 = []" "perm h3 = perm h" by auto
  obtain w where w: "regular_at ''world.txt'' k3 = Some w" "data w = []"
      "Some (perm w) = (if names k ''world.txt'' = None then Some 0x1B0 else mode_of ''world.txt'' k)"
    using e2 k1(1) mw unfolding creates_def m2 by (auto simp: RWRWRW_def mode_bits)
  show ?thesis using regular_lookup [OF h3(1)] regular_lookup [OF w(1)] h(3) h3 w(2,3) by (simp add: r)
qed

lemma umask_sets_modes_witness:
  "mode_of ''world.txt'' (left_fs (umask_main (one_file ''hello.txt'' ''x'' 0x180))) = Some 0x1B0
    \<and> mode_of ''hello.txt'' (left_fs (umask_main (one_file ''hello.txt'' ''x'' 0x180))) = Some 0x180"
proof -
  have "creatable ''hello.txt'' (one_file ''hello.txt'' ''x'' 0x180)" "creatable ''world.txt'' (one_file ''hello.txt'' ''x'' 0x180)"
    by (simp_all add: creatable_def regular_at_def one_file_def may_def bit_set_def mode_bits)
  moreover have "mode_of ''hello.txt'' (one_file ''hello.txt'' ''x'' 0x180) = Some 0x180"
    using mode_plain [of "one_file ''hello.txt'' ''x'' 0x180" "''hello.txt''" 0
        "\<lparr>kind = Regular, data = ''x'', perm = 0x180, nlink = 1\<rparr>"] by (simp add: one_file_def)
  moreover note umask_sets_modes [OF one_file_wf, of "''hello.txt''" "''x''" "0x180"]
  ultimately show ?thesis by (simp add: one_file_def)
qed

text \<open>C17: \<open>IO/write\<close>: where both files can be opened, the program appends the first to the second,
  also when they are the same file, as long as the first is shorter than the buffer of 1024
  bytes; otherwise it stores the terminator behind the buffer.
\<close>

theorem write_appends:
  assumes one: "lookup ''file1.txt'' k = Inr (i1, nd1)" "kind nd1 = Regular" "may nd1 S_IRUSR"
    and two: "lookup ''file2.txt'' k = Inr (i2, nd2)" "kind nd2 = Regular" "may nd2 S_IWUSR"
  shows "if length (data nd1) < 1024
    then map_option (\<lambda>r. content_of ''file2.txt'' (left_fs r)) (write_main k) = Some (Some (data nd2 @ data nd1))
    else write_main k = None"
proof -
  obtain fd1 k1 where o1: "open_node i1 O_RDONLY k = (fd1, k1)" by fastforce
  have r1: "open_call ''file1.txt'' O_RDONLY 0 k = Inr (fd1, k1)"
    using open_found [OF one(1)] one o1 by (simp add: flag_facts)
  have k1: "k1 = snd (open_node i1 O_RDONLY k)" using o1 by simp
  have two1: "lookup ''file2.txt'' k1 = Inr (i2, nd2)" unfolding k1 by (simp add: two)
  obtain fd2 k2 where o2: "open_node i2 (O_WRONLY OR O_APPEND) k1 = (fd2, k2)" by fastforce
  have r2: "open_call ''file2.txt'' (O_WRONLY OR O_APPEND) 0 k1 = Inr (fd2, k2)"
    using open_found [OF two1] two o2 by (simp add: flag_facts)
  have k2: "k2 = snd (open_node i2 (O_WRONLY OR O_APPEND) k1)" using o2 by simp
  have nodes: "inodes k2 = inodes k" unfolding k2 k1 by simp
  have f1: "file_at fd1 k2 = Some \<lparr>ino = i1, pos = 0, rd = True, wr = False, app = False\<rparr>" and ne: "fd2 \<noteq> fd1"
    using open_node_keeps [OF o2 open_node_file [OF o1]] by (simp_all add: flag_facts)
  have f2: "file_at fd2 k2 = Some \<lparr>ino = i2, pos = 0, rd = False, wr = True, app = True\<rparr>"
    using open_node_file [OF o2] by (simp add: flag_facts)
  define d where "d = take 1024 (data nd1)"
  let ?k3 = "set_file fd1 \<lparr>ino = i1, pos = length d, rd = True, wr = False, app = False\<rparr> k2"
  have rd: "read_call fd1 1024 k2 = Inr (d, ?k3)"
    using f1 lookup_node [OF one(1)] one(2) by (simp add: read_call_def opened_as_def nodes Let_def d_def)
  have f3: "opened_as fd2 ?k3 = Some (\<lparr>ino = i2, pos = 0, rd = False, wr = True, app = True\<rparr>, nd2)"
    using f2 ne lookup_node [OF two(1)] by (simp add: opened_as_def nodes)
  let ?k4 = "set_file fd2 \<lparr>ino = i2, pos = length (data nd2) + length d, rd = False, wr = True, app = True\<rparr>
    (set_node i2 (nd2\<lparr>data := data nd2 @ d\<rparr>) ?k3)"
  have wr: "write_call fd2 d ?k3 = Inr (length d, ?k4)"
    using f3 by (simp add: write_call_def Let_def)
  have "lookup ''file2.txt'' ?k3 = Inr (i2, nd2)" by (simp add: k2 k1 two)
  then have "lookup ''file2.txt'' (set_node i2 (nd2\<lparr>data := data nd2 @ d\<rparr>) ?k3) = Inr (i2, nd2\<lparr>data := data nd2 @ d\<rparr>)"
    by (rule lookup_set_node) (simp_all add: nodes lookup_node [OF two(1)])
  then have con: "content_of ''file2.txt'' ?k4 = Some (data nd2 @ d)" by (simp add: content_of_def)
  have "write_main k = (if length d = 1024 then None else Some ([], 0, ?k4))"
    using rd wr by (simp add: write_main_def r1 r2)
  note run = this
  show ?thesis
  proof (cases "length (data nd1) < 1024")
    case True
    then have d: "d = data nd1" by (simp add: d_def)
    have "map_option (\<lambda>r. content_of ''file2.txt'' (left_fs r)) (write_main k) = Some (Some (data nd2 @ d))"
      using run con True by (simp add: d_def)
    then show ?thesis using True unfolding d by simp
  next
    case False
    then show ?thesis using run by (simp add: d_def)
  qed
qed

definition two_files :: fs where
  "two_files =
     \<lparr>names = [''file1.txt'' \<mapsto> 0, ''file2.txt'' \<mapsto> 1],
      inodes = [0 \<mapsto> \<lparr>kind = Regular, data = ''new'', perm = 0x180, nlink = 1\<rparr>,
                1 \<mapsto> \<lparr>kind = Regular, data = ''old '', perm = 0x180, nlink = 1\<rparr>],
      next_ino = 2, files = [], cmask = 0x12\<rparr>"

lemma write_appends_witness:
  "map_option (\<lambda>r. content_of ''file2.txt'' (left_fs r)) (write_main two_files) = Some (Some ''old new'')"
proof -
  have "lookup ''file1.txt'' two_files = Inr (0, \<lparr>kind = Regular, data = ''new'', perm = 0x180, nlink = 1\<rparr>)"
    "lookup ''file2.txt'' two_files = Inr (1, \<lparr>kind = Regular, data = ''old '', perm = 0x180, nlink = 1\<rparr>)"
    by (rule lookup_plain(2); simp add: two_files_def)+
  from write_appends [OF this(1) _ _ this(2)] show ?thesis
    by (simp add: may_def bit_set_def mode_bits)
qed

lemma set_contents:
  "opened_as fd k = Some (f, nd) \<Longrightarrow>
    opened_as fd (set_node (ino f) (nd\<lparr>data := d\<rparr>) k) = Some (f, nd\<lparr>data := d\<rparr>)"
  by (auto simp: opened_as_def split: option.splits)

text \<open>
  \<open>truncate\<close>: whenever the file can be created the program prints the sizes 0, 25, 100000 and 5,
  and leaves the first five bytes of its text.
\<close>

theorem truncate_sizes:
  assumes wf: "wf_fs k" and cr: "creat ''hello.txt'' (S_IRUSR OR S_IWUSR OR S_IRGRP OR S_IWGRP) k = Inr (fd, k1)"
  shows "\<exists>k2 f nd. truncate_main k =
      Some ([Num ''hello.txt size is '' 0, Num ''count is '' 25, Num ''hello.txt size is '' 25,
        Num ''hello.txt size is '' 100000, Num ''hello.txt size is '' 5], 0, k2)
    \<and> opened_as fd k2 = Some (f, nd) \<and> data nd = ''test ''"
proof -
  obtain i nd where o1: "opened_as fd k1 = Some (\<lparr>ino = i, pos = 0, rd = False, wr = True, app = False\<rparr>, nd)"
    and d: "data nd = []" using creat_opens [OF wf cr] by blast
  define f where "f = \<lparr>ino = i, pos = 25, rd = False, wr = True, app = False\<rparr>"
  have len: "length test_text = 25" by (simp add: test_text_def)
  define k2 where "k2 = set_file fd f (set_node i (nd\<lparr>data := test_text\<rparr>) k1)"
  have w: "write_call fd test_text k1 = Inr (25, k2)"
    using o1 d len by (simp add: write_call_def k2_def f_def)
  have fi: "ino f = i" "wr f" by (simp_all add: f_def)
  have "file_at fd k1 = Some \<lparr>ino = i, pos = 0, rd = False, wr = True, app = False\<rparr>"
    using opened_asD [OF o1] by simp
  then have o2: "opened_as fd k2 = Some (f, nd\<lparr>data := test_text\<rparr>)"
    by (simp add: opened_as_def k2_def fi)
  define k3 where "k3 = set_node i (nd\<lparr>data := resized 100000 test_text\<rparr>) k2"
  have t3: "truncated fd 100000 k2 = k3" using o2 fi by (simp add: truncated_def ftruncate_def k3_def)
  have o3: "opened_as fd k3 = Some (f, nd\<lparr>data := resized 100000 test_text\<rparr>)"
    using set_contents [OF o2, of "resized 100000 test_text"] by (simp add: k3_def fi)
  define k4 where "k4 = set_node i (nd\<lparr>data := resized 5 (resized 100000 test_text)\<rparr>) k3"
  have t4: "truncated fd 5 k3 = k4" using o3 fi by (simp add: truncated_def ftruncate_def k4_def)
  have o4: "opened_as fd k4 = Some (f, nd\<lparr>data := resized 5 (resized 100000 test_text)\<rparr>)"
    using set_contents [OF o3, of "resized 5 (resized 100000 test_text)"] by (simp add: k4_def fi)
  have five: "resized 5 (resized 100000 test_text) = ''test ''" by (simp add: resized_def test_text_def)
  have big: "length (resized 100000 test_text) = 100000" by (simp add: resized_def len)
  have "truncate_main k = Some ([Num ''hello.txt size is '' 0, Num ''count is '' 25, Num ''hello.txt size is '' 25,
        Num ''hello.txt size is '' 100000, Num ''hello.txt size is '' 5], 0, k4)"
    by (simp add: truncate_main_def cr w t3 t4 size_line_def fstat_size_def o1 o2 o3 o4 d len five big)
  with o4 five show ?thesis by fastforce
qed

lemma truncate_sizes_witness:
  "\<exists>k2 r. truncate_main (one_file ''hello.txt'' ''abc'' 0x180) = Some (r, 0, k2) \<and> length r = 5"
proof -
  let ?k = "one_file ''hello.txt'' ''abc'' 0x180"
  have "lookup ''hello.txt'' ?k = Inr (0, \<lparr>kind = Regular, data = ''abc'', perm = 0x180, nlink = 1\<rparr>)"
    by (rule lookup_plain(2)) (simp_all add: one_file_def)
  from open_found [OF this, of "O_WRONLY OR O_CREAT OR O_TRUNC"]
  obtain x where "creat ''hello.txt'' (S_IRUSR OR S_IWUSR OR S_IRGRP OR S_IWGRP) ?k = Inr x"
    by (simp add: creat_def flag_facts may_def bit_set_def mode_bits)
  then obtain fd k1 where "creat ''hello.txt'' (S_IRUSR OR S_IWUSR OR S_IRGRP OR S_IWGRP) ?k = Inr (fd, k1)"
    by (cases x) simp
  from truncate_sizes [OF one_file_wf this] show ?thesis by fastforce
qed

text \<open>C20: \<open>link\<close>: where the second name is free, linking and unlinking gives the file system back as it
  was after \<open>open\<close>; where it is taken nothing is linked.
\<close>

theorem link_main_restores:
  assumes "wf_fs k" "open_call ''hello.txt'' (O_RDWR OR O_CREAT) S_IRWXU k = Inr (fd, k1)"
  shows "link_main k =
    (if names k1 ''hardlink.txt'' = None then ([Line ''unlink success''], 0, k1)
     else ([Perror ''create hard link fail''], 1, k1))"
proof -
  obtain i nd where i: "names k1 ''hello.txt'' = Some i" "inodes k1 i = Some nd" "kind nd \<noteq> Directory"
    using open_no_directory [OF assms] by (auto simp: flag_facts)
  show ?thesis
  proof (cases "names k1 ''hardlink.txt''")
    case None
    then obtain k2 where l: "link_call ''hello.txt'' ''hardlink.txt'' k1 = Inr k2"
      using i by (simp add: link_call_def)
    have "unlink_call ''hardlink.txt'' k2 = Inr k1"
      by (rule link_unlink [OF wf_open_call [OF assms] l])
    then show ?thesis using assms(2) l None by (simp add: link_main_def)
  next
    case (Some j)
    then have "link_call ''hello.txt'' ''hardlink.txt'' k1 = Inl EEXIST"
      using i by (simp add: link_call_def)
    then show ?thesis using assms(2) Some by (simp add: link_main_def)
  qed
qed

lemma link_main_restores_witness:
  "printed (link_main (one_file ''x'' [] 0)) = [Line ''unlink success'']"
proof -
  let ?k = "one_file ''x'' [] 0"
  have n: "names ?k ''hello.txt'' = None" by (simp add: one_file_def)
  obtain fd k1 where o: "open_node (next_ino ?k) (O_RDWR OR O_CREAT)
      (new_node ''hello.txt'' Regular (S_IRWXU AND 0xFFF AND NOT (cmask ?k)) ?k) = (fd, k1)" by fastforce
  then have "open_call ''hello.txt'' (O_RDWR OR O_CREAT) S_IRWXU ?k = Inr (fd, k1)"
    using open_new [OF n] by (simp add: flag_facts)
  moreover have "k1 = snd (open_node (next_ino ?k) (O_RDWR OR O_CREAT)
      (new_node ''hello.txt'' Regular (S_IRWXU AND 0xFFF AND NOT (cmask ?k)) ?k))" using o by simp
  then have "names k1 ''hardlink.txt'' = None" by (simp add: one_file_def)
  ultimately show ?thesis using link_main_restores [OF one_file_wf] by simp
qed

lemma open_rdwr_file:
  assumes wf: "wf_fs k" and op: "open_call p O_RDWR 0 k = Inr (fd, k1)"
  shows "\<exists>i nd. opened_as fd k1 = Some (\<lparr>ino = i, pos = 0, rd = True, wr = True, app = False\<rparr>, nd)
    \<and> lookup p k = Inr (i, nd) \<and> kind nd \<noteq> Directory"
  using wf
proof (cases rule: lookup_cases [of _ p])
  case (found i nd)
  have o: "open_node i O_RDWR k = (fd, k1)" and d: "kind nd \<noteq> Directory"
    using op found by (simp_all add: open_found flag_facts split: if_splits)
  have "k1 = snd (open_node i O_RDWR k)" using o by simp
  then show ?thesis using open_node_file [OF o] found d by (simp add: opened_as_def flag_facts)
qed (use op in \<open>simp_all add: open_call_def flag_facts\<close>)

text \<open>C39: \<open>read\<close>: the program stores before its buffer exactly when \<open>hello.txt\<close> cannot be opened; otherwise
  it prints the text of the first hundred bytes.
\<close>

theorem read_main_outcome:
  assumes wf: "wf_fs k"
  shows "(case open_call ''hello.txt'' O_RDWR 0 k of
      Inl e \<Rightarrow> read_main k = None
    | Inr x \<Rightarrow> (\<exists>d k2. content_of ''hello.txt'' k = Some d
        \<and> read_main k = Some (Perror ''fd1'' #
            (if d = [] then [] else [Line (''buf : '' @ c_text (take 100 d))]), 0, k2)))"
proof (cases "open_call ''hello.txt'' O_RDWR 0 k")
  case (Inr x)
  obtain fd k1 where x: "x = (fd, k1)" by fastforce
  obtain i nd where o: "opened_as fd k1 = Some (\<lparr>ino = i, pos = 0, rd = True, wr = True, app = False\<rparr>, nd)"
    and l: "lookup ''hello.txt'' k = Inr (i, nd)" "kind nd \<noteq> Directory"
    using open_rdwr_file [OF wf, of "''hello.txt''" fd k1] Inr x by blast
  have "read_call fd 100 k1 = Inr (take 100 (data nd),
      set_file fd \<lparr>ino = i, pos = length (take 100 (data nd)), rd = True, wr = True, app = False\<rparr> k1)"
    using o l(2) by (simp add: read_call_def Let_def)
  then show ?thesis using Inr x l by (auto simp: read_main_def content_of_def)
qed (simp add: read_main_def)

lemma read_main_outcome_witness:
  "\<exists>k2. read_main (one_file ''hello.txt'' ''abc'' 0x180) = Some ([Perror ''fd1'', Line ''buf : abc''], 0, k2)"
proof -
  let ?k = "one_file ''hello.txt'' ''abc'' 0x180"
  have l: "lookup ''hello.txt'' ?k = Inr (0, \<lparr>kind = Regular, data = ''abc'', perm = 0x180, nlink = 1\<rparr>)"
    by (rule lookup_plain(2)) (simp_all add: one_file_def)
  obtain x where "open_call ''hello.txt'' O_RDWR 0 ?k = Inr x"
    using open_found [OF l, of O_RDWR] by (simp add: flag_facts may_def bit_set_def mode_bits)
  moreover have "c_text ''abc'' = ''abc''" by code_simp
  ultimately show ?thesis
    using read_main_outcome [OF one_file_wf [of "''hello.txt''" "''abc''" "0x180"]] by (auto simp: content_of_def l)
qed

text \<open>
  \<open>symlink\<close>: what the program makes of a \<open>symlink.txt\<close> that is there already. It stores outside
  its buffer when that is not a symbolic link or is one of at least 512 bytes, and only then.
\<close>

theorem symlink_main_outcome:
  assumes "wf_fs k" "k1 = opened_fs k (creat ''hello.txt'' (S_IRUSR OR S_IWUSR) k)"
  shows "case names k1 ''symlink.txt'' of
      None \<Rightarrow> map_option printed (symlink_main k) = Some [Line ''sysmlink.txt : hello.txt'']
    | Some i \<Rightarrow>
        (case inodes k1 i of
           None \<Rightarrow> False
         | Some nd \<Rightarrow>
             (case kind nd of
                Symlink t \<Rightarrow>
                  symlink_main k =
                    (if 512 \<le> length t then None else Some ([Line (''sysmlink.txt : '' @ c_text t)], 0, k1))
              | _ \<Rightarrow> symlink_main k = None))"
proof -
  have k1: "wf_fs k1" unfolding assms(2) by (rule wf_opened [OF assms(1) keeps_calls(2) [OF assms(1)]])
  have e: "(case creat ''hello.txt'' (S_IRUSR OR S_IWUSR) k of Inl e \<Rightarrow> k | Inr (fd, k1) \<Rightarrow> k1) = k1"
    by (simp add: assms(2) opened_fs_def)
  have main: "symlink_main k = (case readlink ''symlink.txt'' 512
        (case symlink_call ''hello.txt'' ''symlink.txt'' k1 of Inl e \<Rightarrow> k1 | Inr k2 \<Rightarrow> k2) of
      Inl e \<Rightarrow> None
    | Inr t \<Rightarrow> if length t = 512 then None
        else Some ([Line (''sysmlink.txt : '' @ c_text t)], 0,
          case symlink_call ''hello.txt'' ''symlink.txt'' k1 of Inl e \<Rightarrow> k1 | Inr k2 \<Rightarrow> k2))"
    unfolding symlink_main_def Let_def e by (rule HOL.refl)
  show ?thesis
  proof (cases "names k1 ''symlink.txt''")
    case None
    have "c_text ''hello.txt'' = ''hello.txt''" by code_simp
    then show ?thesis using None by (simp add: main symlink_call_def readlink_def)
  next
    case (Some i)
    obtain nd where nd: "inodes k1 i = Some nd" using wf_names [OF k1 Some] by blast
    have c: "symlink_call ''hello.txt'' ''symlink.txt'' k1 = Inl EEXIST" using Some by (simp add: symlink_call_def)
    show ?thesis
    proof (cases "kind nd")
      case (Symlink t)
      have "length (take 512 t) = 512 \<longleftrightarrow> 512 \<le> length t" by auto
      then show ?thesis using Some nd Symlink by (auto simp: main c readlink_def)
    qed (use Some nd in \<open>simp_all add: main c readlink_def\<close>)
  qed
qed

section \<open>Directories\<close>

text \<open>The arguments of \<open>mkdir\<close> up to the first that exists already or is repeated.\<close>

fun new_names :: "string set \<Rightarrow> string list \<Rightarrow> string list" where
  "new_names S [] = []"
| "new_names S (p # ps) = (if p \<in> S then [] else p # new_names (insert p S) ps)"

lemma mkdir_all_makes:
  "dom (names (left_fs (mkdir_all ps k))) = dom (names k) \<union> set (new_names (dom (names k)) ps)
    \<and> exit_code (mkdir_all ps k) = (if new_names (dom (names k)) ps = ps then 0 else 1)"
proof (induction ps k rule: mkdir_all.induct)
  case (2 p ps k)
  show ?case
  proof (cases "names k p")
    case None
    let ?k = "new_node p Directory ((S_IRWXU OR S_IRWXG) AND 0x1FF AND NOT (cmask k)) k"
    have m: "mkdir_call p (S_IRWXU OR S_IRWXG) k = Inr ?k" using None by (simp add: mkdir_call_def)
    have dk: "dom (names ?k) = insert p (dom (names k))" by simp
    show ?thesis using "2.IH" [OF m, unfolded dk] None by (simp add: m domIff del: new_node_simps)
  next
    case (Some i)
    then have "mkdir_call p (S_IRWXU OR S_IRWXG) k = Inl EEXIST" by (simp add: mkdir_call_def)
    then show ?thesis using Some by (auto simp: domIff)
  qed
qed simp

text \<open>
  \<open>mkdir\<close> creates its arguments in order up to the first that exists or is repeated, and its
  exit code says whether it created them all.
\<close>

theorem mkdir_main_makes:
  "dom (names (left_fs (mkdir_main args k))) = dom (names k) \<union> set (new_names (dom (names k)) args)
    \<and> exit_code (mkdir_main args k) = (if args \<noteq> [] \<and> new_names (dom (names k)) args = args then 0 else 1)"
  using mkdir_all_makes [of args k] by (simp add: mkdir_main_def)

text \<open>The loop over a directory prints what is left of it and stops at its end.\<close>

fun located :: "nat \<Rightarrow> string list \<Rightarrow> out_line list" where
  "located n [] = []"
| "located n (e # es) = Num ''current location '' (int (n + 1)) # Line (''file name :'' @ e) # located (n + 1) es"

lemma print_entries_rest:
  "dpos d \<le> length (entries d) \<Longrightarrow>
    print_entries loc d =
      (if loc then located (dpos d) (drop (dpos d) (entries d)) else map Line (drop (dpos d) (entries d)),
       d\<lparr>dpos := length (entries d)\<rparr>)"
proof (induction loc d rule: print_entries.induct)
  case (1 loc d)
  show ?case
  proof (cases "dpos d < length (entries d)")
    case True
    then have r: "readdir d = Some (entries d ! dpos d, d\<lparr>dpos := dpos d + 1\<rparr>)" by (simp add: readdir_def)
    have "print_entries loc (d\<lparr>dpos := dpos d + 1\<rparr>) =
      (if loc then located (dpos d + 1) (drop (dpos d + 1) (entries d)) else map Line (drop (dpos d + 1) (entries d)),
       d\<lparr>dpos := length (entries d)\<rparr>)"
      using "1.IH" [OF r HOL.refl] True by simp
    moreover have "drop (dpos d) (entries d) = entries d ! dpos d # drop (dpos d + 1) (entries d)"
      using True by (simp add: Cons_nth_drop_Suc)
    ultimately show ?thesis by (subst print_entries.simps) (simp add: r telldir_def)
  next
    case False
    then have "readdir d = None" "dpos d = length (entries d)" using "1.prems" by (simp_all add: readdir_def)
    then show ?thesis by (subst print_entries.simps) simp
  qed
qed

text \<open>
  Rewinding and seeking: both programs print the whole directory, the line of dashes, and the
  whole directory again; \<open>telldir_main\<close> prints with each entry the location behind it.
\<close>

theorem directory_printed_twice:
  "rewinddir_main (Some es) = (map Line es @ [Line ''----------------------------------''] @ map Line es, 0)"
  "telldir_main (Some es) = (located 0 es @ [Line ''-------------------------------''] @ located 0 es, 0)"
  by (simp_all add: rewinddir_main_def telldir_main_def print_entries_rest opendir_def rewinddir_def
      telldir_def seekdir_def Let_def)

end
